(* ===== verification/Prelude.thy ===== *)
theory Prelude
  imports Main "HOL-Library.Word"
begin

unbundle bit_operations_syntax

text \<open>
  Shared vocabulary of the development: the result type of kernel code, its
  sequencing operator, the loop combinators the components use, a small
  calculus for pre- and postconditions over results, and generic lemmas on
  lists, options and machine words.
\<close>

section \<open>Results of kernel code\<close>

text \<open>
  A kernel routine is a function from the machine state to a result:
  \<^item> \<open>Ok r s\<close>: it returns \<open>r\<close> in state \<open>s\<close>;
  \<^item> \<open>Block s\<close>: in state \<open>s\<close> it has gone to sleep (or spins on a lock another
    hart holds) and resumes at the loop around that wait when it is woken;
  \<^item> \<open>Panic msg\<close>: it called \<^verbatim>\<open>panic(msg)\<close>, which stops the machine;
  \<^item> \<open>Fault\<close>: it dereferenced a null pointer or indexed outside an array.
\<close>

datatype ('a, 's) outcome = Ok 'a 's | Block 's | Panic string | Fault

fun bind :: "('a, 's) outcome \<Rightarrow> ('a \<Rightarrow> 's \<Rightarrow> ('b, 's) outcome) \<Rightarrow> ('b, 's) outcome" where
  "bind (Ok a s) f = f a s"
| "bind (Block s) f = Block s"
| "bind (Panic m) f = Panic m"
| "bind Fault f = Fault"

lemma bind_Ok_right [simp]: "bind m (\<lambda>a s. Ok a s) = m"
  by (cases m) auto

lemma bind_assoc: "bind (bind m f) g = bind m (\<lambda>a s. bind (f a s) g)"
  by (cases m) auto

lemma bind_eq_Ok:
  "bind m f = Ok b t \<longleftrightarrow> (\<exists>a s. m = Ok a s \<and> f a s = Ok b t)"
  by (cases m) auto

lemma bind_if [simp]: "bind (if c then m else n) f = (if c then bind m f else bind n f)"
  by simp

lemma bind_cong [fundef_cong]:
  assumes "m = n" and "\<And>a s. n = Ok a s \<Longrightarrow> f a s = g a s"
  shows "bind m f = bind n g"
  using assms by (cases n) auto

subsection \<open>Loops\<close>

text \<open>
  \<open>scan\<close> is a loop that may return early: the body answers \<open>None\<close> to go on with the
  next index and \<open>Some r\<close> to leave the loop with \<open>r\<close>. \<open>foreach\<close> runs to the end.
\<close>

fun scan :: "'i list \<Rightarrow> ('i \<Rightarrow> 's \<Rightarrow> ('r option, 's) outcome) \<Rightarrow> 's \<Rightarrow> ('r option, 's) outcome" where
  "scan [] body s = Ok None s"
| "scan (i # is) body s =
     bind (body i s) (\<lambda>r s. case r of None \<Rightarrow> scan is body s | Some x \<Rightarrow> Ok (Some x) s)"

fun foreach :: "'i list \<Rightarrow> ('i \<Rightarrow> 's \<Rightarrow> (unit, 's) outcome) \<Rightarrow> 's \<Rightarrow> (unit, 's) outcome" where
  "foreach [] body s = Ok () s"
| "foreach (i # is) body s = bind (body i s) (\<lambda>_ s. foreach is body s)"

text \<open>A search loop whose body only looks until it finds the first index it wants.\<close>

lemma scan_first:
  assumes "\<And>i. i \<in> set is \<Longrightarrow> \<not> P i \<Longrightarrow> body i s = Ok None s"
    and "\<And>i. i \<in> set is \<Longrightarrow> P i \<Longrightarrow> body i s = bind (act i s) (\<lambda>x s. Ok (Some x) s)"
  shows "scan is body s =
    (case find P is of None \<Rightarrow> Ok None s | Some i \<Rightarrow> bind (act i s) (\<lambda>x s. Ok (Some x) s))"
  using assms
proof (induction "is")
  case Nil
  then show ?case by simp
next
  case (Cons i "is")
  then show ?case by (cases "P i"; cases "act i s") auto
qed

lemma foreach_append:
  "foreach (xs @ ys) body s = bind (foreach xs body s) (\<lambda>_ s. foreach ys body s)"
  by (induction xs arbitrary: s) (auto simp: bind_assoc intro!: bind_cong)

text \<open>A loop whose body always succeeds is a fold of its state transformer.\<close>

lemma foreach_fold:
  assumes "\<And>i s. i \<in> set xs \<Longrightarrow> body i s = Ok () (step i s)"
  shows "foreach xs body s = Ok () (fold step xs s)"
  using assms by (induction xs arbitrary: s) auto

lemma find_upt_Some:
  "find P [a..<b] = Some i \<longleftrightarrow> a \<le> i \<and> i < b \<and> P i \<and> (\<forall>j. a \<le> j \<and> j < i \<longrightarrow> \<not> P j)"
proof -
  have "find P [a..<b] = Some i \<longleftrightarrow>
      (\<exists>k < b - a. P (a + k) \<and> i = a + k \<and> (\<forall>j<k. \<not> P (a + j)))"
    by (auto simp: find_Some_iff)
  also have "\<dots> \<longleftrightarrow> a \<le> i \<and> i < b \<and> P i \<and> (\<forall>j. a \<le> j \<and> j < i \<longrightarrow> \<not> P j)"
  proof
    assume "\<exists>k < b - a. P (a + k) \<and> i = a + k \<and> (\<forall>j<k. \<not> P (a + j))"
    then obtain k where k: "k < b - a" "P (a + k)" "i = a + k" "\<forall>j<k. \<not> P (a + j)"
      by blast
    have "\<not> P j" if "a \<le> j" "j < i" for j
      using k(4)[rule_format, of "j - a"] that k(3) by simp
    then show "a \<le> i \<and> i < b \<and> P i \<and> (\<forall>j. a \<le> j \<and> j < i \<longrightarrow> \<not> P j)"
      using k by auto
  next
    assume "a \<le> i \<and> i < b \<and> P i \<and> (\<forall>j. a \<le> j \<and> j < i \<longrightarrow> \<not> P j)"
    then show "\<exists>k < b - a. P (a + k) \<and> i = a + k \<and> (\<forall>j<k. \<not> P (a + j))"
      by (intro exI[of _ "i - a"]) auto
  qed
  finally show ?thesis .
qed

lemma find_upt_None:
  "find P [a..<b] = None \<longleftrightarrow> (\<forall>i. a \<le> i \<and> i < b \<longrightarrow> \<not> P i)"
  by (auto simp: find_None_iff)

subsection \<open>Postconditions of results\<close>

text \<open>
  \<open>keeps m Q B\<close>: \<open>m\<close> neither panics nor faults; if it returns, \<open>Q\<close> holds of the value
  and state; if it blocks, \<open>B\<close> holds of the state it blocks in. \<open>on_ok m Q\<close> is the weaker
  statement about returning executions only, for invariants that panics do not break.
\<close>

fun keeps :: "('a, 's) outcome \<Rightarrow> ('a \<Rightarrow> 's \<Rightarrow> bool) \<Rightarrow> ('s \<Rightarrow> bool) \<Rightarrow> bool" where
  "keeps (Ok r s) Q B = Q r s"
| "keeps (Block s) Q B = B s"
| "keeps (Panic m) Q B = False"
| "keeps Fault Q B = False"

fun on_ok :: "('a, 's) outcome \<Rightarrow> ('a \<Rightarrow> 's \<Rightarrow> bool) \<Rightarrow> bool" where
  "on_ok (Ok r s) Q = Q r s"
| "on_ok _ Q = True"

named_theorems kstep \<open>rules that push a postcondition through kernel code\<close>

lemma keeps_bind [kstep]:
  "keeps m (\<lambda>a s. keeps (f a s) Q B) B \<Longrightarrow> keeps (bind m f) Q B"
  by (cases m) auto

lemma keeps_bindI:
  "\<lbrakk>keeps m R B; \<And>a s. R a s \<Longrightarrow> keeps (f a s) Q B\<rbrakk> \<Longrightarrow> keeps (bind m f) Q B"
  by (cases m) auto

lemma keeps_conseq:
  "\<lbrakk>keeps m Q B; \<And>a s. Q a s \<Longrightarrow> Q' a s; \<And>s. B s \<Longrightarrow> B' s\<rbrakk> \<Longrightarrow> keeps m Q' B'"
  by (cases m) auto

lemma on_ok_bindI:
  "\<lbrakk>on_ok m R; \<And>a s. R a s \<Longrightarrow> on_ok (f a s) Q\<rbrakk> \<Longrightarrow> on_ok (bind m f) Q"
  by (cases m) auto

lemma on_ok_conseq: "\<lbrakk>on_ok m Q; \<And>a s. Q a s \<Longrightarrow> Q' a s\<rbrakk> \<Longrightarrow> on_ok m Q'"
  by (cases m) auto

lemma on_ok_iff: "on_ok m Q \<longleftrightarrow> (\<forall>r s. m = Ok r s \<longrightarrow> Q r s)"
  by (cases m) auto

lemma keeps_foreach:
  assumes "I s" and "\<And>i s. i \<in> set xs \<Longrightarrow> I s \<Longrightarrow> keeps (body i s) (\<lambda>_. I) B"
  shows "keeps (foreach xs body s) (\<lambda>_. I) B"
  using assms by (induction xs arbitrary: s) (auto intro: keeps_bindI)

lemma on_ok_foreach:
  assumes "I s" and "\<And>i s. i \<in> set xs \<Longrightarrow> I s \<Longrightarrow> on_ok (body i s) (\<lambda>_. I)"
  shows "on_ok (foreach xs body s) (\<lambda>_. I)"
  using assms by (induction xs arbitrary: s) (auto intro: on_ok_bindI)

lemma keeps_scan:
  assumes "I s"
    and "\<And>i s. i \<in> set xs \<Longrightarrow> I s \<Longrightarrow>
      keeps (body i s) (\<lambda>r t. case r of None \<Rightarrow> I t | Some x \<Rightarrow> Q (Some x) t) B"
    and "\<And>s. I s \<Longrightarrow> Q None s"
  shows "keeps (scan xs body s) Q B"
  using assms
proof (induction xs arbitrary: s)
  case Nil
  then show ?case by simp
next
  case (Cons i xs)
  show ?case
    unfolding scan.simps
  proof (rule keeps_bindI)
    show "keeps (body i s) (\<lambda>r t. case r of None \<Rightarrow> I t | Some x \<Rightarrow> Q (Some x) t) B"
      using Cons.prems by simp
    show "keeps (case r of None \<Rightarrow> scan xs body t | Some x \<Rightarrow> Ok (Some x) t) Q B"
      if "case r of None \<Rightarrow> I t | Some x \<Rightarrow> Q (Some x) t" for r t
      using that Cons.IH[of t] Cons.prems by (cases r) auto
  qed
qed

section \<open>Lists and functions\<close>

lemma map_upt_eqI:
  "(\<And>i. i < n \<Longrightarrow> f i = g i) \<Longrightarrow> map f [0..<n] = map g [0..<n]"
  by simp

end
