(* ===== verification/Machine.thy ===== *)
theory Machine
  imports Prelude
begin

text \<open>
  The machine the kernel runs on, as the sources see it: fixed-width integers
  (\<^verbatim>\<open>types.h\<close>), byte-addressed physical memory, the constants and address macros of
  \<^verbatim>\<open>riscv.h\<close>, \<^verbatim>\<open>memlayout.h\<close> and \<^verbatim>\<open>param.h\<close>, and the base of the kernel state. The kernel's
  page table maps RAM at its physical address, so kernel pointers into RAM are
  physical addresses here. Later theories extend the state record with their
  component's fields.
\<close>

section \<open>Integers and constants\<close>

type_synonym u8 = "8 word"
type_synonym u16 = "16 word"
type_synonym u32 = "32 word"
type_synonym u64 = "64 word"
type_synonym addr = u64

abbreviation (input) NPROC :: nat where "NPROC \<equiv> 64"
abbreviation (input) NOFILE :: nat where "NOFILE \<equiv> 16"
abbreviation (input) NFILE :: nat where "NFILE \<equiv> 100"
abbreviation (input) NINODE :: nat where "NINODE \<equiv> 50"
abbreviation (input) NLOCK :: nat where "NLOCK \<equiv> 16"
abbreviation (input) NSHM :: nat where "NSHM \<equiv> 16"
abbreviation (input) SHM_MAXPAGES :: nat where "SHM_MAXPAGES \<equiv> 4"
abbreviation (input) MAXARG :: nat where "MAXARG \<equiv> 32"
abbreviation (input) MAXOPBLOCKS :: nat where "MAXOPBLOCKS \<equiv> 10"
abbreviation (input) LOGBLOCKS :: nat where "LOGBLOCKS \<equiv> 30"
abbreviation (input) NBUF :: nat where "NBUF \<equiv> 30"
abbreviation (input) MAXPATH :: nat where "MAXPATH \<equiv> 128"

abbreviation (input) PGSIZE :: u64 where "PGSIZE \<equiv> 4096"
abbreviation (input) KERNBASE :: u64 where "KERNBASE \<equiv> 0x80000000"
abbreviation (input) PHYSTOP :: u64 where "PHYSTOP \<equiv> 0x88000000"
abbreviation (input) MAXVA :: u64 where "MAXVA \<equiv> 0x4000000000"
abbreviation (input) TRAMPOLINE :: u64 where "TRAMPOLINE \<equiv> 0x3FFFFFF000"
abbreviation (input) TRAPFRAME :: u64 where "TRAPFRAME \<equiv> 0x3FFFFFE000"

definition KSTACK :: "nat \<Rightarrow> addr" where
  "KSTACK p = TRAMPOLINE - (of_nat p + 1) * 2 * PGSIZE"

definition PGROUNDUP :: "u64 \<Rightarrow> u64" where
  "PGROUNDUP sz = (sz + PGSIZE - 1) AND NOT (PGSIZE - 1)"

definition PGROUNDDOWN :: "u64 \<Rightarrow> u64" where
  "PGROUNDDOWN a = a AND NOT (PGSIZE - 1)"

abbreviation (input) PTE_V :: u64 where "PTE_V \<equiv> 1"
abbreviation (input) PTE_R :: u64 where "PTE_R \<equiv> 2"
abbreviation (input) PTE_W :: u64 where "PTE_W \<equiv> 4"
abbreviation (input) PTE_X :: u64 where "PTE_X \<equiv> 8"
abbreviation (input) PTE_U :: u64 where "PTE_U \<equiv> 16"

definition PA2PTE :: "u64 \<Rightarrow> u64" where
  "PA2PTE pa = push_bit 10 (drop_bit 12 pa)"

definition PTE2PA :: "u64 \<Rightarrow> u64" where
  "PTE2PA pte = push_bit 12 (drop_bit 10 pte)"

definition PTE_FLAGS :: "u64 \<Rightarrow> u64" where
  "PTE_FLAGS pte = pte AND 0x3FF"

definition PX :: "nat \<Rightarrow> u64 \<Rightarrow> u64" where
  "PX level va = drop_bit (12 + 9 * level) va AND 0x1FF"

definition MAKE_SATP :: "addr \<Rightarrow> u64" where
  "MAKE_SATP pagetable = push_bit 60 8 OR drop_bit 12 pagetable"

section \<open>Physical memory\<close>

type_synonym memory = "addr \<Rightarrow> u8"

definition read_bytes :: "memory \<Rightarrow> addr \<Rightarrow> nat \<Rightarrow> u8 list" where
  "read_bytes m a n = map (\<lambda>i. m (a + of_nat i)) [0..<n]"

definition write_bytes :: "memory \<Rightarrow> addr \<Rightarrow> u8 list \<Rightarrow> memory" where
  "write_bytes m a bs = (\<lambda>x.
     if unat a \<le> unat x \<and> unat x < unat a + length bs then bs ! (unat x - unat a) else m x)"

definition fill_bytes :: "memory \<Rightarrow> addr \<Rightarrow> u8 \<Rightarrow> nat \<Rightarrow> memory" where
  "fill_bytes m a c n = (\<lambda>x. if unat a \<le> unat x \<and> unat x < unat a + n then c else m x)"

text \<open>Little-endian values of any width.\<close>

primrec le_bytes :: "nat \<Rightarrow> 'w::len word \<Rightarrow> u8 list" where
  "le_bytes 0 v = []"
| "le_bytes (Suc n) v = ucast v # le_bytes n (drop_bit 8 v)"

primrec le_val :: "u8 list \<Rightarrow> 'w::len word" where
  "le_val [] = 0"
| "le_val (b # bs) = ucast b OR push_bit 8 (le_val bs)"

definition load64 :: "memory \<Rightarrow> addr \<Rightarrow> u64" where
  "load64 m a = le_val (read_bytes m a 8)"

definition store64 :: "memory \<Rightarrow> addr \<Rightarrow> u64 \<Rightarrow> memory" where
  "store64 m a v = write_bytes m a (le_bytes 8 v)"

section \<open>The base state\<close>

text \<open>
  Every spinlock of the kernel has a name. A routine sees the locks its own hart
  holds: \<open>held\<close> (the theory \<open>Spinlock\<close> refines this view to the lock words, the
  per-hart nesting count and the interrupt flag).
\<close>

datatype lockid =
    L_kmem | L_pid | L_wait | L_proc nat | L_ticks | L_userlock nat | L_shmseg nat
  | L_attach | L_pipe addr | L_cons | L_tx | L_bcache | L_log | L_itable | L_ftable
  | L_sleep nat | L_vdisk | L_pr

record mach =
  mem :: memory
  held :: "lockid set"
  kend :: addr            \<comment> \<open>\<^verbatim>\<open>end\<close>, set by the linker\<close>
  trampoline_pa :: addr   \<comment> \<open>\<^verbatim>\<open>trampoline\<close>, set by the linker\<close>

definition acquire :: "lockid \<Rightarrow> 'z mach_scheme \<Rightarrow> (unit, 'z mach_scheme) outcome" where
  "acquire l s =
     (if l \<in> held s then Panic ''acquire'' else Ok () (s\<lparr>held := insert l (held s)\<rparr>))"

definition release :: "lockid \<Rightarrow> 'z mach_scheme \<Rightarrow> (unit, 'z mach_scheme) outcome" where
  "release l s =
     (if l \<notin> held s then Panic ''release'' else Ok () (s\<lparr>held := held s - {l}\<rparr>))"

lemma acquire_free [simp]: "l \<notin> held s \<Longrightarrow> acquire l s = Ok () (s\<lparr>held := insert l (held s)\<rparr>)"
  by (simp add: acquire_def)

lemma release_held [simp]: "l \<in> held s \<Longrightarrow> release l s = Ok () (s\<lparr>held := held s - {l}\<rparr>)"
  by (simp add: release_def)

section \<open>Lemmas on memory\<close>

lemma length_read_bytes [simp]: "length (read_bytes m a n) = n"
  by (simp add: read_bytes_def)

lemma length_le_bytes [simp]: "length (le_bytes n v) = n"
  by (induction n arbitrary: v) auto

lemma unat_plus_of_nat:
  assumes "unat (a :: addr) + i < 2 ^ 64"
  shows "unat (a + of_nat i) = unat a + i"
proof -
  have "i < 2 ^ 64" using assms by simp
  then have "unat (of_nat i :: addr) = i" by (simp add: unsigned_of_nat take_bit_nat_eq_self)
  then show ?thesis using assms by (simp add: unat_word_ariths)
qed

lemma read_write_same:
  assumes "unat a + length bs \<le> 2 ^ 64"
  shows "read_bytes (write_bytes m a bs) a (length bs) = bs"
  using assms
  by (intro nth_equalityI) (auto simp: read_bytes_def write_bytes_def unat_plus_of_nat)

lemma read_write_disjoint:
  assumes "unat a + n \<le> 2 ^ 64"
    and "unat a + n \<le> unat b \<or> unat b + length bs \<le> unat a"
  shows "read_bytes (write_bytes m b bs) a n = read_bytes m a n"
  using assms by (auto simp: read_bytes_def write_bytes_def unat_plus_of_nat)

lemma read_fill_disjoint:
  assumes "unat a + n \<le> 2 ^ 64" and "unat a + n \<le> unat b \<or> unat b + k \<le> unat a"
  shows "read_bytes (fill_bytes m b c k) a n = read_bytes m a n"
  using assms by (auto simp: read_bytes_def fill_bytes_def unat_plus_of_nat)

lemma read_fill_inside:
  assumes "unat b + k \<le> 2 ^ 64" and "unat b \<le> unat a" and "unat a + n \<le> unat b + k"
  shows "read_bytes (fill_bytes m b c k) a n = replicate n c"
  using assms
  by (intro nth_equalityI) (auto simp: read_bytes_def fill_bytes_def unat_plus_of_nat)

lemma le_val_le_bytes: "le_val (le_bytes n v) = take_bit (8 * n) v"
proof (induction n arbitrary: v)
  case 0
  then show ?case by simp
next
  case (Suc n)
  show ?case
    by (rule bit_word_eqI)
      (auto simp: Suc bit_simps bit_take_bit_iff bit_push_bit_iff bit_or_iff bit_unsigned_iff
        bit_drop_bit_eq not_less possible_bit_word)
qed

lemma load_store_same [simp]:
  assumes "unat a + 8 \<le> 2 ^ 64"
  shows "load64 (store64 m a v) a = v"
  using read_write_same[of a "le_bytes 8 v" m] assms
  by (simp add: load64_def store64_def le_val_le_bytes take_bit_word_eq_self)

lemma load_store_disjoint:
  assumes "unat a + 8 \<le> 2 ^ 64" and "unat a + 8 \<le> unat b \<or> unat b + 8 \<le> unat a"
  shows "load64 (store64 m b v) a = load64 m a"
  using read_write_disjoint[of a 8 b "le_bytes 8 v" m] assms
  by (simp add: load64_def store64_def)

lemma load_fill_disjoint:
  assumes "unat a + 8 \<le> 2 ^ 64" and "unat a + 8 \<le> unat b \<or> unat b + k \<le> unat a"
  shows "load64 (fill_bytes m b c k) a = load64 m a"
  using read_fill_disjoint[of a 8 b k m c] assms by (simp add: load64_def)

lemma load_fill_zero:
  assumes "unat b + k \<le> 2 ^ 64" and "unat b \<le> unat a" and "unat a + 8 \<le> unat b + k"
  shows "load64 (fill_bytes m b 0 k) a = 0"
  using read_fill_inside[OF assms, of m 0] by (simp add: load64_def numeral_eq_Suc)

section \<open>Signed values\<close>

lemma of_int_sint64: "(of_int (sint (x::u64)) :: u64) = x" by simp

lemma uint_of_int64: "uint (of_int k :: u64) = take_bit 64 k" by (simp add: unsigned_of_int)

lemma uint_sint_nonneg: "0 \<le> sint (x::u64) \<Longrightarrow> uint x = sint x"
proof -
  assume "0 \<le> sint x"
  then have "take_bit 64 (sint x) = sint x" using sint_lt[of x] by (simp add: take_bit_int_eq_self)
  then show ?thesis using uint_of_int64[of "sint x"] unfolding of_int_sint64 by (rule trans[rotated])
qed

lemma uint_minus_sint: "sint (x::u64) < 0 \<Longrightarrow> uint (-x) = - sint x"
proof -
  assume n: "sint x < 0"
  have m: "of_int (- sint x) = -x" by simp
  have "uint (-x) = take_bit 64 (- sint x)" using uint_of_int64[of "- sint x"] unfolding m .
  also have "\<dots> = - sint x" using n sint_ge[of x] by (simp add: take_bit_int_eq_self)
  finally show ?thesis .
qed

section \<open>Lemmas on pages\<close>

text \<open>A page is named by its first address.\<close>

definition page_aligned :: "addr \<Rightarrow> bool" where
  "page_aligned p \<longleftrightarrow> 4096 dvd unat p"

definition in_page :: "addr \<Rightarrow> addr \<Rightarrow> bool" where
  "in_page p x \<longleftrightarrow> unat p \<le> unat x \<and> unat x < unat p + 4096"

lemma page_aligned_0 [simp]: "page_aligned 0"
  by (simp add: page_aligned_def)

lemma page_aligned_iff: "page_aligned p \<longleftrightarrow> p mod 4096 = 0"
proof -
  have "unat (p mod 4096) = unat p mod 4096"
    by (simp add: unat_mod)
  then show ?thesis
    by (metis page_aligned_def dvd_eq_mod_eq_0 unat_eq_zero)
qed

lemma page_end:
  assumes "page_aligned p"
  shows "unat p + 4096 \<le> 2 ^ 64"
proof -
  obtain k where k: "unat p = 4096 * k"
    using assms by (auto simp: page_aligned_def)
  have "unat p < 2 ^ 64" using unsigned_less[of p] by simp
  then have "k < 2 ^ 52" using k by simp
  then show ?thesis using k by simp
qed

lemma pages_apart:
  assumes "page_aligned p" "page_aligned q" "p \<noteq> q"
  shows "unat p + 4096 \<le> unat q \<or> unat q + 4096 \<le> unat p"
proof -
  obtain j k where jk: "unat p = 4096 * j" "unat q = 4096 * k"
    using assms(1,2) unfolding page_aligned_def by (elim dvdE)
  have "unat p \<noteq> unat q" using assms(3) by (simp add: word_unat_eq_iff)
  then have "j < k \<or> k < j" using jk by auto
  then show ?thesis using jk by auto
qed

lemma mask12: "(4095 :: u64) = mask 12"
  by (simp add: mask_eq_exp_minus_1)

lemma unat_PGROUNDDOWN: "unat (PGROUNDDOWN a) = unat a div 4096 * 4096"
proof -
  have "PGROUNDDOWN a = push_bit 12 (drop_bit 12 a)"
    unfolding PGROUNDDOWN_def
    by (rule bit_word_eqI) (auto simp: mask12 bit_simps)
  then have "PGROUNDDOWN a = a - take_bit 12 a"
    by (metis bits_ident add_diff_cancel_right')
  moreover have "unat (take_bit 12 a) = unat a mod 4096"
    by (simp add: unsigned_take_bit_eq take_bit_nat_def)
  moreover have "take_bit 12 a \<le> a"
    by (metis \<open>unat (take_bit 12 a) = unat a mod 4096\<close> mod_less_eq_dividend word_le_nat_alt)
  ultimately have "unat (PGROUNDDOWN a) = unat a - unat a mod 4096"
    by (simp add: unat_sub)
  then show ?thesis by (simp add: minus_mod_eq_div_mult)
qed

lemma page_aligned_PGROUNDDOWN [simp]: "page_aligned (PGROUNDDOWN a)"
  by (simp add: page_aligned_def unat_PGROUNDDOWN)

lemma PGROUNDUP_eq: "PGROUNDUP a = PGROUNDDOWN (a + 4095)"
  by (simp add: PGROUNDUP_def PGROUNDDOWN_def algebra_simps)

lemma page_aligned_PGROUNDUP [simp]: "page_aligned (PGROUNDUP a)"
  by (simp add: PGROUNDUP_eq)

lemma unat_PGROUNDUP:
  assumes "unat a + 4095 < 2 ^ 64"
  shows "unat (PGROUNDUP a) = (unat a + 4095) div 4096 * 4096"
proof -
  have "unat (a + 4095) = unat a + 4095"
    using unat_plus_of_nat[of a 4095] assms by simp
  then show ?thesis by (simp add: PGROUNDUP_eq unat_PGROUNDDOWN)
qed

lemma PGROUNDDOWN_aligned: "page_aligned a \<Longrightarrow> PGROUNDDOWN a = a"
  by (metis page_aligned_def unat_PGROUNDDOWN dvd_div_mult_self word_unat_eq_iff)

end
