(* ===== verification/Cstring.thy ===== *)
theory Cstring
  imports Machine
begin

text \<open>
  \<^verbatim>\<open>kernel/string.c\<close>: the byte loops of the C source over physical memory, and the
  closed forms that the rest of the development computes with. A counter of
  type \<^verbatim>\<open>uint\<close> that only counts down is a natural number here.
\<close>

section \<open>The loops of the source\<close>

definition memset :: "memory \<Rightarrow> addr \<Rightarrow> u8 \<Rightarrow> nat \<Rightarrow> memory" where
  "memset m dst c n = fold (\<lambda>i m. m(dst + of_nat i := c)) [0..<n] m"

fun memcmp :: "memory \<Rightarrow> addr \<Rightarrow> addr \<Rightarrow> nat \<Rightarrow> int" where
  "memcmp m s1 s2 0 = 0"
| "memcmp m s1 s2 (Suc n) =
     (if m s1 \<noteq> m s2 then uint (m s1) - uint (m s2) else memcmp m (s1 + 1) (s2 + 1) n)"

fun copy_forward :: "memory \<Rightarrow> addr \<Rightarrow> addr \<Rightarrow> nat \<Rightarrow> memory" where
  "copy_forward m d s 0 = m"
| "copy_forward m d s (Suc n) = copy_forward (m(d := m s)) (d + 1) (s + 1) n"

fun copy_backward :: "memory \<Rightarrow> addr \<Rightarrow> addr \<Rightarrow> nat \<Rightarrow> memory" where
  "copy_backward m d s 0 = m"
| "copy_backward m d s (Suc n) = copy_backward (m(d - 1 := m (s - 1))) (d - 1) (s - 1) n"

definition memmove :: "memory \<Rightarrow> addr \<Rightarrow> addr \<Rightarrow> nat \<Rightarrow> memory" where
  "memmove m dst src n =
     (if n = 0 then m
      else if src < dst \<and> src + of_nat n > dst
      then copy_backward m (dst + of_nat n) (src + of_nat n) n
      else copy_forward m dst src n)"

definition memcpy :: "memory \<Rightarrow> addr \<Rightarrow> addr \<Rightarrow> nat \<Rightarrow> memory" where
  "memcpy m dst src n = memmove m dst src n"

fun strncmp :: "memory \<Rightarrow> addr \<Rightarrow> addr \<Rightarrow> nat \<Rightarrow> int" where
  "strncmp m p q 0 = 0"
| "strncmp m p q (Suc n) =
     (if m p \<noteq> 0 \<and> m p = m q then strncmp m (p + 1) (q + 1) n
      else uint (m p) - uint (m q))"

fun zero_rest :: "memory \<Rightarrow> addr \<Rightarrow> nat \<Rightarrow> memory" where
  "zero_rest m s 0 = m"
| "zero_rest m s (Suc n) = zero_rest (m(s := 0)) (s + 1) n"

fun strncpy :: "memory \<Rightarrow> addr \<Rightarrow> addr \<Rightarrow> nat \<Rightarrow> memory" where
  "strncpy m s t 0 = m"
| "strncpy m s t (Suc n) =
     (let c = m t; m = m(s := c)
      in if c \<noteq> 0 then strncpy m (s + 1) (t + 1) n else zero_rest m (s + 1) n)"

text \<open>The loop of \<^verbatim>\<open>safestrcpy\<close>; its counter has already been decremented once.\<close>

fun safestrcpy_loop :: "memory \<Rightarrow> addr \<Rightarrow> addr \<Rightarrow> nat \<Rightarrow> memory" where
  "safestrcpy_loop m s t 0 = m(s := 0)"
| "safestrcpy_loop m s t (Suc n) =
     (let c = m t; m = m(s := c)
      in if c \<noteq> 0 then safestrcpy_loop m (s + 1) (t + 1) n else m(s + 1 := 0))"

definition safestrcpy :: "memory \<Rightarrow> addr \<Rightarrow> addr \<Rightarrow> int \<Rightarrow> memory" where
  "safestrcpy m s t n = (if n \<le> 0 then m else safestrcpy_loop m s t (nat (n - 1)))"

text \<open>\<^verbatim>\<open>strlen\<close> runs until it sees a NUL byte, which may be never.\<close>

partial_function (option) strlen_from :: "memory \<Rightarrow> addr \<Rightarrow> nat \<Rightarrow> nat option" where
  "strlen_from m s n = (if m (s + of_nat n) = 0 then Some n else strlen_from m s (Suc n))"

definition strlen :: "memory \<Rightarrow> addr \<Rightarrow> nat option" where
  "strlen m s = strlen_from m s 0"

section \<open>Closed forms\<close>

lemma unat_Suc: "Suc (unat (a :: addr)) < 2 ^ 64 \<Longrightarrow> unat (a + 1) = Suc (unat a)"
  using unat_plus_of_nat[of a 1] by simp

lemma unat_less_64: "unat (a :: addr) < 2 ^ 64"
  using unsigned_less[of a] by simp

lemma memset_is_fill:
  assumes "unat dst + n \<le> 2 ^ 64"
  shows "memset m dst c n = fill_bytes m dst c n"
  using assms
proof (induction n)
  case 0
  then show ?case by (auto simp: memset_def fill_bytes_def fun_eq_iff)
next
  case (Suc n)
  have "unat (dst + of_nat n) = unat dst + n"
    using Suc.prems by (intro unat_plus_of_nat) simp
  then have "(fill_bytes m dst c n)(dst + of_nat n := c) = fill_bytes m dst c (Suc n)"
    by (auto simp: fill_bytes_def fun_eq_iff word_unat_eq_iff)
  then show ?case using Suc by (simp add: memset_def)
qed

lemma copy_forward_at:
  assumes "unat d + n \<le> 2 ^ 64" "unat s + n \<le> 2 ^ 64" "d \<le> s \<or> unat s + n \<le> unat d"
  shows "copy_forward m d s n x =
    (if unat d \<le> unat x \<and> unat x < unat d + n then m (s + of_nat (unat x - unat d)) else m x)"
  using assms
proof (induction n arbitrary: m d s)
  case 0
  then show ?case by auto
next
  case (Suc n)
  show ?case
  proof (cases n)
    case 0
    then show ?thesis by (auto simp: word_unat_eq_iff)
  next
    case (Suc k)
    with Suc.prems have d1: "unat (d + 1) = Suc (unat d)" and s1: "unat (s + 1) = Suc (unat s)"
      by (auto intro!: unat_Suc)
    have IH: "copy_forward (m(d := m s)) (d + 1) (s + 1) n x =
      (if unat (d + 1) \<le> unat x \<and> unat x < unat (d + 1) + n
       then (m(d := m s)) (s + 1 + of_nat (unat x - unat (d + 1))) else (m(d := m s)) x)"
      using Suc.prems d1 s1
      by (intro Suc.IH) (auto simp: word_le_nat_alt)
    show ?thesis
    proof (cases "unat d + 1 \<le> unat x \<and> unat x < unat d + Suc n")
      case True
      define i where "i = unat x - unat d - 1"
      have i: "unat x = unat d + 1 + i" "i < n" using True by (auto simp: i_def)
      have "unat (s + 1 + of_nat i) = unat s + 1 + i"
        using unat_plus_of_nat[of "s + 1" i] s1 Suc.prems i by simp
      then have "s + 1 + of_nat i \<noteq> d"
        using Suc.prems(3) i by (auto simp: word_le_nat_alt)
      moreover have "s + 1 + of_nat i = s + of_nat (unat x - unat d)"
        using i(1) by simp
      moreover have "unat x - unat (d + 1) = i" using d1 i(1) by simp
      ultimately have "copy_forward (m(d := m s)) (d + 1) (s + 1) n x
          = m (s + of_nat (unat x - unat d))"
        using IH True d1 by (simp only: if_True fun_upd_other) (simp add: d1)
      then show ?thesis using True by auto
    next
      case False
      then have "unat x = unat d \<or> \<not> (unat d \<le> unat x \<and> unat x < unat d + Suc n)"
        by linarith
      then have "x = d \<or> \<not> (unat d \<le> unat x \<and> unat x < unat d + Suc n)"
        by (metis word_unat_eq_iff)
      then show ?thesis using False IH d1 by auto
    qed
  qed
qed

lemma copy_backward_at:
  assumes "unat d + n \<le> 2 ^ 64" "unat s + n \<le> 2 ^ 64" "unat s \<le> unat d"
  shows "copy_backward m (d + of_nat n) (s + of_nat n) n x =
    (if unat d \<le> unat x \<and> unat x < unat d + n then m (s + of_nat (unat x - unat d)) else m x)"
  using assms
proof (induction n arbitrary: m)
  case 0
  then show ?case by auto
next
  case (Suc n)
  have dn: "unat (d + of_nat n) = unat d + n" and sn: "unat (s + of_nat n) = unat s + n"
    using Suc.prems by (auto intro: unat_plus_of_nat)
  let ?m = "m(d + of_nat n := m (s + of_nat n))"
  have "copy_backward m (d + of_nat (Suc n)) (s + of_nat (Suc n)) (Suc n) x =
      copy_backward ?m (d + of_nat n) (s + of_nat n) n x"
    by (simp add: algebra_simps)
  also have "\<dots> = (if unat d \<le> unat x \<and> unat x < unat d + n
      then ?m (s + of_nat (unat x - unat d)) else ?m x)"
    using Suc by simp
  also have "\<dots> = (if unat d \<le> unat x \<and> unat x < unat d + Suc n
      then m (s + of_nat (unat x - unat d)) else m x)"
  proof (cases "unat d \<le> unat x \<and> unat x < unat d + n")
    case True
    define i where "i = unat x - unat d"
    have i: "i < n" using True by (auto simp: i_def)
    have "unat (s + of_nat i) = unat s + i"
      using Suc.prems i by (intro unat_plus_of_nat) simp
    then have "s + of_nat i \<noteq> d + of_nat n"
      using dn i Suc.prems(3) by (auto simp: word_unat_eq_iff)
    then show ?thesis using True by (simp add: i_def)
  next
    case False
    have "x = d + of_nat n \<longleftrightarrow> unat x = unat d + n"
      using dn by (metis word_unat_eq_iff)
    then show ?thesis using False by auto
  qed
  finally show ?case .
qed

lemma write_read_at:
  "write_bytes m d (read_bytes m s n) x =
    (if unat d \<le> unat x \<and> unat x < unat d + n then m (s + of_nat (unat x - unat d)) else m x)"
  by (auto simp: write_bytes_def read_bytes_def)

text \<open>
  \<^verbatim>\<open>memmove\<close> copies correctly whatever the overlap of source and destination: the
  destination holds what the source held before the call.
\<close>

lemma memmove_copies:
  assumes "unat dst + n \<le> 2 ^ 64" "unat src + n < 2 ^ 64"
  shows "memmove m dst src n = write_bytes m dst (read_bytes m src n)"
proof -
  have sn: "unat (src + of_nat n) = unat src + n"
    using assms by (intro unat_plus_of_nat)
  show ?thesis
    using assms sn
    by (auto simp: memmove_def fun_eq_iff write_read_at copy_forward_at copy_backward_at
        word_less_nat_alt word_le_nat_alt not_less)
qed

section \<open>Strings in memory\<close>

text \<open>\<open>cstr m s bs\<close>: the bytes \<open>bs\<close>, none of them NUL, and then a NUL stand at \<open>s\<close>.\<close>

fun cstr :: "memory \<Rightarrow> addr \<Rightarrow> u8 list \<Rightarrow> bool" where
  "cstr m s [] = (m s = 0)"
| "cstr m s (b # bs) = (m s = b \<and> b \<noteq> 0 \<and> cstr m (s + 1) bs)"

lemma strlen_from_cstr:
  "cstr m (s + of_nat n) bs \<Longrightarrow> strlen_from m s n = Some (n + length bs)"
proof (induction bs arbitrary: n)
  case Nil
  then show ?case by (simp add: strlen_from.simps)
next
  case (Cons b bs)
  have "s + of_nat n + 1 = s + of_nat (Suc n)" by simp
  then have "strlen_from m s (Suc n) = Some (Suc n + length bs)"
    using Cons by (metis cstr.simps(2))
  moreover have "m (s + of_nat n) \<noteq> 0" using Cons.prems by simp
  ultimately show ?case by (subst strlen_from.simps) simp
qed

text \<open>The lexicographic comparison that \<^verbatim>\<open>strncmp\<close> decides.\<close>

fun cmp_bytes :: "u8 list \<Rightarrow> u8 list \<Rightarrow> nat \<Rightarrow> int" where
  "cmp_bytes xs ys 0 = 0"
| "cmp_bytes [] [] (Suc n) = 0"
| "cmp_bytes [] (y # ys) (Suc n) = - uint y"
| "cmp_bytes (x # xs) [] (Suc n) = uint x"
| "cmp_bytes (x # xs) (y # ys) (Suc n) =
     (if x = y then cmp_bytes xs ys n else uint x - uint y)"

lemma strncmp_cmp_bytes:
  "cstr m p xs \<Longrightarrow> cstr m q ys \<Longrightarrow> strncmp m p q n = cmp_bytes xs ys n"
proof (induction xs ys n arbitrary: p q rule: cmp_bytes.induct)
  case (5 x xs y ys n)
  then show ?case by auto
qed auto

lemma cmp_bytes_eq_0:
  assumes "0 \<notin> set xs" "0 \<notin> set ys"
  shows "cmp_bytes xs ys n = 0 \<longleftrightarrow> take n xs = take n ys"
  using assms
  by (induction xs ys n rule: cmp_bytes.induct) (auto simp: uint_0_iff simp flip: word_uint_eq_iff)

lemma cstr_nonzero: "cstr m s bs \<Longrightarrow> 0 \<notin> set bs"
  by (induction bs arbitrary: s) auto

lemma strncmp_eq_0:
  assumes "cstr m p xs" "cstr m q ys"
  shows "strncmp m p q n = 0 \<longleftrightarrow> take n xs = take n ys"
  using assms by (simp add: strncmp_cmp_bytes cmp_bytes_eq_0 cstr_nonzero)

text \<open>The string at \<open>t\<close> with its NUL lies apart from the \<open>n\<close> bytes at \<open>s\<close>.\<close>

definition apart :: "addr \<Rightarrow> nat \<Rightarrow> addr \<Rightarrow> nat \<Rightarrow> bool" where
  "apart t k s n \<longleftrightarrow> (\<forall>i \<le> k. \<forall>j < n. t + of_nat i \<noteq> s + of_nat j)"

lemma apart_Suc: "apart t (Suc k) s (Suc n) \<Longrightarrow> apart (t + 1) k (s + 1) n"
  unfolding apart_def
proof (intro allI impI)
  fix i j
  assume *: "\<forall>i\<le>Suc k. \<forall>j<Suc n. t + of_nat i \<noteq> s + of_nat j" and "i \<le> k" "j < n"
  then have "t + of_nat (Suc i) \<noteq> s + of_nat (Suc j)"
    by (metis Suc_le_mono Suc_mono)
  then show "t + 1 + of_nat i \<noteq> s + 1 + of_nat j" by (simp add: algebra_simps)
qed

lemma cstr_upd:
  "(\<forall>i \<le> length bs. t + of_nat i \<noteq> s) \<Longrightarrow> cstr (m(s := c)) t bs = cstr m t bs"
proof (induction bs arbitrary: t)
  case Nil
  then show ?case by auto
next
  case (Cons b bs)
  have "\<forall>i \<le> length bs. t + 1 + of_nat i \<noteq> s"
  proof (intro allI impI)
    fix i assume "i \<le> length bs"
    then have "t + of_nat (Suc i) \<noteq> s" using Cons.prems by (metis Suc_le_mono length_Cons)
    then show "t + 1 + of_nat i \<noteq> s" by (simp add: algebra_simps)
  qed
  moreover have "t \<noteq> s" using Cons.prems[rule_format, of 0] by simp
  ultimately show ?case using Cons.IH by auto
qed

lemma cstr_upd_apart: "apart t (length bs) s (Suc n) \<Longrightarrow> cstr (m(s := c)) t bs = cstr m t bs"
  by (rule cstr_upd) (force simp: apart_def)

lemma apart_next: "apart t (length (b # bs)) s (Suc n) \<Longrightarrow>
    cstr (m(s := c)) (t + 1) bs = cstr m (t + 1) bs"
proof (rule cstr_upd, intro allI impI)
  fix i assume a: "apart t (length (b # bs)) s (Suc n)" and "i \<le> length bs"
  then have "t + of_nat (Suc i) \<noteq> s + of_nat 0"
    unfolding apart_def by (metis Suc_le_mono length_Cons zero_less_Suc)
  then show "t + 1 + of_nat i \<noteq> s" by (simp add: algebra_simps)
qed

lemma read_bytes_Suc: "read_bytes m s (Suc n) = m s # read_bytes m (s + 1) n"
  by (simp add: read_bytes_def upt_conv_Cons map_Suc_upt[symmetric] algebra_simps
      del: upt_Suc)

lemma word_offset_neq:
  assumes "unat (s :: addr) + n < 2 ^ 64" "0 < i" "i \<le> n"
  shows "s + of_nat i \<noteq> s"
  using unat_plus_of_nat[of s i] assms by auto

text \<open>No byte outside the \<open>n\<close> bytes at \<open>s\<close> changes.\<close>

definition same_outside :: "memory \<Rightarrow> memory \<Rightarrow> addr \<Rightarrow> nat \<Rightarrow> bool" where
  "same_outside m m' s n \<longleftrightarrow> (\<forall>x. (\<forall>i<n. x \<noteq> s + of_nat i) \<longrightarrow> m' x = m x)"

lemma same_outside_step:
  assumes "same_outside (m(s := c)) m' (s + 1) n"
  shows "same_outside m m' s (Suc n)"
  unfolding same_outside_def
proof (intro allI impI)
  fix x assume x: "\<forall>i<Suc n. x \<noteq> s + of_nat i"
  have "x \<noteq> s + 1 + of_nat i" if "i < n" for i
    using x[rule_format, of "Suc i"] that by (simp add: algebra_simps)
  moreover have "x \<noteq> s" using x[rule_format, of 0] by simp
  ultimately show "m' x = m x"
    using assms by (auto simp: same_outside_def)
qed

lemma same_outside_refl [simp]: "same_outside m m s n"
  by (simp add: same_outside_def)

lemma zero_rest_outside: "same_outside m (zero_rest m s n) s n"
proof (induction n arbitrary: m s)
  case (Suc n)
  have "same_outside (m(s := 0)) (zero_rest (m(s := 0)) (s + 1) n) (s + 1) n"
    by (rule Suc)
  from same_outside_step[OF this] show ?case by simp
qed simp

lemma strncpy_outside: "same_outside m (strncpy m s t n) s n"
proof (induction n arbitrary: m s t)
  case (Suc n)
  have "same_outside (m(s := m t)) (strncpy (m(s := m t)) (s + 1) (t + 1) n) (s + 1) n"
    by (rule Suc)
  from same_outside_step[OF this] show ?case
    using same_outside_step[OF zero_rest_outside, of m s] by (simp add: Let_def)
qed simp

lemma safestrcpy_loop_outside: "same_outside m (safestrcpy_loop m s t n) s (Suc n)"
proof (induction n arbitrary: m s t)
  case 0
  show ?case by (auto simp: same_outside_def)
next
  case (Suc n)
  have "same_outside (m(s := 0)) (m(s := 0, s + 1 := 0)) (s + 1) (Suc n)"
    by (auto simp: same_outside_def)
  from same_outside_step[OF this]
  have z: "same_outside m (m(s := 0, s + 1 := 0)) s (Suc (Suc n))" .
  have "same_outside (m(s := m t)) (safestrcpy_loop (m(s := m t)) (s + 1) (t + 1) n)
      (s + 1) (Suc n)"
    by (rule Suc)
  from same_outside_step[OF this] z show ?case by (simp add: Let_def)
qed

lemma first_byte_stays:
  assumes "same_outside m m' (s + 1) n" "unat s + n < 2 ^ 64"
  shows "m' s = m s"
proof -
  have "s \<noteq> s + 1 + of_nat i" if "i < n" for i
    using word_offset_neq[of s n "Suc i"] assms(2) that by (simp add: algebra_simps)
  then show ?thesis using assms(1) by (auto simp: same_outside_def)
qed

lemma read_zero_rest:
  "unat s + n \<le> 2 ^ 64 \<Longrightarrow> read_bytes (zero_rest m s n) s n = replicate n 0"
proof (induction n arbitrary: m s)
  case 0
  then show ?case by (simp add: read_bytes_def)
next
  case (Suc n)
  have "zero_rest (m(s := 0)) (s + 1) n s = 0"
    using first_byte_stays[OF zero_rest_outside, of s n "m(s := 0)"] Suc.prems by simp
  moreover have "read_bytes (zero_rest (m(s := 0)) (s + 1) n) (s + 1) n = replicate n 0"
    using Suc.prems by (cases "n = 0") (auto simp: read_bytes_def[of _ _ 0] unat_Suc intro: Suc.IH)
  ultimately show ?case by (simp add: read_bytes_Suc)
qed

text \<open>\<^verbatim>\<open>strncpy\<close> fills exactly \<open>n\<close> bytes: the string, cut at \<open>n\<close> and padded with NULs.\<close>

lemma strncpy_pads:
  assumes "cstr m t bs" "unat s + n \<le> 2 ^ 64" "apart t (length bs) s n"
  shows "read_bytes (strncpy m s t n) s n = take n (bs @ replicate n 0)"
  using assms
proof (induction n arbitrary: m s t bs)
  case 0
  then show ?case by (simp add: read_bytes_def)
next
  case (Suc n)
  show ?case
  proof (cases bs)
    case Nil
    let ?m = "m(s := 0)"
    have "zero_rest ?m (s + 1) n s = 0"
      using first_byte_stays[OF zero_rest_outside, of s n ?m] Suc.prems by simp
    moreover have "read_bytes (zero_rest ?m (s + 1) n) (s + 1) n = replicate n 0"
      using Suc.prems
      by (cases "n = 0") (auto simp: read_bytes_def[of _ _ 0] unat_Suc intro: read_zero_rest)
    ultimately show ?thesis using Nil Suc.prems by (simp add: read_bytes_Suc)
  next
    case (Cons b bs')
    let ?m = "m(s := b)"
    have "strncpy ?m (s + 1) (t + 1) n s = b"
      using first_byte_stays[OF strncpy_outside, of s n ?m "t + 1"] Suc.prems by simp
    moreover have "read_bytes (strncpy ?m (s + 1) (t + 1) n) (s + 1) n
        = take n (bs' @ replicate n 0)"
    proof (cases "n = 0")
      case True
      then show ?thesis by (simp add: read_bytes_def)
    next
      case False
      then show ?thesis
        using Suc.prems Cons apart_next[of t b bs' s n m b] apart_Suc[of t "length bs'" s n]
        by (intro Suc.IH) (simp_all add: unat_Suc del: fun_upd_apply)
    qed
    moreover have "take (Suc n) (bs @ replicate (Suc n) 0) = b # take n (bs' @ replicate n 0)"
      using Cons by (simp add: take_append flip: replicate_Suc)
    ultimately show ?thesis using Cons Suc.prems by (simp add: read_bytes_Suc)
  qed
qed

text \<open>\<^verbatim>\<open>safestrcpy\<close> leaves a terminated string that is a prefix of its source.\<close>

lemma safestrcpy_loop_cstr:
  assumes "cstr m t bs" "unat s + Suc n \<le> 2 ^ 64" "apart t (length bs) s (Suc n)"
  shows "cstr (safestrcpy_loop m s t n) s (take n bs)"
  using assms
proof (induction n arbitrary: m s t bs)
  case 0
  then show ?case by simp
next
  case (Suc n)
  have s1: "unat (s + 1) = Suc (unat s)" using Suc.prems by (intro unat_Suc) simp
  show ?case
  proof (cases bs)
    case Nil
    have "s + 1 \<noteq> s" using s1 by auto
    then show ?thesis using Nil Suc.prems by simp
  next
    case (Cons b bs')
    let ?m = "m(s := b)"
    have "safestrcpy_loop ?m (s + 1) (t + 1) n s = b"
      using first_byte_stays[OF safestrcpy_loop_outside, of s n ?m "t + 1"] Suc.prems by simp
    moreover have "cstr (safestrcpy_loop ?m (s + 1) (t + 1) n) (s + 1) (take n bs')"
      using Suc.prems Cons apart_next[of t b bs' s "Suc n" m b]
        apart_Suc[of t "length bs'" s "Suc n"] s1
      by (intro Suc.IH) (simp_all del: fun_upd_apply)
    ultimately show ?thesis using Cons Suc.prems by simp
  qed
qed

end
