(* ===== verification/Kalloc.thy ===== *)
theory Kalloc
  imports Cstring
begin

text \<open>
  \<^verbatim>\<open>kernel/kalloc.c\<close>: the physical page allocator. The free list is threaded through
  the free pages themselves: the first eight bytes of a free page hold the address
  of the next one, and \<^verbatim>\<open>kmem.freelist\<close> the address of the first. The lemmas abstract
  that list to a HOL list (\<open>free_list\<close>) and then to the set of free pages, the view
  the locale \<open>page_allocator\<close> gives to the allocator's clients.
\<close>

section \<open>The code\<close>

record kmem = mach +
  freelist :: addr

definition kfree :: "addr \<Rightarrow> 'z kmem_scheme \<Rightarrow> (unit, 'z kmem_scheme) outcome" where
  "kfree pa s =
     (if pa mod PGSIZE \<noteq> 0 \<or> pa < kend s \<or> pa \<ge> PHYSTOP then Panic ''kfree''
      else let s = s\<lparr>mem := memset (mem s) pa 1 4096\<rparr> in
        bind (acquire L_kmem s) (\<lambda>_ s.
        let s = s\<lparr>mem := store64 (mem s) pa (freelist s), freelist := pa\<rparr> in
        release L_kmem s))"

definition kalloc :: "'z kmem_scheme \<Rightarrow> (addr, 'z kmem_scheme) outcome" where
  "kalloc s =
     bind (acquire L_kmem s) (\<lambda>_ s.
     let r = freelist s;
         s = (if r \<noteq> 0 then s\<lparr>freelist := load64 (mem s) r\<rparr> else s)
     in bind (release L_kmem s) (\<lambda>_ s.
        let s = (if r \<noteq> 0 then s\<lparr>mem := memset (mem s) r 5 4096\<rparr> else s)
        in Ok r s))"

text \<open>
  The loop of \<^verbatim>\<open>freerange\<close> compares pointers, which do not wrap around; the comparison
  is made on the addresses as numbers.
\<close>

function freerange_loop :: "addr \<Rightarrow> addr \<Rightarrow> 'z kmem_scheme \<Rightarrow> (unit, 'z kmem_scheme) outcome" where
  "freerange_loop p pa_end s =
     (if unat p + 4096 \<le> unat pa_end
      then bind (kfree p s) (\<lambda>_ s. freerange_loop (p + PGSIZE) pa_end s)
      else Ok () s)"
  by pat_completeness auto
termination
proof (relation "measure (\<lambda>(p, e, s). unat e - unat p)", goal_cases)
  case 1
  then show ?case by simp
next
  case (2 p e s x xa)
  have "unat e < 2 ^ 64" by (rule unat_less_64)
  then have "unat (p + 4096) = unat p + 4096"
    using 2(1) unat_plus_of_nat[of p 4096] by simp
  then show ?case using 2(1) by simp
qed

declare freerange_loop.simps [simp del]

definition freerange :: "addr \<Rightarrow> addr \<Rightarrow> 'z kmem_scheme \<Rightarrow> (unit, 'z kmem_scheme) outcome" where
  "freerange pa_start pa_end s = freerange_loop (PGROUNDUP pa_start) pa_end s"

definition kinit :: "'z kmem_scheme \<Rightarrow> (unit, 'z kmem_scheme) outcome" where
  "kinit s = freerange (kend s) PHYSTOP s"

section \<open>The free list as a list of pages\<close>

fun free_list :: "memory \<Rightarrow> addr \<Rightarrow> addr list \<Rightarrow> bool" where
  "free_list m h [] = (h = 0)"
| "free_list m h (p # ps) = (h = p \<and> p \<noteq> 0 \<and> free_list m (load64 m p) ps)"

definition ram_page :: "addr \<Rightarrow> addr \<Rightarrow> bool" where
  "ram_page e p \<longleftrightarrow> page_aligned p \<and> e \<le> p \<and> p < PHYSTOP"

definition kmem_inv :: "'z kmem_scheme \<Rightarrow> addr list \<Rightarrow> bool" where
  "kmem_inv s ps \<longleftrightarrow>
     free_list (mem s) (freelist s) ps \<and> distinct ps \<and> (\<forall>p \<in> set ps. ram_page (kend s) p)
     \<and> 0 < kend s"

text \<open>Memory changes only inside the page \<open>p\<close>.\<close>

definition only_page :: "addr \<Rightarrow> memory \<Rightarrow> memory \<Rightarrow> bool" where
  "only_page p m m' \<longleftrightarrow> (\<forall>x. \<not> in_page p x \<longrightarrow> m' x = m x)"

lemma ram_page_nonzero: "ram_page e p \<Longrightarrow> 0 < e \<Longrightarrow> p \<noteq> 0"
  by (auto simp: ram_page_def)

lemma ram_page_0 [simp]: "0 < e \<Longrightarrow> \<not> ram_page e 0"
  using ram_page_nonzero by blast

lemma ram_page_aligned [simp]: "ram_page e p \<Longrightarrow> page_aligned p"
  by (simp add: ram_page_def)

lemma memset_page [simp]: "page_aligned p \<Longrightarrow> memset m p c 4096 = fill_bytes m p c 4096"
  using page_end by (rule memset_is_fill)

lemma load64_only_page:
  assumes "only_page p m m'" "page_aligned p" "page_aligned q" "p \<noteq> q"
    and "unat q \<le> unat a" "unat a + 8 \<le> unat q + 4096"
  shows "load64 m' a = load64 m a"
proof -
  have "m' (a + of_nat i) = m (a + of_nat i)" if "i < 8" for i
  proof -
    have "unat (a + of_nat i) = unat a + i"
      using assms(6) page_end[OF assms(3)] that by (intro unat_plus_of_nat) simp
    then have "\<not> in_page p (a + of_nat i)"
      using pages_apart[OF assms(2,3,4)] assms(5,6) that by (auto simp: in_page_def)
    then show ?thesis using assms(1) by (simp add: only_page_def)
  qed
  then have "read_bytes m' a 8 = read_bytes m a 8"
    by (auto simp: read_bytes_def)
  then show ?thesis by (simp add: load64_def)
qed

lemma only_page_fill [intro]: "only_page p m (fill_bytes m p c 4096)"
  by (auto simp: only_page_def fill_bytes_def in_page_def)

lemma only_page_store:
  "unat p \<le> unat a \<Longrightarrow> unat a + 8 \<le> unat p + 4096 \<Longrightarrow> only_page p m (store64 m a v)"
  by (auto simp: only_page_def store64_def write_bytes_def in_page_def)

lemma only_page_trans: "only_page p m m' \<Longrightarrow> only_page p m' m'' \<Longrightarrow> only_page p m m''"
  by (simp add: only_page_def)

lemma free_list_only_page:
  assumes "only_page p m m'" "page_aligned p" "p \<notin> set ps" "\<forall>q \<in> set ps. page_aligned q"
  shows "free_list m' h ps = free_list m h ps"
  using assms(3,4)
proof (induction ps arbitrary: h)
  case (Cons q ps)
  have "load64 m' q = load64 m q"
    using Cons.prems assms(1,2) by (intro load64_only_page[of p m m' q]) auto
  then show ?case using Cons by simp
qed simp

lemma free_list_nonzero: "free_list m h ps \<Longrightarrow> 0 \<notin> set ps"
  by (induction ps arbitrary: h) auto

section \<open>What the operations do\<close>

lemma kfree_eq:
  assumes "ram_page (kend s) p" "L_kmem \<notin> held s"
  shows "kfree p s = Ok () (s\<lparr>mem := store64 (fill_bytes (mem s) p 1 4096) p (freelist s),
    freelist := p\<rparr>)"
  using assms
  by (simp add: kfree_def ram_page_def page_aligned_iff[symmetric] Let_def not_less not_le)

lemma kfree_inv:
  assumes "kmem_inv s ps" "ram_page (kend s) p" "p \<notin> set ps"
  shows "kmem_inv (s\<lparr>mem := store64 (fill_bytes (mem s) p 1 4096) p (freelist s),
    freelist := p\<rparr>) (p # ps)"
proof -
  let ?m = "store64 (fill_bytes (mem s) p 1 4096) p (freelist s)"
  have p: "page_aligned p" using assms(2) by simp
  have "only_page p (mem s) ?m"
    by (rule only_page_trans[OF only_page_fill only_page_store]) auto
  then have "free_list ?m (freelist s) ps"
    using assms p by (subst free_list_only_page) (auto simp: kmem_inv_def)
  moreover have "load64 ?m p = freelist s"
    using page_end[OF p] by simp
  moreover have "p \<noteq> 0" using assms by (auto simp: kmem_inv_def)
  ultimately show ?thesis using assms by (simp add: kmem_inv_def)
qed

lemma kalloc_empty: "kmem_inv s [] \<Longrightarrow> L_kmem \<notin> held s \<Longrightarrow> kalloc s = Ok 0 s"
  by (simp add: kalloc_def kmem_inv_def Let_def)

lemma kalloc_eq:
  assumes "kmem_inv s (p # ps)" "L_kmem \<notin> held s"
  shows "kalloc s = Ok p (s\<lparr>freelist := load64 (mem s) p, mem := fill_bytes (mem s) p 5 4096\<rparr>)"
proof -
  have "page_aligned p" using assms(1) by (auto simp: kmem_inv_def)
  then show ?thesis using assms by (simp add: kalloc_def kmem_inv_def Let_def)
qed

lemma kalloc_inv:
  assumes "kmem_inv s (p # ps)"
  shows "kmem_inv (s\<lparr>freelist := load64 (mem s) p, mem := fill_bytes (mem s) p 5 4096\<rparr>) ps"
proof -
  have "free_list (fill_bytes (mem s) p 5 4096) (load64 (mem s) p) ps"
    using assms by (subst free_list_only_page[OF only_page_fill]) (auto simp: kmem_inv_def)
  then show ?thesis using assms by (simp add: kmem_inv_def)
qed

text \<open>
  The loop of \<^verbatim>\<open>freerange\<close> returns, and puts exactly the whole pages of its range on the
  free list.
\<close>

lemma unat_next_page: "unat (p :: addr) + 4096 \<le> unat (e :: addr) \<Longrightarrow> unat (p + 4096) = unat p + 4096"
  using unat_plus_of_nat[of p 4096] unat_less_64[of e] by simp

lemma freerange_loop_frees:
  assumes "kmem_inv s ps" "page_aligned p" "kend s \<le> p" "e \<le> PHYSTOP" "L_kmem \<notin> held s"
    "\<forall>q \<in> set ps. q < p"
  shows "\<exists>s' qs. freerange_loop p e s = Ok () s' \<and> kmem_inv s' qs \<and> held s' = held s
    \<and> kend s' = kend s
    \<and> set qs = set ps \<union> {q. page_aligned q \<and> p \<le> q \<and> unat q + 4096 \<le> unat e}"
  using assms
proof (induction p e s arbitrary: ps rule: freerange_loop.induct)
  case (1 p e s)
  show ?case
  proof (cases "unat p + 4096 \<le> unat e")
    case False
    have "{q. page_aligned q \<and> p \<le> q \<and> unat q + 4096 \<le> unat e} = {}"
      using False by (auto simp: word_le_nat_alt)
    then show ?thesis using False 1(2) by (subst freerange_loop.simps) auto
  next
    case True
    have np: "unat (p + 4096) = unat p + 4096" by (rule unat_next_page[OF True])
    have ram: "ram_page (kend s) p"
      using 1(3-5) True by (auto simp: ram_page_def word_le_nat_alt word_less_nat_alt)
    let ?s = "s\<lparr>mem := store64 (fill_bytes (mem s) p 1 4096) p (freelist s), freelist := p\<rparr>"
    have k: "kfree p s = Ok () ?s" by (rule kfree_eq[OF ram 1(6)])
    have "p \<notin> set ps" using 1(7) by auto
    then have inv: "kmem_inv ?s (p # ps)" by (rule kfree_inv[OF 1(2) ram])
    have "\<forall>q \<in> set (p # ps). q < p + 4096"
      using 1(7) np by (auto simp: word_less_nat_alt)
    moreover have "page_aligned (p + 4096)"
      using 1(3) np by (simp add: page_aligned_def)
    moreover have "kend ?s \<le> p + 4096" using 1(4) np by (simp add: word_le_nat_alt)
    ultimately obtain s' qs where IH: "freerange_loop (p + 4096) e ?s = Ok () s'"
        "kmem_inv s' qs" "held s' = held ?s" "kend s' = kend ?s"
        "set qs = set (p # ps) \<union> {q. page_aligned q \<and> p + 4096 \<le> q \<and> unat q + 4096 \<le> unat e}"
      using "1.IH"[OF True k inv _ _ 1(5)] 1(6) by auto
    have "{q. page_aligned q \<and> p \<le> q \<and> unat q + 4096 \<le> unat e} =
        insert p {q. page_aligned q \<and> p + 4096 \<le> q \<and> unat q + 4096 \<le> unat e}"
      using 1(3) True np by (auto simp: word_le_nat_alt dest: pages_apart[OF 1(3)])
    then show ?thesis using IH k True by (subst freerange_loop.simps) auto
  qed
qed

lemma aligned_ge_PGROUNDUP:
  assumes "page_aligned q" "unat a + 4095 < 2 ^ 64"
  shows "PGROUNDUP a \<le> q \<longleftrightarrow> a \<le> q"
proof -
  obtain k where k: "unat q = 4096 * k" using assms(1) by (auto simp: page_aligned_def)
  have "(unat a + 4095) div 4096 * 4096 \<le> 4096 * k \<longleftrightarrow> unat a \<le> 4096 * k"
    by auto
  then show ?thesis using k assms(2) by (simp add: word_le_nat_alt unat_PGROUNDUP)
qed

lemma aligned_below_PHYSTOP:
  assumes "page_aligned q"
  shows "unat q + 4096 \<le> unat PHYSTOP \<longleftrightarrow> q < PHYSTOP"
proof -
  obtain k where k: "unat q = 4096 * k" using assms by (auto simp: page_aligned_def)
  then show ?thesis by (auto simp: word_less_nat_alt)
qed

lemma kinit_frees_ram:
  assumes "freelist s = 0" "0 < kend s" "kend s \<le> PHYSTOP" "L_kmem \<notin> held s"
  shows "\<exists>s' ps. kinit s = Ok () s' \<and> kmem_inv s' ps \<and> set ps = {q. ram_page (kend s) q}"
proof -
  have ov: "unat (kend s) + 4095 < 2 ^ 64"
    using assms(3) by (simp add: word_le_nat_alt)
  have "kmem_inv s []" using assms(1,2) by (simp add: kmem_inv_def)
  moreover have "kend s \<le> PGROUNDUP (kend s)"
    using aligned_ge_PGROUNDUP[OF page_aligned_PGROUNDUP ov] by blast
  ultimately obtain s' qs where "freerange_loop (PGROUNDUP (kend s)) PHYSTOP s = Ok () s'"
      "kmem_inv s' qs"
      "set qs = {q. page_aligned q \<and> PGROUNDUP (kend s) \<le> q \<and> unat q + 4096 \<le> unat PHYSTOP}"
    using freerange_loop_frees[of s "[]" "PGROUNDUP (kend s)" PHYSTOP] assms by auto
  moreover have "{q. page_aligned q \<and> PGROUNDUP (kend s) \<le> q \<and> unat q + 4096 \<le> unat PHYSTOP}
      = {q. ram_page (kend s) q}"
    using aligned_ge_PGROUNDUP[OF _ ov] aligned_below_PHYSTOP by (auto simp: ram_page_def)
  ultimately show ?thesis by (auto simp: kinit_def freerange_def)
qed

section \<open>The interface to the allocator's clients\<close>

text \<open>
  \<open>free_set s F\<close> is the allocator's abstract state: the pages in \<open>F\<close> are free and the
  allocator can be called. A call changes memory only inside the page it hands out
  or takes back.
\<close>

locale page_allocator =
  fixes alloc :: "'s \<Rightarrow> (addr, 's) outcome"
    and free :: "addr \<Rightarrow> 's \<Rightarrow> (unit, 's) outcome"
    and free_set :: "'s \<Rightarrow> addr set \<Rightarrow> bool"
    and memory_of :: "'s \<Rightarrow> memory"
    and limit_of :: "'s \<Rightarrow> addr"
    and frame :: "'s \<Rightarrow> 's \<Rightarrow> bool"
  assumes alloc_none: "free_set s {} \<Longrightarrow> alloc s = Ok 0 s"
    and alloc_some: "free_set s F \<Longrightarrow> F \<noteq> {} \<Longrightarrow>
      \<exists>p s'. alloc s = Ok p s' \<and> p \<in> F \<and> free_set s' (F - {p}) \<and> limit_of s' = limit_of s
        \<and> only_page p (memory_of s) (memory_of s') \<and> frame s s'"
    and free_some: "free_set s F \<Longrightarrow> ram_page (limit_of s) p \<Longrightarrow> p \<notin> F \<Longrightarrow>
      \<exists>s'. free p s = Ok () s' \<and> free_set s' (insert p F) \<and> limit_of s' = limit_of s
        \<and> only_page p (memory_of s) (memory_of s') \<and> frame s s'"
    and frame_refl: "frame s s"
    and free_ram: "free_set s F \<Longrightarrow> p \<in> F \<Longrightarrow> ram_page (limit_of s) p \<and> p \<noteq> 0"
begin

lemma alloc_result:
  assumes "free_set s F" "alloc s = Ok p s'"
  shows "(F = {} \<and> p = 0 \<and> s' = s) \<or>
    (p \<in> F \<and> p \<noteq> 0 \<and> ram_page (limit_of s) p \<and> free_set s' (F - {p}))"
proof (cases "F = {}")
  case True
  then show ?thesis using assms alloc_none by auto
next
  case False
  then show ?thesis using assms alloc_some[OF assms(1)] free_ram[OF assms(1)] by auto
qed

lemma alloc_cases:
  assumes "free_set s F"
  obtains (none) "F = {}" "alloc s = Ok 0 s"
    | (some) p s' where "alloc s = Ok p s'" "p \<in> F" "p \<noteq> 0" "ram_page (limit_of s) p"
        "free_set s' (F - {p})" "only_page p (memory_of s) (memory_of s')" "frame s s'"
proof (cases "F = {}")
  case True
  then show ?thesis using none alloc_none assms by simp
next
  case False
  then show ?thesis using some alloc_some[OF assms] free_ram[OF assms] by blast
qed

lemma alloc_never_stuck: "free_set s F \<Longrightarrow> \<exists>p s'. alloc s = Ok p s'"
  using alloc_none alloc_some by (cases "F = {}") blast+

lemma alloc_twice_distinct:
  assumes "free_set s F" "alloc s = Ok p s'" "alloc s' = Ok q s''" "p \<noteq> 0"
  shows "p \<noteq> q"
proof -
  have "p \<in> F" "free_set s' (F - {p})"
    using alloc_result[OF assms(1,2)] assms(4) by auto
  then show ?thesis using alloc_result[OF _ assms(3)] assms(4) by auto
qed

lemma alloc_free_roundtrip:
  assumes "free_set s F" "alloc s = Ok p s'" "p \<noteq> 0"
  shows "\<exists>s''. free p s' = Ok () s'' \<and> free_set s'' F \<and> only_page p (memory_of s) (memory_of s'')"
proof -
  obtain q t where t: "alloc s = Ok q t" "q \<in> F" "free_set t (F - {q})"
      "limit_of t = limit_of s" "only_page q (memory_of s) (memory_of t)"
    using alloc_some[OF assms(1)] alloc_result[OF assms(1,2)] assms(3) by auto
  have pq: "q = p" "t = s'" using t(1) assms(2) by auto
  have "ram_page (limit_of s') p"
    using free_ram[OF assms(1)] t pq by auto
  then obtain s'' where s'': "free p s' = Ok () s''" "free_set s'' (insert p (F - {p}))"
      "only_page p (memory_of s') (memory_of s'')"
    using free_some[of s' "F - {p}" p] t pq by auto
  moreover have "insert p (F - {p}) = F" using t pq by auto
  moreover have "only_page p (memory_of s) (memory_of s'')"
    using t(5) s''(3) pq by (auto intro: only_page_trans)
  ultimately show ?thesis by auto
qed

end

text \<open>What the allocator leaves alone: every field but \<^verbatim>\<open>mem\<close> and \<^verbatim>\<open>freelist\<close>.\<close>

definition kmem_frame :: "'z kmem_scheme \<Rightarrow> 'z kmem_scheme \<Rightarrow> bool" where
  "kmem_frame s s' \<longleftrightarrow> held s' = held s \<and> kend s' = kend s
     \<and> trampoline_pa s' = trampoline_pa s \<and> kmem.more s' = kmem.more s"

lemma kmem_frame_refl [simp]: "kmem_frame s s"
  by (simp add: kmem_frame_def)

lemma kmem_frame_trans: "kmem_frame s t \<Longrightarrow> kmem_frame t u \<Longrightarrow> kmem_frame s u"
  by (simp add: kmem_frame_def)

lemma kmem_frame_upd [simp]: "kmem_frame s (s\<lparr>mem := m\<rparr>) = True"
  "kmem_frame s (t\<lparr>mem := m\<rparr>) = kmem_frame s t"
  "kmem_frame s (t\<lparr>freelist := f\<rparr>) = kmem_frame s t"
  by (auto simp: kmem_frame_def)

lemma kmem_frame_eq: "kmem_frame s s' \<Longrightarrow> s' = s\<lparr>mem := mem s', freelist := freelist s'\<rparr>"
  by (cases s; cases s') (auto simp: kmem_frame_def)

definition kmem_free :: "'z kmem_scheme \<Rightarrow> addr set \<Rightarrow> bool" where
  "kmem_free s F \<longleftrightarrow> L_kmem \<notin> held s \<and> (\<exists>ps. kmem_inv s ps \<and> set ps = F)"

interpretation kmem_alloc: page_allocator kalloc kfree kmem_free mem kend kmem_frame
proof
  fix s :: "'z kmem_scheme"
  assume "kmem_free s {}"
  then show "kalloc s = Ok 0 s"
    by (auto simp: kmem_free_def kalloc_empty)
next
  fix s :: "'z kmem_scheme" and F
  assume "kmem_free s F" "F \<noteq> {}"
  then obtain p ps where ps: "kmem_inv s (p # ps)" "F = insert p (set ps)" "L_kmem \<notin> held s"
    unfolding kmem_free_def by (metis neq_Nil_conv set_empty2 list.simps(15))
  let ?s' = "s\<lparr>freelist := load64 (mem s) p, mem := fill_bytes (mem s) p 5 4096\<rparr>"
  have "kalloc s = Ok p ?s'" by (rule kalloc_eq[OF ps(1,3)])
  moreover have "F - {p} = set ps" using ps(1,2) by (auto simp: kmem_inv_def)
  moreover have "kmem_free ?s' (set ps)"
    using kalloc_inv[OF ps(1)] ps(3) by (auto simp: kmem_free_def)
  ultimately show "\<exists>p s'. kalloc s = Ok p s' \<and> p \<in> F \<and> kmem_free s' (F - {p}) \<and> kend s' = kend s
      \<and> only_page p (mem s) (mem s') \<and> kmem_frame s s'"
    using ps(2) only_page_fill[of p "mem s" 5]
    by (intro exI[of _ p] exI[of _ ?s']) simp
next
  fix s :: "'z kmem_scheme" and F p
  assume a: "kmem_free s F" "ram_page (kend s) p" "p \<notin> F"
  then obtain ps where ps: "kmem_inv s ps" "set ps = F" "L_kmem \<notin> held s"
    unfolding kmem_free_def by auto
  let ?s' = "s\<lparr>mem := store64 (fill_bytes (mem s) p 1 4096) p (freelist s), freelist := p\<rparr>"
  have "kfree p s = Ok () ?s'" by (rule kfree_eq[OF a(2) ps(3)])
  moreover have "kmem_free ?s' (insert p F)"
    using kfree_inv[OF ps(1) a(2)] a(3) ps by (force simp: kmem_free_def)
  moreover have "only_page p (mem s) (mem ?s')"
    using only_page_trans[OF only_page_fill only_page_store[of p p]] by simp
  ultimately show "\<exists>s'. kfree p s = Ok () s' \<and> kmem_free s' (insert p F) \<and> kend s' = kend s
      \<and> only_page p (mem s) (mem s') \<and> kmem_frame s s'"
    by (intro exI[of _ ?s']) simp
next
  fix s :: "'z kmem_scheme"
  show "kmem_frame s s" by simp
next
  fix s :: "'z kmem_scheme" and F p
  assume "kmem_free s F" "p \<in> F"
  then show "ram_page (kend s) p \<and> p \<noteq> 0"
    by (auto simp: kmem_free_def kmem_inv_def)
qed

end
