(* ===== verification/Proctab.thy ===== *)
theory Proctab
  imports Kalloc
begin

text \<open>
  \<^verbatim>\<open>kernel/proc.h\<close>: the process table and the data every process has. The table is a
  function from indices below \<^verbatim>\<open>NPROC\<close>; a \<^verbatim>\<open>struct proc *\<close> is such an index or \<open>None\<close>. The lock of
  entry \<open>i\<close> is \<open>L_proc i\<close>. Trap frames live in pages of their own: \<open>tframes\<close> is the view of
  those pages as structures.
\<close>

section \<open>Saved registers\<close>

datatype context_field =
    ctx_ra | ctx_sp | ctx_s0 | ctx_s1 | ctx_s2 | ctx_s3 | ctx_s4 | ctx_s5 | ctx_s6 | ctx_s7
  | ctx_s8 | ctx_s9 | ctx_s10 | ctx_s11

type_synonym ctxt = "context_field \<Rightarrow> u64"

datatype trapframe_field =
    kernel_satp | kernel_sp | kernel_trap | epc | kernel_hartid
  | tf_ra | tf_sp | tf_gp | tf_tp | tf_t0 | tf_t1 | tf_t2 | tf_s0 | tf_s1
  | tf_a0 | tf_a1 | tf_a2 | tf_a3 | tf_a4 | tf_a5 | tf_a6 | tf_a7
  | tf_s2 | tf_s3 | tf_s4 | tf_s5 | tf_s6 | tf_s7 | tf_s8 | tf_s9 | tf_s10 | tf_s11
  | tf_t3 | tf_t4 | tf_t5 | tf_t6

type_synonym trapframe = "trapframe_field \<Rightarrow> u64"

section \<open>Processes\<close>

datatype procstate = UNUSED | USED | SLEEPING | RUNNABLE | RUNNING | ZOMBIE

text \<open>
  Wait channels are addresses of kernel objects; each object the kernel sleeps on
  has a constructor.
\<close>

datatype chan =
    Ch_ticks | Ch_proc nat | Ch_userlock nat | Ch_nread addr | Ch_nwrite addr | Ch_cons_r
  | Ch_tx | Ch_log | Ch_sleeplock nat | Ch_disk_free | Ch_buf nat

record proc =
  state :: procstate
  chan :: "chan option"
  killed_flag :: int        \<comment> \<open>\<^verbatim>\<open>p->killed\<close>; \<^verbatim>\<open>killed()\<close> is the function\<close>
  xstate :: int
  pid :: int
  parent :: "nat option"
  kstack :: u64
  sz :: u64
  pagetable :: addr
  trapframe :: addr
  ctx :: ctxt
  ofile :: "nat \<Rightarrow> nat option"
  cwd :: "nat option"
  pname :: "u8 list"
  tracemask :: u32
  ctime :: u32
  rtime :: u32
  etime :: u32
  is_thread :: int

text \<open>
  The state of the process layer. \<open>cur\<close> is \<^verbatim>\<open>mycpu()->proc\<close> of the hart that runs the
  code.
\<close>

record kproc = kmem +
  procs :: "nat \<Rightarrow> proc"
  cur :: "nat option"
  nextpid :: int
  initproc :: "nat option"
  ticks :: u32
  tframes :: "addr \<Rightarrow> trapframe"
  kernel_pagetable :: addr
  syscall_count :: "nat \<Rightarrow> int"
  kout :: string          \<comment> \<open>what the kernel has printed\<close>

definition upd_proc :: "nat \<Rightarrow> (proc \<Rightarrow> proc) \<Rightarrow> 'z kproc_scheme \<Rightarrow> 'z kproc_scheme" where
  "upd_proc p f s = s\<lparr>procs := (procs s)(p := f (procs s p))\<rparr>"

text \<open>\<^verbatim>\<open>myproc()\<close>; its callers dereference the result.\<close>

definition myproc :: "'z kproc_scheme \<Rightarrow> (nat, 'z kproc_scheme) outcome" where
  "myproc s = (case cur s of None \<Rightarrow> Fault | Some p \<Rightarrow> Ok p s)"

lemma upd_proc_procs [simp]: "procs (upd_proc p f s) = (procs s)(p := f (procs s p))"
  by (simp add: upd_proc_def)

lemma upd_proc_other [simp]:
  "mem (upd_proc p f s) = mem s" "held (upd_proc p f s) = held s" "kend (upd_proc p f s) = kend s"
  "freelist (upd_proc p f s) = freelist s" "cur (upd_proc p f s) = cur s"
  "nextpid (upd_proc p f s) = nextpid s" "initproc (upd_proc p f s) = initproc s"
  "ticks (upd_proc p f s) = ticks s" "tframes (upd_proc p f s) = tframes s"
  "trampoline_pa (upd_proc p f s) = trampoline_pa s"
  "kernel_pagetable (upd_proc p f s) = kernel_pagetable s"
  "syscall_count (upd_proc p f s) = syscall_count s" "kout (upd_proc p f s) = kout s"
  "kproc.more (upd_proc p f s) = kproc.more s"
  by (simp_all add: upd_proc_def)

lemma myproc_cur [simp]: "cur s = Some p \<Longrightarrow> myproc s = Ok p s"
  by (simp add: myproc_def)

end
