(* ===== verification/Vm.thy ===== *)
theory Vm
  imports Proctab
begin

text \<open>
  \<^verbatim>\<open>kernel/vm.c\<close>: Sv39 page tables, stored in physical memory and walked there, user
  address spaces, and the copies between user and kernel memory. A \<^verbatim>\<open>pte_t *\<close> is the address of
  the entry, 0 when there is none. Kernel buffers the copy routines read or fill are byte lists:
  \<open>copyin\<close> and \<open>copyinstr\<close> return the bytes they stored at \<^verbatim>\<open>dst\<close>, also when they fail halfway.
  Loops that step a virtual address by \<^verbatim>\<open>PGSIZE\<close> carry the number of iterations they can make
  as fuel, and \<open>Fault\<close> if it runs out.
\<close>

section \<open>Walking and mapping\<close>

fun walk_level :: "nat \<Rightarrow> addr \<Rightarrow> u64 \<Rightarrow> bool \<Rightarrow> 'z kmem_scheme \<Rightarrow> (addr, 'z kmem_scheme) outcome" where
  "walk_level 0 pt va alloc s = Ok (pt + 8 * PX 0 va) s"
| "walk_level (Suc level) pt va alloc s =
     (let pte = pt + 8 * PX (Suc level) va in
      if load64 (mem s) pte AND PTE_V \<noteq> 0
      then walk_level level (PTE2PA (load64 (mem s) pte)) va alloc s
      else if \<not> alloc then Ok 0 s
      else bind (kalloc s) (\<lambda>pt' s.
        if pt' = 0 then Ok 0 s
        else let s = s\<lparr>mem := memset (mem s) pt' 0 4096\<rparr>;
                 s = s\<lparr>mem := store64 (mem s) pte (PA2PTE pt' OR PTE_V)\<rparr>
             in walk_level level pt' va alloc s))"

definition walk :: "addr \<Rightarrow> u64 \<Rightarrow> bool \<Rightarrow> 'z kmem_scheme \<Rightarrow> (addr, 'z kmem_scheme) outcome" where
  "walk pt va alloc s = (if va \<ge> MAXVA then Panic ''walk'' else walk_level 2 pt va alloc s)"

definition walkaddr :: "addr \<Rightarrow> u64 \<Rightarrow> 'z kmem_scheme \<Rightarrow> (u64, 'z kmem_scheme) outcome" where
  "walkaddr pt va s =
     (if va \<ge> MAXVA then Ok 0 s
      else bind (walk pt va False s) (\<lambda>pte s.
        if pte = 0 then Ok 0 s
        else if load64 (mem s) pte AND PTE_V = 0 then Ok 0 s
        else if load64 (mem s) pte AND PTE_U = 0 then Ok 0 s
        else Ok (PTE2PA (load64 (mem s) pte)) s))"

fun mappages_loop :: "nat \<Rightarrow> addr \<Rightarrow> u64 \<Rightarrow> u64 \<Rightarrow> u64 \<Rightarrow> u64 \<Rightarrow> 'z kmem_scheme \<Rightarrow>
    (int, 'z kmem_scheme) outcome" where
  "mappages_loop 0 pt a lst pa perm s = Fault"
| "mappages_loop (Suc n) pt a lst pa perm s =
     bind (walk pt a True s) (\<lambda>pte s.
       if pte = 0 then Ok (-1) s
       else if load64 (mem s) pte AND PTE_V \<noteq> 0 then Panic ''mappages: remap''
       else let s = s\<lparr>mem := store64 (mem s) pte (PA2PTE pa OR perm OR PTE_V)\<rparr> in
         if a = lst then Ok 0 s
         else mappages_loop n pt (a + PGSIZE) lst (pa + PGSIZE) perm s)"

definition mappages :: "addr \<Rightarrow> u64 \<Rightarrow> u64 \<Rightarrow> u64 \<Rightarrow> u64 \<Rightarrow> 'z kmem_scheme \<Rightarrow>
    (int, 'z kmem_scheme) outcome" where
  "mappages pt va siz pa perm s =
     (if va mod PGSIZE \<noteq> 0 then Panic ''mappages: va not aligned''
      else if siz mod PGSIZE \<noteq> 0 then Panic ''mappages: size not aligned''
      else if siz = 0 then Panic ''mappages: size''
      else mappages_loop (unat siz div 4096) pt va (va + siz - PGSIZE) pa perm s)"

definition kvmmap :: "addr \<Rightarrow> u64 \<Rightarrow> u64 \<Rightarrow> u64 \<Rightarrow> u64 \<Rightarrow> 'z kmem_scheme \<Rightarrow>
    (unit, 'z kmem_scheme) outcome" where
  "kvmmap kpgtbl va pa siz perm s =
     bind (mappages kpgtbl va siz pa perm s) (\<lambda>r s.
       if r \<noteq> 0 then Panic ''kvmmap'' else Ok () s)"

text \<open>\<^verbatim>\<open>proc_mapstacks\<close> of \<^verbatim>\<open>proc.c\<close>: one page per process, with an unmapped page below it.\<close>

definition proc_mapstacks :: "addr \<Rightarrow> 'z kmem_scheme \<Rightarrow> (unit, 'z kmem_scheme) outcome" where
  "proc_mapstacks kpgtbl = foreach [0..<NPROC] (\<lambda>p s.
     bind (kalloc s) (\<lambda>pa s.
       if pa = 0 then Panic ''kalloc''
       else kvmmap kpgtbl (KSTACK p) pa PGSIZE (PTE_R OR PTE_W) s))"

abbreviation (input) UART0 :: u64 where "UART0 \<equiv> 0x10000000"
abbreviation (input) VIRTIO0 :: u64 where "VIRTIO0 \<equiv> 0x10001000"
abbreviation (input) PLIC :: u64 where "PLIC \<equiv> 0x0c000000"

text \<open>\<open>etext\<close> is the linker's symbol.\<close>

definition kvmmake :: "u64 \<Rightarrow> 'z kmem_scheme \<Rightarrow> (addr, 'z kmem_scheme) outcome" where
  "kvmmake etext s =
     bind (kalloc s) (\<lambda>kpgtbl s.
     if kpgtbl = 0 then Fault else
     let s = s\<lparr>mem := memset (mem s) kpgtbl 0 4096\<rparr> in
     bind (kvmmap kpgtbl UART0 UART0 PGSIZE (PTE_R OR PTE_W) s) (\<lambda>_ s.
     bind (kvmmap kpgtbl VIRTIO0 VIRTIO0 PGSIZE (PTE_R OR PTE_W) s) (\<lambda>_ s.
     bind (kvmmap kpgtbl PLIC PLIC 0x4000000 (PTE_R OR PTE_W) s) (\<lambda>_ s.
     bind (kvmmap kpgtbl KERNBASE KERNBASE (etext - KERNBASE) (PTE_R OR PTE_X) s) (\<lambda>_ s.
     bind (kvmmap kpgtbl etext etext (PHYSTOP - etext) (PTE_R OR PTE_W) s) (\<lambda>_ s.
     bind (kvmmap kpgtbl TRAMPOLINE (trampoline_pa s) PGSIZE (PTE_R OR PTE_X) s) (\<lambda>_ s.
     bind (proc_mapstacks kpgtbl s) (\<lambda>_ s.
     Ok kpgtbl s))))))))"

definition kvminit :: "u64 \<Rightarrow> 'z kproc_scheme \<Rightarrow> (unit, 'z kproc_scheme) outcome" where
  "kvminit etext s = bind (kvmmake etext s) (\<lambda>pt s. Ok () (s\<lparr>kernel_pagetable := pt\<rparr>))"

section \<open>User address spaces\<close>

definition uvmcreate :: "'z kmem_scheme \<Rightarrow> (addr, 'z kmem_scheme) outcome" where
  "uvmcreate s = bind (kalloc s) (\<lambda>pt s.
     if pt = 0 then Ok 0 s else Ok pt (s\<lparr>mem := memset (mem s) pt 0 4096\<rparr>))"

fun uvmunmap_loop :: "nat \<Rightarrow> addr \<Rightarrow> u64 \<Rightarrow> u64 \<Rightarrow> bool \<Rightarrow> 'z kmem_scheme \<Rightarrow>
    (unit, 'z kmem_scheme) outcome" where
  "uvmunmap_loop 0 pt a e do_free s = (if a < e then Fault else Ok () s)"
| "uvmunmap_loop (Suc n) pt a e do_free s =
     (if a < e then
        bind (walk pt a False s) (\<lambda>pte s.
        if pte = 0 then uvmunmap_loop n pt (a + PGSIZE) e do_free s
        else if load64 (mem s) pte AND PTE_V = 0 then uvmunmap_loop n pt (a + PGSIZE) e do_free s
        else bind (if do_free then kfree (PTE2PA (load64 (mem s) pte)) s else Ok () s) (\<lambda>_ s.
          uvmunmap_loop n pt (a + PGSIZE) e do_free (s\<lparr>mem := store64 (mem s) pte 0\<rparr>)))
      else Ok () s)"

definition uvmunmap :: "addr \<Rightarrow> u64 \<Rightarrow> u64 \<Rightarrow> bool \<Rightarrow> 'z kmem_scheme \<Rightarrow>
    (unit, 'z kmem_scheme) outcome" where
  "uvmunmap pt va npages do_free s =
     (if va mod PGSIZE \<noteq> 0 then Panic ''uvmunmap: not aligned''
      else uvmunmap_loop (unat npages) pt va (va + npages * PGSIZE) do_free s)"

text \<open>\<^verbatim>\<open>npages\<close> is an \<^verbatim>\<open>int\<close> that is passed on as a \<^verbatim>\<open>uint64\<close>.\<close>

definition uvmdealloc :: "addr \<Rightarrow> u64 \<Rightarrow> u64 \<Rightarrow> 'z kmem_scheme \<Rightarrow> (u64, 'z kmem_scheme) outcome" where
  "uvmdealloc pt oldsz newsz s =
     (if newsz \<ge> oldsz then Ok oldsz s
      else if PGROUNDUP newsz < PGROUNDUP oldsz then
        let npages = ucast ((PGROUNDUP oldsz - PGROUNDUP newsz) div PGSIZE) :: 32 word in
        bind (uvmunmap pt (PGROUNDUP newsz) (scast npages) True s) (\<lambda>_ s. Ok newsz s)
      else Ok newsz s)"

fun uvmalloc_loop :: "nat \<Rightarrow> addr \<Rightarrow> u64 \<Rightarrow> u64 \<Rightarrow> u64 \<Rightarrow> u64 \<Rightarrow> 'z kmem_scheme \<Rightarrow>
    (u64, 'z kmem_scheme) outcome" where
  "uvmalloc_loop 0 pt a oldsz newsz xperm s = (if a < newsz then Fault else Ok newsz s)"
| "uvmalloc_loop (Suc n) pt a oldsz newsz xperm s =
     (if a < newsz then
        bind (kalloc s) (\<lambda>pg s.
        if pg = 0 then bind (uvmdealloc pt a oldsz s) (\<lambda>_ s. Ok 0 s)
        else let s = s\<lparr>mem := memset (mem s) pg 0 4096\<rparr> in
          bind (mappages pt a PGSIZE pg (PTE_R OR PTE_U OR xperm) s) (\<lambda>r s.
          if r \<noteq> 0 then
            bind (kfree pg s) (\<lambda>_ s. bind (uvmdealloc pt a oldsz s) (\<lambda>_ s. Ok 0 s))
          else uvmalloc_loop n pt (a + PGSIZE) oldsz newsz xperm s))
      else Ok newsz s)"

definition uvmalloc :: "addr \<Rightarrow> u64 \<Rightarrow> u64 \<Rightarrow> u64 \<Rightarrow> 'z kmem_scheme \<Rightarrow>
    (u64, 'z kmem_scheme) outcome" where
  "uvmalloc pt oldsz newsz xperm s =
     (if newsz < oldsz then Ok oldsz s
      else uvmalloc_loop (unat newsz div 4096 + 1) pt (PGROUNDUP oldsz) (PGROUNDUP oldsz) newsz xperm s)"

text \<open>\<^verbatim>\<open>freewalk\<close> recurses once per level; \<^verbatim>\<open>uvmfree\<close> starts it at the root of three levels.\<close>

fun freewalk :: "nat \<Rightarrow> addr \<Rightarrow> 'z kmem_scheme \<Rightarrow> (unit, 'z kmem_scheme) outcome" where
  "freewalk 0 pt s = Fault"
| "freewalk (Suc depth) pt s =
     bind (foreach [0..<512] (\<lambda>i s.
       let a = pt + 8 * of_nat i; pte = load64 (mem s) a in
       if pte AND PTE_V \<noteq> 0 \<and> pte AND (PTE_R OR PTE_W OR PTE_X) = 0 then
         bind (freewalk depth (PTE2PA pte) s) (\<lambda>_ s. Ok () (s\<lparr>mem := store64 (mem s) a 0\<rparr>))
       else if pte AND PTE_V \<noteq> 0 then Panic ''freewalk: leaf''
       else Ok () s) s) (\<lambda>_ s.
     kfree pt s)"

definition uvmfree :: "addr \<Rightarrow> u64 \<Rightarrow> 'z kmem_scheme \<Rightarrow> (unit, 'z kmem_scheme) outcome" where
  "uvmfree pt siz s =
     bind (if siz > 0 then uvmunmap pt 0 (PGROUNDUP siz div PGSIZE) True s else Ok () s)
       (\<lambda>_ s. freewalk 3 pt s)"

fun uvmcopy_loop :: "nat \<Rightarrow> addr \<Rightarrow> addr \<Rightarrow> u64 \<Rightarrow> u64 \<Rightarrow> 'z kmem_scheme \<Rightarrow>
    (int, 'z kmem_scheme) outcome" where
  "uvmcopy_loop 0 old new i siz s = (if i < siz then Fault else Ok 0 s)"
| "uvmcopy_loop (Suc n) old new i siz s =
     (if i < siz then
        bind (walk old i False s) (\<lambda>pte s.
        if pte = 0 then uvmcopy_loop n old new (i + PGSIZE) siz s
        else if load64 (mem s) pte AND PTE_V = 0 then uvmcopy_loop n old new (i + PGSIZE) siz s
        else let pa = PTE2PA (load64 (mem s) pte); flags = PTE_FLAGS (load64 (mem s) pte) in
          bind (kalloc s) (\<lambda>pg s.
          if pg = 0 then bind (uvmunmap new 0 (i div PGSIZE) True s) (\<lambda>_ s. Ok (-1) s)
          else let s = s\<lparr>mem := memmove (mem s) pg pa 4096\<rparr> in
            bind (mappages new i PGSIZE pg flags s) (\<lambda>r s.
            if r \<noteq> 0 then
              bind (kfree pg s) (\<lambda>_ s. bind (uvmunmap new 0 (i div PGSIZE) True s) (\<lambda>_ s. Ok (-1) s))
            else uvmcopy_loop n old new (i + PGSIZE) siz s)))
      else Ok 0 s)"

definition uvmcopy :: "addr \<Rightarrow> addr \<Rightarrow> u64 \<Rightarrow> 'z kmem_scheme \<Rightarrow> (int, 'z kmem_scheme) outcome" where
  "uvmcopy old new siz s = uvmcopy_loop (unat siz div 4096 + 1) old new 0 siz s"

fun uvmshare_loop :: "nat \<Rightarrow> addr \<Rightarrow> addr \<Rightarrow> u64 \<Rightarrow> u64 \<Rightarrow> 'z kmem_scheme \<Rightarrow>
    (int, 'z kmem_scheme) outcome" where
  "uvmshare_loop 0 old new i siz s = (if i < siz then Fault else Ok 0 s)"
| "uvmshare_loop (Suc n) old new i siz s =
     (if i < siz then
        bind (walk old i False s) (\<lambda>pte s.
        if pte = 0 then uvmshare_loop n old new (i + PGSIZE) siz s
        else if load64 (mem s) pte AND PTE_V = 0 then uvmshare_loop n old new (i + PGSIZE) siz s
        else let pa = PTE2PA (load64 (mem s) pte); flags = PTE_FLAGS (load64 (mem s) pte) in
          bind (mappages new i PGSIZE pa flags s) (\<lambda>r s.
          if r \<noteq> 0 then bind (uvmunmap new 0 (i div PGSIZE) False s) (\<lambda>_ s. Ok (-1) s)
          else uvmshare_loop n old new (i + PGSIZE) siz s))
      else Ok 0 s)"

definition uvmshare :: "addr \<Rightarrow> addr \<Rightarrow> u64 \<Rightarrow> 'z kmem_scheme \<Rightarrow> (int, 'z kmem_scheme) outcome" where
  "uvmshare old new siz s = uvmshare_loop (unat siz div 4096 + 1) old new 0 siz s"

definition uvmclear :: "addr \<Rightarrow> u64 \<Rightarrow> 'z kmem_scheme \<Rightarrow> (unit, 'z kmem_scheme) outcome" where
  "uvmclear pt va s =
     bind (walk pt va False s) (\<lambda>pte s.
     if pte = 0 then Panic ''uvmclear''
     else Ok () (s\<lparr>mem := store64 (mem s) pte (load64 (mem s) pte AND NOT PTE_U)\<rparr>))"

section \<open>Lazy allocation and copies\<close>

definition ismapped :: "addr \<Rightarrow> u64 \<Rightarrow> 'z kmem_scheme \<Rightarrow> (bool, 'z kmem_scheme) outcome" where
  "ismapped pt va s =
     bind (walk pt va False s) (\<lambda>pte s.
     if pte = 0 then Ok False s else Ok (load64 (mem s) pte AND PTE_V \<noteq> 0) s)"

definition vmfault :: "addr \<Rightarrow> u64 \<Rightarrow> 'z kproc_scheme \<Rightarrow> (u64, 'z kproc_scheme) outcome" where
  "vmfault pt va s =
     bind (myproc s) (\<lambda>p s.
     if va \<ge> sz (procs s p) then Ok 0 s
     else let va = PGROUNDDOWN va in
       bind (ismapped pt va s) (\<lambda>mapped s.
       if mapped then Ok 0 s
       else bind (kalloc s) (\<lambda>pg s.
         if pg = 0 then Ok 0 s
         else let s = s\<lparr>mem := memset (mem s) pg 0 4096\<rparr> in
           bind (mappages (pagetable (procs s p)) va PGSIZE pg (PTE_W OR PTE_U OR PTE_R) s) (\<lambda>r s.
           if r \<noteq> 0 then bind (kfree pg s) (\<lambda>_ s. Ok 0 s) else Ok pg s))))"

text \<open>The bytes of a page from an address on: what one round of a copy loop can move.\<close>

definition room :: "u64 \<Rightarrow> nat" where
  "room va = unat (PGSIZE - (va - PGROUNDDOWN va))"

lemma page_offset: "unat (va - PGROUNDDOWN va) = unat va mod 4096"
proof -
  have "PGROUNDDOWN va \<le> va" by (simp add: word_le_nat_alt unat_PGROUNDDOWN)
  then show ?thesis by (simp add: unat_sub unat_PGROUNDDOWN minus_div_mult_eq_mod)
qed

lemma room_eq: "room va = 4096 - unat va mod 4096"
proof -
  have "va - PGROUNDDOWN va \<le> 4096"
    using page_offset[of va] by (simp add: word_le_nat_alt)
  then show ?thesis by (simp add: room_def unat_sub page_offset)
qed

lemma room_pos [simp]: "0 < room va"
  by (simp add: room_eq)

function copyout :: "addr \<Rightarrow> u64 \<Rightarrow> u8 list \<Rightarrow> 'z kproc_scheme \<Rightarrow> (int, 'z kproc_scheme) outcome" where
  "copyout pt dstva src s =
     (if src = [] then Ok 0 s
      else let va0 = PGROUNDDOWN dstva in
        if va0 \<ge> MAXVA then Ok (-1) s
        else bind (walkaddr pt va0 s) (\<lambda>pa0 s.
          bind (if pa0 = 0 then vmfault pt va0 s else Ok pa0 s) (\<lambda>pa0 s.
          if pa0 = 0 then Ok (-1) s
          else bind (walk pt va0 False s) (\<lambda>pte s.
            if pte = 0 then Fault
            else if load64 (mem s) pte AND PTE_W = 0 then Ok (-1) s
            else let n = min (room dstva) (length src);
                     s = s\<lparr>mem := write_bytes (mem s) (pa0 + (dstva - va0)) (take n src)\<rparr>
                 in copyout pt (va0 + PGSIZE) (drop n src) s))))"
  by pat_completeness auto
termination
  by (relation "measure (\<lambda>(pt, va, src, s). length src)") (auto simp: min_def)

declare copyout.simps [simp del]

function copyin :: "addr \<Rightarrow> u64 \<Rightarrow> nat \<Rightarrow> 'z kproc_scheme \<Rightarrow> (int \<times> u8 list, 'z kproc_scheme) outcome" where
  "copyin pt srcva len s =
     (if len = 0 then Ok (0, []) s
      else let va0 = PGROUNDDOWN srcva in
        bind (walkaddr pt va0 s) (\<lambda>pa0 s.
        bind (if pa0 = 0 then vmfault pt va0 s else Ok pa0 s) (\<lambda>pa0 s.
        if pa0 = 0 then Ok (-1, []) s
        else let n = min (room srcva) len;
                 chunk = read_bytes (mem s) (pa0 + (srcva - va0)) n
             in bind (copyin pt (va0 + PGSIZE) (len - n) s) (\<lambda>(r, bs) s. Ok (r, chunk @ bs) s))))"
  by pat_completeness auto
termination
  by (relation "measure (\<lambda>(pt, va, len, s). len)") auto

declare copyin.simps [simp del]

fun copy_string :: "memory \<Rightarrow> addr \<Rightarrow> nat \<Rightarrow> bool \<times> u8 list" where
  "copy_string m p 0 = (False, [])"
| "copy_string m p (Suc n) =
     (if m p = 0 then (True, [0])
      else let (got_null, bs) = copy_string m (p + 1) n in (got_null, m p # bs))"

function copyinstr :: "addr \<Rightarrow> u64 \<Rightarrow> nat \<Rightarrow> 'z kproc_scheme \<Rightarrow> (int \<times> u8 list, 'z kproc_scheme) outcome" where
  "copyinstr pt srcva mx s =
     (if mx = 0 then Ok (-1, []) s
      else let va0 = PGROUNDDOWN srcva in
        bind (walkaddr pt va0 s) (\<lambda>pa0 s.
        if pa0 = 0 then Ok (-1, []) s
        else let n = min (room srcva) mx;
                 (got_null, bs) = copy_string (mem s) (pa0 + (srcva - va0)) n
             in if got_null then Ok (0, bs) s
                else bind (copyinstr pt (va0 + PGSIZE) (mx - n) s) (\<lambda>(r, bs') s. Ok (r, bs @ bs') s)))"
  by pat_completeness auto
termination
  by (relation "measure (\<lambda>(pt, va, mx, s). mx)") auto

declare copyinstr.simps [simp del]

end
