(* ===== verification/Pagetable.thy ===== *)
theory Pagetable
  imports Vm
begin

text \<open>
  The page tables \<^verbatim>\<open>vm.c\<close> keeps in memory, as trees. \<open>ptree l m pg N\<close> says that the page \<open>pg\<close> roots
  a well-formed table of level \<open>l\<close> whose table pages are exactly \<open>N\<close>, each linked once.
  \<open>lookup\<close> is the hardware's reading of the table, a partial map from virtual addresses to
  page-table entries. The lemmas show what \<^verbatim>\<open>walk\<close> and a store through the pointer it
  returns do to both.
\<close>

section \<open>Entries\<close>

definition pte_of :: "memory \<Rightarrow> addr \<Rightarrow> u64 \<Rightarrow> u64" where
  "pte_of m pg i = load64 m (pg + 8 * i)"

lemma take_bit_less_exp: "unat (x :: u64) < 2 ^ n \<Longrightarrow> take_bit n x = x"
  by (simp add: word_unat_eq_iff unsigned_take_bit_eq take_bit_nat_eq_self)

lemma bit_high: "unat (x :: u64) < 2 ^ n \<Longrightarrow> n \<le> k \<Longrightarrow> \<not> bit x k"
  using take_bit_less_exp[of x n] bit_take_bit_iff[of n x k] by (metis leD)

lemma PX_less: "PX l va < 512"
proof -
  have "PX l va = take_bit 9 (drop_bit (12 + 9 * l) va)"
    by (simp add: PX_def take_bit_eq_mask mask_eq_exp_minus_1)
  then show ?thesis
    using take_bit_int_less_exp by (simp add: word_less_nat_alt unsigned_take_bit_eq take_bit_nat_def)
qed

lemma unat_entry:
  assumes "page_aligned pg" "i < 512"
  shows "unat (pg + 8 * i) = unat pg + 8 * unat i"
proof -
  have i: "unat i < 512" using assms(2) by (simp add: word_less_nat_alt)
  then have "unat (8 * i) = 8 * unat i"
    by (simp add: unat_word_ariths)
  moreover have "unat pg + 8 * unat i < 2 ^ 64"
    using page_end[OF assms(1)] i by simp
  ultimately show ?thesis by (simp add: unat_word_ariths)
qed

lemma entry_in_page:
  assumes "page_aligned pg" "i < 512"
  shows "unat pg \<le> unat (pg + 8 * i)" "unat (pg + 8 * i) + 8 \<le> unat pg + 4096"
  using unat_entry[OF assms] assms(2) by (simp_all add: word_less_nat_alt)

lemma entry_neq_0: "page_aligned pg \<Longrightarrow> pg \<noteq> 0 \<Longrightarrow> i < 512 \<Longrightarrow> pg + 8 * i \<noteq> 0"
  using unat_entry[of pg i] by (metis add_is_0 unat_eq_zero)

lemma aligned_low_bits: "page_aligned p \<Longrightarrow> n < 12 \<Longrightarrow> \<not> bit p n"
proof -
  assume p: "page_aligned p" and n: "n < 12"
  have "take_bit 12 p = 0"
    using p by (simp add: page_aligned_iff take_bit_eq_mod)
  then show ?thesis using n bit_take_bit_iff[of 12 p n] by simp
qed

lemma PTE2PA_make:
  assumes "page_aligned p" "perm < 1024"
  shows "PTE2PA (PA2PTE p OR perm OR 1) = p"
proof (rule bit_word_eqI)
  fix n assume n: "n < LENGTH(64)"
  have "\<not> bit perm k" if "10 \<le> k" for k
    using bit_high[of perm 10 k] assms(2) that by (simp add: word_less_nat_alt)
  then show "bit (PTE2PA (PA2PTE p OR perm OR 1)) n = bit p n"
    using aligned_low_bits[OF assms(1), of n] n
    by (cases "n < 12") (auto simp: PTE2PA_def PA2PTE_def bit_simps)
qed

lemma PTE2PA_table: "page_aligned p \<Longrightarrow> PTE2PA (PA2PTE p OR 1) = p"
  using PTE2PA_make[of p 0] by simp

lemma PTE_FLAGS_make:
  assumes "perm < 1024"
  shows "PTE_FLAGS (PA2PTE p OR perm OR 1) = perm OR 1"
proof (rule bit_word_eqI)
  fix n assume n: "n < LENGTH(64)"
  have m: "(0x3FF :: u64) = mask 10" by (simp add: mask_eq_exp_minus_1)
  have "\<not> bit perm k" if "10 \<le> k" for k
    using bit_high[of perm 10 k] assms(1) that by (simp add: word_less_nat_alt)
  then show "bit (PTE_FLAGS (PA2PTE p OR perm OR 1)) n = bit (perm OR 1) n"
    using n by (cases "n < 10") (auto simp: PTE_FLAGS_def PA2PTE_def m bit_simps)
qed

lemma flag_bits:
  "(e :: u64) AND 1 \<noteq> 0 \<longleftrightarrow> bit e 0" "e AND 2 \<noteq> 0 \<longleftrightarrow> bit e 1" "e AND 4 \<noteq> 0 \<longleftrightarrow> bit e 2"
  "e AND 8 \<noteq> 0 \<longleftrightarrow> bit e 3" "e AND 16 \<noteq> 0 \<longleftrightarrow> bit e 4"
  using and_exp_eq_0_iff_not_bit[of e 0] and_exp_eq_0_iff_not_bit[of e 1]
    and_exp_eq_0_iff_not_bit[of e 2] and_exp_eq_0_iff_not_bit[of e 3]
    and_exp_eq_0_iff_not_bit[of e 4]
  by simp_all

lemma make_valid [simp]: "(x OR perm OR 1) AND 1 \<noteq> (0 :: u64)" "(x OR 1) AND 1 \<noteq> (0 :: u64)"
  unfolding flag_bits by (simp_all add: bit_simps)

lemma table_entry_no_rwx: "(PA2PTE p OR 1) AND 14 = 0"
proof (rule bit_word_eqI)
  fix n assume "n < LENGTH(64)"
  have "bit (14 :: u64) n \<Longrightarrow> n = 1 \<or> n = 2 \<or> n = 3"
    by (auto simp: bit_numeral_rec bit_1_iff split: nat.splits) 
  then show "bit ((PA2PTE p OR 1) AND 14) n = bit 0 n"
    by (auto simp: PA2PTE_def bit_simps)
qed

section \<open>Trees of table pages\<close>

text \<open>Two memories that agree on every byte of the pages in \<open>P\<close>.\<close>

definition agree :: "addr set \<Rightarrow> memory \<Rightarrow> memory \<Rightarrow> bool" where
  "agree P m m' \<longleftrightarrow> (\<forall>p \<in> P. \<forall>x. in_page p x \<longrightarrow> m' x = m x)"

text \<open>Memory changes only inside pages of \<open>P\<close>.\<close>

definition same_off :: "addr set \<Rightarrow> memory \<Rightarrow> memory \<Rightarrow> bool" where
  "same_off P m m' \<longleftrightarrow> (\<forall>x. (\<forall>p \<in> P. \<not> in_page p x) \<longrightarrow> m' x = m x)"

lemma agree_mono: "agree P m m' \<Longrightarrow> Q \<subseteq> P \<Longrightarrow> agree Q m m'"
  by (auto simp: agree_def)

lemma agree_refl [simp]: "agree P m m"
  by (simp add: agree_def)

lemma agree_trans: "agree P m m' \<Longrightarrow> agree P m' m'' \<Longrightarrow> agree P m m''"
  by (simp add: agree_def)

lemma agree_empty [simp]: "agree {} m m'"
  by (simp add: agree_def)

lemma agree_UN: "(\<And>i. i \<in> I \<Longrightarrow> agree (P i) m m') \<Longrightarrow> agree (\<Union>i\<in>I. P i) m m'"
  by (auto simp: agree_def)

lemma in_page_unique: "page_aligned p \<Longrightarrow> page_aligned q \<Longrightarrow> in_page p x \<Longrightarrow> in_page q x \<Longrightarrow> p = q"
  using pages_apart[of p q] by (auto simp: in_page_def)

lemma same_off_agree:
  assumes "same_off P m m'" "P \<inter> Q = {}" "\<forall>p \<in> P. page_aligned p" "\<forall>q \<in> Q. page_aligned q"
  shows "agree Q m m'"
  using assms in_page_unique unfolding agree_def same_off_def by blast

lemma same_off_refl [simp]: "same_off P m m"
  by (simp add: same_off_def)

lemma same_off_trans: "same_off P m m' \<Longrightarrow> same_off Q m' m'' \<Longrightarrow> same_off (P \<union> Q) m m''"
  by (simp add: same_off_def)

lemma same_off_mono: "same_off P m m' \<Longrightarrow> P \<subseteq> Q \<Longrightarrow> same_off Q m m'"
  by (auto simp: same_off_def)

lemma same_off_only_page: "only_page p m m' = same_off {p} m m'"
  by (auto simp: only_page_def same_off_def)

lemma same_off_store:
  "page_aligned pg \<Longrightarrow> i < 512 \<Longrightarrow> same_off {pg} m (store64 m (pg + 8 * i) v)"
  using only_page_store[of pg "pg + 8 * i" m v] entry_in_page[of pg i]
  by (simp add: same_off_only_page)

lemma same_off_fill: "same_off {pg} m (fill_bytes m pg c 4096)"
  using only_page_fill[of pg m c] by (simp add: same_off_only_page)

lemma pte_of_agree:
  assumes "agree {pg} m m'" "page_aligned pg" "i < 512"
  shows "pte_of m' pg i = pte_of m pg i"
proof -
  have "m' (pg + 8 * i + of_nat k) = m (pg + 8 * i + of_nat k)" if "k < 8" for k
  proof -
    have "unat (pg + 8 * i + of_nat k) = unat (pg + 8 * i) + k"
      using entry_in_page[OF assms(2,3)] page_end[OF assms(2)] that
      by (intro unat_plus_of_nat) simp
    then have "in_page pg (pg + 8 * i + of_nat k)"
      using entry_in_page[OF assms(2,3)] that by (simp add: in_page_def)
    then show ?thesis using assms(1) by (simp add: agree_def)
  qed
  then have "read_bytes m' (pg + 8 * i) 8 = read_bytes m (pg + 8 * i) 8"
    by (auto simp: read_bytes_def)
  then show ?thesis by (simp add: pte_of_def load64_def)
qed

lemma pte_of_store:
  assumes "page_aligned pg" "i < 512" "j < 512"
  shows "pte_of (store64 m (pg + 8 * i) v) pg j = (if j = i then v else pte_of m pg j)"
proof (cases "j = i")
  case True
  then show ?thesis
    using entry_in_page[OF assms(1,2)] page_end[OF assms(1)] by (simp add: pte_of_def)
next
  case False
  then have "unat j \<noteq> unat i" by (simp add: word_unat_eq_iff)
  then have "unat (pg + 8 * j) + 8 \<le> unat (pg + 8 * i) \<or> unat (pg + 8 * i) + 8 \<le> unat (pg + 8 * j)"
    using unat_entry[OF assms(1,2)] unat_entry[OF assms(1,3)] by auto
  then show ?thesis
    using False entry_in_page[OF assms(1,3)] page_end[OF assms(1)]
    by (simp add: pte_of_def load_store_disjoint)
qed

lemma pte_of_zeroed: "page_aligned pg \<Longrightarrow> i < 512 \<Longrightarrow> pte_of (fill_bytes m pg 0 4096) pg i = 0"
  using entry_in_page[of pg i] page_end[of pg] by (simp add: pte_of_def load_fill_zero)

text \<open>
  An entry of an inner table that is valid points to a table of the next level and
  has none of the permission bits by which \<^verbatim>\<open>freewalk\<close> recognises leaves.
\<close>

primrec ptree :: "nat \<Rightarrow> memory \<Rightarrow> addr \<Rightarrow> addr set \<Rightarrow> bool" where
  "ptree 0 m pg N = (page_aligned pg \<and> N = {pg})"
| "ptree (Suc l) m pg N = (page_aligned pg \<and> (\<exists>C.
     (\<forall>i<512. if pte_of m pg i AND PTE_V \<noteq> 0
        then pte_of m pg i AND 14 = 0 \<and> ptree l m (PTE2PA (pte_of m pg i)) (C i) else C i = {})
     \<and> (\<forall>i<512. pg \<notin> C i) \<and> (\<forall>i<512. \<forall>j<512. i \<noteq> j \<longrightarrow> C i \<inter> C j = {})
     \<and> N = insert pg (\<Union>i\<in>{..<512}. C i)))"

primrec slot :: "nat \<Rightarrow> memory \<Rightarrow> addr \<Rightarrow> u64 \<Rightarrow> addr option" where
  "slot 0 m pg va = Some (pg + 8 * PX 0 va)"
| "slot (Suc l) m pg va = (let e = pte_of m pg (PX (Suc l) va) in
     if e AND PTE_V \<noteq> 0 then slot l m (PTE2PA e) va else None)"

primrec lookup :: "nat \<Rightarrow> memory \<Rightarrow> addr \<Rightarrow> u64 \<Rightarrow> u64 option" where
  "lookup 0 m pg va = (let e = pte_of m pg (PX 0 va) in if e AND PTE_V \<noteq> 0 then Some e else None)"
| "lookup (Suc l) m pg va = (let e = pte_of m pg (PX (Suc l) va) in
     if e AND PTE_V \<noteq> 0 then lookup l m (PTE2PA e) va else None)"

lemma lookup_slot:
  "lookup l m pg va = (case slot l m pg va of None \<Rightarrow> None
     | Some a \<Rightarrow> if load64 m a AND 1 \<noteq> 0 then Some (load64 m a) else None)"
  by (induction l arbitrary: pg) (auto simp: Let_def pte_of_def)

lemma ptree_root: "ptree l m pg N \<Longrightarrow> page_aligned pg \<and> pg \<in> N"
  by (cases l) auto

text \<open>The pages below the entries of an inner table.\<close>

definition kids :: "nat \<Rightarrow> memory \<Rightarrow> addr \<Rightarrow> (u64 \<Rightarrow> addr set) \<Rightarrow> bool" where
  "kids l m pg C \<longleftrightarrow>
     (\<forall>i<512. pte_of m pg i AND PTE_V \<noteq> 0 \<longrightarrow>
        pte_of m pg i AND 14 = 0 \<and> ptree l m (PTE2PA (pte_of m pg i)) (C i))
     \<and> (\<forall>i<512. pte_of m pg i AND PTE_V = 0 \<longrightarrow> C i = {})
     \<and> (\<forall>i<512. pg \<notin> C i) \<and> (\<forall>i<512. \<forall>j<512. i \<noteq> j \<longrightarrow> C i \<inter> C j = {})"

lemma ptree_Suc_iff:
  "ptree (Suc l) m pg N \<longleftrightarrow>
     page_aligned pg \<and> (\<exists>C. kids l m pg C \<and> N = insert pg (\<Union>i\<in>{..<512}. C i))"
  by (auto simp: kids_def)

lemma ptree_SucE:
  assumes "ptree (Suc l) m pg N"
  obtains C where "page_aligned pg" "kids l m pg C" "N = insert pg (\<Union>i\<in>{..<512}. C i)"
  using assms unfolding ptree_Suc_iff by blast

lemma kids_valid: "kids l m pg C \<Longrightarrow> i < 512 \<Longrightarrow> pte_of m pg i AND 1 \<noteq> 0 \<Longrightarrow>
    pte_of m pg i AND 14 = 0 \<and> ptree l m (PTE2PA (pte_of m pg i)) (C i)"
  by (simp add: kids_def)

lemma kids_invalid: "kids l m pg C \<Longrightarrow> i < 512 \<Longrightarrow> pte_of m pg i AND 1 = 0 \<Longrightarrow> C i = {}"
  by (simp add: kids_def)

lemma kids_apart: "kids l m pg C \<Longrightarrow> i < 512 \<Longrightarrow> j < 512 \<Longrightarrow> i \<noteq> j \<Longrightarrow> C i \<inter> C j = {}"
  by (simp add: kids_def)

lemma kids_root: "kids l m pg C \<Longrightarrow> i < 512 \<Longrightarrow> pg \<notin> C i"
  by (simp add: kids_def)

declare ptree.simps(2) [simp del]

lemma ptree_pages: "ptree l m pg N \<Longrightarrow> q \<in> N \<Longrightarrow> page_aligned q"
proof (induction l arbitrary: pg N)
  case (Suc l)
  obtain C where C: "page_aligned pg" "kids l m pg C" "N = insert pg (\<Union>i\<in>{..<512}. C i)"
    using Suc.prems(1) by (rule ptree_SucE)
  show ?case
  proof (cases "q = pg")
    case False
    then obtain i where "i < 512" "q \<in> C i" using C(3) Suc.prems(2) by auto
    then show ?thesis using kids_valid[OF C(2)] kids_invalid[OF C(2)] Suc.IH by blast
  qed (use C in simp)
qed auto

lemma ptree_agree:
  assumes "ptree l m pg N" "agree N m m'"
  shows "ptree l m' pg N \<and> slot l m' pg va = slot l m pg va
    \<and> lookup l m' pg va = lookup l m pg va"
  using assms
proof (induction l arbitrary: pg N)
  case 0
  then show ?case using pte_of_agree PX_less by auto
next
  case (Suc l)
  obtain C where C: "page_aligned pg" "kids l m pg C" "N = insert pg (\<Union>i\<in>{..<512}. C i)"
    using Suc.prems(1) by (rule ptree_SucE)
  have e: "pte_of m' pg i = pte_of m pg i" if "i < 512" for i
    using pte_of_agree[OF agree_mono[OF Suc.prems(2)] C(1) that] C(3) by auto
  have sub: "ptree l m' (PTE2PA (pte_of m pg i)) (C i)
      \<and> slot l m' (PTE2PA (pte_of m pg i)) va = slot l m (PTE2PA (pte_of m pg i)) va
      \<and> lookup l m' (PTE2PA (pte_of m pg i)) va = lookup l m (PTE2PA (pte_of m pg i)) va"
    if "i < 512" "pte_of m pg i AND 1 \<noteq> 0" for i
    using Suc.IH[of "PTE2PA (pte_of m pg i)" "C i"] kids_valid[OF C(2)] C(3) that
      agree_mono[OF Suc.prems(2), of "C i"] by auto
  have "kids l m' pg C" using C(2) e sub by (simp add: kids_def)
  then have "ptree (Suc l) m' pg N" using C(1,3) by (auto simp: ptree_Suc_iff)
  then show ?case using e sub PX_less by (auto simp: Let_def)
qed

text \<open>Replacing the table below one entry, or linking a new one.\<close>

lemma ptree_graft:
  assumes "page_aligned pg" "kids l m pg C" "i < 512"
    and other: "\<And>j. j < 512 \<Longrightarrow> j \<noteq> i \<Longrightarrow> pte_of m' pg j = pte_of m pg j \<and> agree (C j) m m'
      \<and> D \<inter> C j = {}"
    and new: "pte_of m' pg i AND 1 \<noteq> 0" "pte_of m' pg i AND 14 = 0"
      "ptree l m' (PTE2PA (pte_of m' pg i)) D" "pg \<notin> D"
  shows "ptree (Suc l) m' pg (insert pg (D \<union> (\<Union>j\<in>{..<512} - {i}. C j)))"
proof -
  let ?C = "C(i := D)"
  have "ptree l m' (PTE2PA (pte_of m' pg j)) (C j)"
    if "j < 512" "j \<noteq> i" "pte_of m pg j AND 1 \<noteq> 0" for j
    using ptree_agree[of l m _ "C j" m'] kids_valid[OF assms(2)] other that by auto
  then have "kids l m' pg ?C"
    using assms(2,3) other new unfolding kids_def by (simp add: Int_commute)
  moreover have "(\<Union>j\<in>{..<512}. ?C j) = D \<union> (\<Union>j\<in>{..<512} - {i}. C j)"
    using assms(3) by auto
  ultimately show ?thesis unfolding ptree_Suc_iff using assms(1) by metis
qed

lemma graft_lookup:
  assumes "kids l m pg C"
    and other: "\<And>j. j < 512 \<Longrightarrow> j \<noteq> i \<Longrightarrow> pte_of m' pg j = pte_of m pg j \<and> agree (C j) m m'"
    and new: "pte_of m' pg i AND 1 \<noteq> 0"
  shows "lookup (Suc l) m' pg va = (if PX (Suc l) va = i then lookup l m' (PTE2PA (pte_of m' pg i)) va
      else lookup (Suc l) m pg va)"
proof (cases "PX (Suc l) va = i")
  case False
  let ?j = "PX (Suc l) va"
  have j: "?j < 512" by (rule PX_less)
  have "lookup l m' (PTE2PA (pte_of m pg ?j)) va = lookup l m (PTE2PA (pte_of m pg ?j)) va"
    if "pte_of m pg ?j AND 1 \<noteq> 0"
    using ptree_agree[of l m _ "C ?j" m'] kids_valid[OF assms(1) j that] other[OF j False] by auto
  then show ?thesis using other[OF j False] False by (simp add: Let_def)
qed (use new in \<open>simp add: Let_def\<close>)

text \<open>A table page with no valid entry.\<close>

lemma ptree_zeroed:
  assumes "page_aligned pg" "\<And>i. i < 512 \<Longrightarrow> pte_of m pg i AND 1 = 0"
  shows "ptree l m pg {pg}" "lookup l m pg va = None"
proof -
  have "kids k m pg (\<lambda>_. {})" for k using assms(2) by (simp add: kids_def)
  then show "ptree l m pg {pg}"
    using assms(1) by (cases l) (auto simp: ptree_Suc_iff intro!: exI[of _ "\<lambda>_. {}"])
  show "lookup l m pg va = None"
    using assms(2)[OF PX_less] by (cases l) (auto simp: Let_def)
qed

section \<open>Walking\<close>

lemma walk_level_find:
  "walk_level l pg va False s = Ok (case slot l (mem s) pg va of None \<Rightarrow> 0 | Some a \<Rightarrow> a) s"
  by (induction l arbitrary: pg) (auto simp: Let_def pte_of_def)

lemma free_list_agree:
  assumes "agree (set ps) m m'" "\<forall>q \<in> set ps. page_aligned q"
  shows "free_list m' h ps = free_list m h ps"
  using assms
proof (induction ps arbitrary: h)
  case (Cons q ps)
  have "load64 m' q = load64 m q"
    using pte_of_agree[of q m m' 0] agree_mono[OF Cons.prems(1), of "{q}"] Cons.prems(2)
    by (simp add: pte_of_def)
  then show ?case using Cons agree_mono[OF Cons.prems(1), of "set ps"] by auto
qed simp

lemma kmem_free_agree:
  assumes "kmem_free s F" "agree F (mem s) m"
  shows "kmem_free (s\<lparr>mem := m\<rparr>) F"
proof -
  obtain ps where "kmem_inv s ps" "set ps = F" "L_kmem \<notin> held s"
    using assms(1) by (auto simp: kmem_free_def)
  then show ?thesis
    using free_list_agree[of ps "mem s" m] assms(2) ram_page_aligned
    by (fastforce simp: kmem_free_def kmem_inv_def)
qed

lemma free_pages: "kmem_free s F \<Longrightarrow> p \<in> F \<Longrightarrow> page_aligned p"
  using kmem_alloc.free_ram ram_page_aligned by blast

text \<open>A page table beside the free pages.\<close>

definition pt_ok :: "nat \<Rightarrow> 'z kmem_scheme \<Rightarrow> addr \<Rightarrow> addr set \<Rightarrow> addr set \<Rightarrow> bool" where
  "pt_ok l s pg N F \<longleftrightarrow> ptree l (mem s) pg N \<and> kmem_free s F \<and> N \<inter> F = {} \<and> 0 \<notin> N"

lemma pt_ok_aligned: "pt_ok l s pg N F \<Longrightarrow> p \<in> N \<union> F \<Longrightarrow> page_aligned p"
  by (auto simp: pt_ok_def dest: ptree_pages free_pages)

text \<open>The step of \<^verbatim>\<open>walk\<close> that allocates a table page and links it at entry \<open>i\<close> of \<open>pg\<close>.\<close>

lemma alloc_table:
  assumes "kmem_free s F" "F \<noteq> {}" "page_aligned pg" "pg \<notin> F" "i < 512"
  obtains p s1 s2 where "kalloc s = Ok p s1" "p \<in> F" "p \<noteq> 0" "page_aligned p"
    "s2 = s1\<lparr>mem := store64 (fill_bytes (mem s1) p 0 4096) (pg + 8 * i) (PA2PTE p OR 1)\<rparr>"
    "kmem_free s2 (F - {p})" "same_off {p, pg} (mem s) (mem s2)" "kmem_frame s s2"
    "\<And>j. j < 512 \<Longrightarrow> pte_of (mem s2) pg j = (if j = i then PA2PTE p OR 1 else pte_of (mem s) pg j)"
    "\<And>j. j < 512 \<Longrightarrow> pte_of (mem s2) p j = 0"
proof -
  obtain p s1 where p: "kalloc s = Ok p s1" "p \<in> F" "p \<noteq> 0" "ram_page (kend s) p"
      "kmem_free s1 (F - {p})" "only_page p (mem s) (mem s1)" "kmem_frame s s1"
    using kmem_alloc.alloc_cases[OF assms(1)] assms(2) by metis
  have al: "page_aligned p" using p(4) by simp
  have ppg: "p \<noteq> pg" using p(2) assms(4) by auto
  let ?m1 = "fill_bytes (mem s1) p 0 4096"
  let ?m2 = "store64 ?m1 (pg + 8 * i) (PA2PTE p OR 1)"
  have o1: "same_off {p} (mem s) ?m1"
    using same_off_trans[OF _ same_off_fill, of "{p}" "mem s" "mem s1" p 0] p(6)
    by (simp add: same_off_only_page)
  have o2: "same_off {pg} ?m1 ?m2" by (rule same_off_store[OF assms(3,5)])
  have o: "same_off {p, pg} (mem s) ?m2" using same_off_trans[OF o1 o2] by (simp add: insert_commute)
  have F: "\<forall>q \<in> F. page_aligned q" using free_pages[OF assms(1)] by blast
  have "agree (F - {p}) (mem s1) ?m2"
    using F al assms(3,4)
    by (intro same_off_agree[OF same_off_trans[OF same_off_fill[of p "mem s1" 0] o2]]) auto
  then have "kmem_free (s1\<lparr>mem := ?m2\<rparr>) (F - {p})" by (rule kmem_free_agree[OF p(5)])
  moreover have "pte_of ?m1 pg j = pte_of (mem s) pg j" if "j < 512" for j
    using same_off_agree[OF o1, of "{pg}"] al assms(3) ppg pte_of_agree[OF _ assms(3) that]
    by auto
  moreover have "pte_of ?m2 p j = 0" if "j < 512" for j
    using same_off_agree[OF o2, of "{p}"] al assms(3) ppg pte_of_agree[OF _ al that]
      pte_of_zeroed[OF al that] by auto
  ultimately show thesis
    using p al o that[of p s1 "s1\<lparr>mem := ?m2\<rparr>"] pte_of_store[OF assms(3,5)] by auto
qed

text \<open>How a result below one entry extends to the whole table.\<close>

lemma graft_ok:
  assumes C: "page_aligned pg" "kids l m pg C" "i < 512"
    and N: "N = insert pg (\<Union>i\<in>{..<512}. C i)" "0 \<notin> N" "N \<inter> F = {}" "\<forall>q \<in> N \<union> F. page_aligned q"
    and M: "M \<subseteq> F" "pt_ok l s' c (C i \<union> M) (F - M)" "same_off (insert pg (C i \<union> M)) m (mem s')"
    and e: "\<And>j. j < 512 \<Longrightarrow> j \<noteq> i \<Longrightarrow> pte_of (mem s') pg j = pte_of m pg j"
      "pte_of (mem s') pg i AND 1 \<noteq> 0" "pte_of (mem s') pg i AND 14 = 0" "PTE2PA (pte_of (mem s') pg i) = c"
    and look: "\<And>va. PX (Suc l) va = i \<Longrightarrow> lookup l (mem s') c va = lookup (Suc l) m pg va"
  shows "pt_ok (Suc l) s' pg (N \<union> M) (F - M)" "same_off (N \<union> M) m (mem s')"
    "lookup (Suc l) (mem s') pg va = lookup (Suc l) m pg va"
proof -
  let ?D = "C i \<union> M"
  have other: "pte_of (mem s') pg j = pte_of m pg j \<and> agree (C j) m (mem s') \<and> ?D \<inter> C j = {}"
    if "j < 512" "j \<noteq> i" for j
  proof -
    have dj: "insert pg ?D \<inter> C j = {}"
      using kids_apart[OF C(2) that(1) C(3) that(2)] kids_root[OF C(2) that(1)] N(1,3) M(1) that(1)
      by auto
    moreover have "agree (C j) m (mem s')"
      using N(1,4) C(3) that(1) M(1) by (intro same_off_agree[OF M(3) dj]) auto
    ultimately show ?thesis using e(1) that by auto
  qed
  have "pg \<notin> ?D" using kids_root[OF C(2,3)] M(1) N(1,3) by auto
  moreover have "ptree l (mem s') (PTE2PA (pte_of (mem s') pg i)) ?D"
    using M(2) e(4) by (simp add: pt_ok_def)
  ultimately have "ptree (Suc l) (mem s') pg (insert pg (?D \<union> (\<Union>j\<in>{..<512} - {i}. C j)))"
    using other e by (intro ptree_graft[OF C]) auto
  moreover have "insert pg (?D \<union> (\<Union>j\<in>{..<512} - {i}. C j)) = N \<union> M"
    using N(1) C(3) by auto
  ultimately show "pt_ok (Suc l) s' pg (N \<union> M) (F - M)"
    using M(2) N(2,3) by (auto simp: pt_ok_def)
  show "lookup (Suc l) (mem s') pg va = lookup (Suc l) m pg va"
    using graft_lookup[OF C(2) _ e(2), of va] other e(4) look by auto
  show "same_off (N \<union> M) m (mem s')"
    using N(1) C(3) by (intro same_off_mono[OF M(3)]) auto
qed

definition walked :: "nat \<Rightarrow> addr \<Rightarrow> u64 \<Rightarrow> 'z kmem_scheme \<Rightarrow> addr set \<Rightarrow> addr set \<Rightarrow>
    addr \<Rightarrow> 'z kmem_scheme \<Rightarrow> addr set \<Rightarrow> bool" where
  "walked l pg va s N F a s' M \<longleftrightarrow> M \<subseteq> F \<and> pt_ok l s' pg (N \<union> M) (F - M)
    \<and> kmem_frame s s' \<and> same_off (N \<union> M) (mem s) (mem s')
    \<and> (\<forall>va'. lookup l (mem s') pg va' = lookup l (mem s) pg va')
    \<and> (if a = 0 then M = F else slot l (mem s') pg va = Some a)"

lemma walk_level_alloc:
  assumes "pt_ok l s pg N F"
  shows "\<exists>a s' M. walk_level l pg va True s = Ok a s' \<and> walked l pg va s N F a s' M"
  using assms
proof (induction l arbitrary: s pg N F)
  case 0
  then have "pg + 8 * PX 0 va \<noteq> 0"
    by (intro entry_neq_0 PX_less) (auto simp: pt_ok_def)
  then show ?case using 0
    by (intro exI[of _ "pg + 8 * PX 0 va"] exI[of _ s] exI[of _ "{}"]) (simp add: walked_def)
next
  case (Suc l)
  let ?i = "PX (Suc l) va"
  have i: "?i < 512" by (rule PX_less)
  obtain C where C: "page_aligned pg" "kids l (mem s) pg C" "N = insert pg (\<Union>i\<in>{..<512}. C i)"
    using Suc.prems ptree_SucE by (metis pt_ok_def)
  have F: "kmem_free s F" "N \<inter> F = {}" "0 \<notin> N" using Suc.prems by (auto simp: pt_ok_def)
  have al: "\<forall>q \<in> N \<union> F. page_aligned q" using pt_ok_aligned[OF Suc.prems] by blast
  note graft = graft_ok[OF C(1,2) i C(3) F(3,2) al]
  show ?case
  proof (cases "pte_of (mem s) pg ?i AND 1 = 0")
    case False
    let ?c = "PTE2PA (pte_of (mem s) pg ?i)"
    have "pt_ok l s ?c (C ?i) F"
      using kids_valid[OF C(2) i False] F C(3) i by (auto simp: pt_ok_def)
    from Suc.IH[OF this] obtain a s' M where IH: "walk_level l ?c va True s = Ok a s'"
        "walked l ?c va s (C ?i) F a s' M" by blast
    have w: "M \<subseteq> F" "pt_ok l s' ?c (C ?i \<union> M) (F - M)" "same_off (C ?i \<union> M) (mem s) (mem s')"
      using IH(2) by (auto simp: walked_def)
    have "(C ?i \<union> M) \<inter> {pg} = {}" using kids_root[OF C(2) i] w(1) F(2) C(3) by auto
    then have "agree {pg} (mem s) (mem s')"
      using al C(1,3) w(1) i by (intro same_off_agree[OF w(3)]) auto
    then have e: "pte_of (mem s') pg j = pte_of (mem s) pg j" if "j < 512" for j
      using pte_of_agree[OF _ C(1) that] by blast
    have look: "lookup l (mem s') ?c va' = lookup (Suc l) (mem s) pg va'" if "PX (Suc l) va' = ?i" for va'
      using that IH(2) False by (simp add: walked_def Let_def)
    have so: "same_off (insert pg (C ?i \<union> M)) (mem s) (mem s')"
      by (rule same_off_mono[OF w(3)]) auto
    have res: "pt_ok (Suc l) s' pg (N \<union> M) (F - M)" "same_off (N \<union> M) (mem s) (mem s')"
        "lookup (Suc l) (mem s') pg va' = lookup (Suc l) (mem s) pg va'" for va'
      using e i False kids_valid[OF C(2) i False] look
      by (auto intro!: graft[OF w(1,2) so] simp del: lookup.simps)
    have "slot (Suc l) (mem s') pg va = slot l (mem s') ?c va"
      using e[OF i] False by (simp add: Let_def)
    then have "walked (Suc l) pg va s N F a s' M"
      using res IH(2) by (auto simp: walked_def simp del: lookup.simps slot.simps)
    moreover have "walk_level (Suc l) pg va True s = Ok a s'"
      using IH(1) False by (simp add: Let_def pte_of_def)
    ultimately show ?thesis by blast
  next
    case inv: True
    show ?thesis
    proof (cases "F = {}")
      case True
      then have "kalloc s = Ok 0 s" using F(1) kmem_alloc.alloc_none by blast
      then have "walk_level (Suc l) pg va True s = Ok 0 s"
        using inv by (simp add: Let_def pte_of_def)
      moreover have "walked (Suc l) pg va s N F 0 s {}"
        using Suc.prems True by (simp add: walked_def)
      ultimately show ?thesis by blast
    next
      case False
      have pgF: "pg \<notin> F" using C(3) F(2) by auto
      from alloc_table[OF F(1) False C(1) this i] obtain p s1 s2 where
        p: "kalloc s = Ok p s1" "p \<in> F" "p \<noteq> 0" "page_aligned p"
          "s2 = s1\<lparr>mem := store64 (fill_bytes (mem s1) p 0 4096) (pg + 8 * ?i) (PA2PTE p OR 1)\<rparr>"
          "kmem_free s2 (F - {p})" "same_off {p, pg} (mem s) (mem s2)" "kmem_frame s s2"
          "\<And>j. j < 512 \<Longrightarrow> pte_of (mem s2) pg j = (if j = ?i then PA2PTE p OR 1 else pte_of (mem s) pg j)"
          "\<And>j. j < 512 \<Longrightarrow> pte_of (mem s2) p j = 0"
        by blast
      have "pt_ok l s2 p {p} (F - {p})"
        using ptree_zeroed(1)[OF p(4)] p(3,6,10) by (auto simp: pt_ok_def)
      from Suc.IH[OF this] obtain a s' M where IH: "walk_level l p va True s2 = Ok a s'"
          "walked l p va s2 {p} (F - {p}) a s' M" by blast
      have w: "M \<subseteq> F - {p}" "pt_ok l s' p (insert p M) (F - {p} - M)"
          "same_off (insert p M) (mem s2) (mem s')"
        using IH(2) by (auto simp: walked_def)
      have "insert p M \<inter> {pg} = {}" using p(2) w(1) pgF by auto
      then have "agree {pg} (mem s2) (mem s')"
        using al w(1) C(1) p(4) by (intro same_off_agree[OF w(3)]) auto
      then have e: "pte_of (mem s') pg j = (if j = ?i then PA2PTE p OR 1 else pte_of (mem s) pg j)"
        if "j < 512" for j
        using pte_of_agree[OF _ C(1) that] p(9)[OF that] by metis
      have Ci: "C ?i = {}" by (rule kids_invalid[OF C(2) i inv])
      have sets: "F - insert p M = F - {p} - M" "C ?i \<union> insert p M = insert p M" using Ci by auto
      have so: "same_off (insert pg (C ?i \<union> insert p M)) (mem s) (mem s')"
        using same_off_trans[OF p(7) w(3)] Ci by (elim same_off_mono) auto
      have look: "lookup l (mem s') p va' = lookup (Suc l) (mem s) pg va'" if "PX (Suc l) va' = ?i" for va'
        using IH(2) ptree_zeroed(2)[OF p(4), of "mem s2"] p(10) inv that
        by (simp add: Let_def walked_def)
      have ins: "insert p M \<subseteq> F" using p(2) w(1) by auto
      have ok: "pt_ok l s' p (C ?i \<union> insert p M) (F - insert p M)" using w(2) sets by simp
      have res: "pt_ok (Suc l) s' pg (N \<union> insert p M) (F - insert p M)"
          "same_off (N \<union> insert p M) (mem s) (mem s')"
          "lookup (Suc l) (mem s') pg va' = lookup (Suc l) (mem s) pg va'" for va'
        using e i table_entry_no_rwx PTE2PA_table[OF p(4)] look
        by (auto intro!: graft[OF ins ok so] simp del: lookup.simps Un_insert_right)
      have "slot (Suc l) (mem s') pg va = slot l (mem s') p va"
        using e[OF i] PTE2PA_table[OF p(4)] by (simp add: Let_def)
      then have "walked (Suc l) pg va s N F a s' (insert p M)"
        using res IH(2) p(2) kmem_frame_trans[OF p(8)] ins by (auto simp: walked_def simp del: lookup.simps slot.simps)
      moreover have "walk_level (Suc l) pg va True s = Ok a s'"
        using IH(1) inv p(1,3,4,5) by (simp add: Let_def pte_of_def)
      ultimately show ?thesis by blast
    qed
  qed
qed

section \<open>Storing a leaf entry\<close>

lemma leaf_store:
  assumes "ptree l m pg N" "slot l m pg va = Some a"
  shows "ptree l (store64 m a v) pg N" "same_off N m (store64 m a v)"
    "lookup l (store64 m a v) pg va' = (if \<forall>k\<le>l. PX k va' = PX k va
       then (if v AND 1 \<noteq> 0 then Some v else None) else lookup l m pg va')"
proof -
  have "ptree l (store64 m a v) pg N \<and> same_off N m (store64 m a v)
    \<and> lookup l (store64 m a v) pg va' = (if \<forall>k\<le>l. PX k va' = PX k va
       then (if v AND 1 \<noteq> 0 then Some v else None) else lookup l m pg va')"
    using assms
  proof (induction l arbitrary: pg N)
    case 0
    then have pg: "page_aligned pg" "N = {pg}" "a = pg + 8 * PX 0 va" by auto
    then show ?case
      using same_off_store[OF pg(1) PX_less] pte_of_store[OF pg(1) PX_less PX_less]
      by (auto simp: Let_def)
  next
    case (Suc l)
    let ?i = "PX (Suc l) va" and ?m = "store64 m a v"
    have i: "?i < 512" by (rule PX_less)
    obtain C where C: "page_aligned pg" "kids l m pg C" "N = insert pg (\<Union>i\<in>{..<512}. C i)"
      using Suc.prems(1) by (rule ptree_SucE)
    have valid: "pte_of m pg ?i AND 1 \<noteq> 0" and sl: "slot l m (PTE2PA (pte_of m pg ?i)) va = Some a"
      using Suc.prems(2) by (auto simp: Let_def split: if_splits)
    let ?c = "PTE2PA (pte_of m pg ?i)"
    note kid = kids_valid[OF C(2) i valid]
    have IH: "ptree l ?m ?c (C ?i)" "same_off (C ?i) m ?m"
      "lookup l ?m ?c va' = (if \<forall>k\<le>l. PX k va' = PX k va
         then (if v AND 1 \<noteq> 0 then Some v else None) else lookup l m ?c va')"
      using Suc.IH[OF _ sl] kid by auto
    have al: "\<forall>q \<in> N. page_aligned q" using ptree_pages[OF Suc.prems(1)] by blast
    have ag: "agree Q m ?m" if "Q \<inter> C ?i = {}" "Q \<subseteq> N" for Q
      using al that C(3) i by (intro same_off_agree[OF IH(2)]) auto
    have e: "pte_of ?m pg j = pte_of m pg j" if "j < 512" for j
      using pte_of_agree[OF ag C(1) that] kids_root[OF C(2) i] C(3) by auto
    have other: "pte_of ?m pg j = pte_of m pg j \<and> agree (C j) m ?m \<and> C ?i \<inter> C j = {}"
      if "j < 512" "j \<noteq> ?i" for j
      using e[OF that(1)] ag[of "C j"] kids_apart[OF C(2) i that(1)] that C(3) by auto
    have "ptree (Suc l) ?m pg (insert pg (C ?i \<union> (\<Union>j\<in>{..<512} - {?i}. C j)))"
      using other e[OF i] kid IH(1) valid kids_root[OF C(2) i] by (intro ptree_graft[OF C(1,2) i]) auto
    moreover have "insert pg (C ?i \<union> (\<Union>j\<in>{..<512} - {?i}. C j)) = N"
      using C(3) i by auto
    moreover have "same_off N m ?m" using C(3) i by (intro same_off_mono[OF IH(2)]) auto
    moreover have "lookup (Suc l) ?m pg va' =
        (if PX (Suc l) va' = ?i then lookup l ?m ?c va' else lookup (Suc l) m pg va')"
      using graft_lookup[OF C(2), of ?i ?m va'] other valid e[OF i] by auto
    ultimately show ?case
      using IH(3) valid by (auto simp: le_Suc_eq Let_def)
  qed
  then show "ptree l (store64 m a v) pg N" "same_off N m (store64 m a v)"
    "lookup l (store64 m a v) pg va' = (if \<forall>k\<le>l. PX k va' = PX k va
       then (if v AND 1 \<noteq> 0 then Some v else None) else lookup l m pg va')"
    by auto
qed

section \<open>Page numbers\<close>

text \<open>The 39 bits a walk looks at; \<^verbatim>\<open>MAXVA\<close> is one bit less.\<close>

abbreviation (input) SV39_END :: u64 where "SV39_END \<equiv> 0x8000000000"

definition pn :: "u64 \<Rightarrow> nat" where
  "pn va = unat va div 4096"

lemma pn_drop_bit: "pn va = unat (drop_bit 12 va)"
  by (simp add: pn_def drop_bit_eq_div unat_div)

lemma PX_bit: "bit (PX k va) n \<longleftrightarrow> n < 9 \<and> bit va (12 + 9 * k + n)"
proof -
  have "PX k va = take_bit 9 (drop_bit (12 + 9 * k) va)"
    by (simp add: PX_def take_bit_eq_mask mask_eq_exp_minus_1)
  then show ?thesis by (simp add: bit_simps)
qed

lemma same_page_PX:
  assumes "va < SV39_END" "va' < SV39_END"
  shows "(\<forall>k\<le>2. PX k va' = PX k va) \<longleftrightarrow> pn va' = pn va"
proof
  assume h: "\<forall>k\<le>2. PX k va' = PX k va"
  have hi: "\<not> bit x n" if "x < SV39_END" "39 \<le> n" for x :: u64 and n
    using bit_high[of x 39 n] that by (simp add: word_less_nat_alt)
  have "drop_bit 12 va' = drop_bit 12 va"
  proof (rule bit_word_eqI)
    fix n assume "n < LENGTH(64)"
    have *: "bit va' (12 + 9 * k + j) = bit va (12 + 9 * k + j)" if "k \<le> 2" "j < 9" for k j
      using h that PX_bit[of k va j] PX_bit[of k va' j] by auto
    have "bit va' (12 + n) = bit va (12 + n)"
    proof (cases "n < 27")
      case True
      have "n div 9 \<le> 2" using True by (simp add: less_mult_imp_div_less less_Suc_eq_le[symmetric])
      moreover have "12 + 9 * (n div 9) + n mod 9 = 12 + n" by simp
      ultimately show ?thesis using *[of "n div 9" "n mod 9"] by (metis mod_less_divisor zero_less_numeral)
    next
      case False
      then show ?thesis using hi assms by simp
    qed
    then show "bit (drop_bit 12 va') n = bit (drop_bit 12 va) n"
      by (simp add: bit_simps)
  qed
  then show "pn va' = pn va" by (simp add: pn_drop_bit)
next
  assume "pn va' = pn va"
  then have "drop_bit 12 va' = drop_bit 12 va" by (simp add: pn_drop_bit word_unat_eq_iff)
  then have "drop_bit (12 + 9 * k) va' = drop_bit (12 + 9 * k) va" for k
    using drop_bit_drop_bit[of "9 * k" 12 va] drop_bit_drop_bit[of "9 * k" 12 va']
    by (simp add: add.commute)
  then show "\<forall>k\<le>2. PX k va' = PX k va" by (simp add: PX_def)
qed

text \<open>The user's view of a page table: the valid leaf entry of an address, if any.\<close>

definition umap :: "memory \<Rightarrow> addr \<Rightarrow> u64 \<Rightarrow> u64 option" where
  "umap m pt va = (if va < SV39_END then lookup 2 m pt va else None)"

lemma leaf_store_umap:
  assumes "ptree 2 m pt N" "slot 2 m pt va = Some a" "va < MAXVA"
  shows "umap (store64 m a v) pt = (\<lambda>x. if pn x = pn va
     then (if v AND 1 \<noteq> 0 then Some v else None) else umap m pt x)"
proof
  fix x
  show "umap (store64 m a v) pt x = (if pn x = pn va
     then (if v AND 1 \<noteq> 0 then Some v else None) else umap m pt x)"
  proof (cases "x < SV39_END")
    case True
    have "va < SV39_END" using assms(3) by (simp add: word_less_nat_alt)
    then show ?thesis
      using leaf_store(3)[OF assms(1,2)] same_page_PX[OF _ True] True by (auto simp: umap_def)
  next
    case False
    then have "134217728 \<le> pn x" "pn va < 134217728"
      using assms(3) div_le_mono[of 549755813888 "unat x" 4096]
      by (auto simp: pn_def word_less_nat_alt)
    then have "pn x \<noteq> pn va" by simp
    then show ?thesis using False by (simp add: umap_def)
  qed
qed

end
