(* ===== verification/Uvm.thy ===== *)
theory Uvm
  imports Pagetable
begin

text \<open>
  The operations of \<^verbatim>\<open>vm.c\<close> on whole address spaces, against the view \<open>umap\<close> of a page
  table as a partial map: what \<^verbatim>\<open>mappages\<close>, \<^verbatim>\<open>uvmunmap\<close>, \<^verbatim>\<open>uvmalloc\<close>, \<^verbatim>\<open>uvmdealloc\<close>, \<^verbatim>\<open>uvmcopy\<close>,
  \<^verbatim>\<open>uvmshare\<close>, \<^verbatim>\<open>uvmfree\<close>, \<^verbatim>\<open>copyin\<close> and \<^verbatim>\<open>copyout\<close> do to the map, to the contents of the mapped
  pages and to the set of free pages, on success and on failure.
\<close>

section \<open>Growing a page table\<close>

definition grown :: "'z kmem_scheme \<Rightarrow> addr \<Rightarrow> addr set \<Rightarrow> addr set \<Rightarrow> 'z kmem_scheme \<Rightarrow> addr set \<Rightarrow> bool" where
  "grown s pt N F s' M \<longleftrightarrow> M \<subseteq> F \<and> pt_ok 2 s' pt (N \<union> M) (F - M) \<and> kmem_frame s s'
     \<and> same_off (N \<union> M) (mem s) (mem s')"

lemma grown_refl: "pt_ok 2 s pt N F \<Longrightarrow> grown s pt N F s {}"
  by (simp add: grown_def)

lemma grown_trans:
  assumes "grown s pt N F s1 M1" "grown s1 pt (N \<union> M1) (F - M1) s2 M2"
  shows "grown s pt N F s2 (M1 \<union> M2)"
proof -
  have "F - M1 - M2 = F - (M1 \<union> M2)" "N \<union> M1 \<union> M2 = N \<union> (M1 \<union> M2)" by auto
  moreover have "same_off (N \<union> M1 \<union> (N \<union> M1 \<union> M2)) (mem s) (mem s2)"
    using same_off_trans[of "N \<union> M1" _ "mem s1" "N \<union> M1 \<union> M2"] assms unfolding grown_def by blast
  moreover have "N \<union> M1 \<union> (N \<union> M1 \<union> M2) = N \<union> (M1 \<union> M2)" by auto
  ultimately show ?thesis
    using assms kmem_frame_trans[of s s1 s2] by (auto simp: grown_def)
qed

lemma pt_ok_store:
  assumes "pt_ok 2 s pt N F" "slot 2 (mem s) pt va = Some a"
  shows "grown s pt N F (s\<lparr>mem := store64 (mem s) a v\<rparr>) {}"
proof -
  note st = leaf_store[OF _ assms(2), of N v]
  have t: "ptree 2 (mem s) pt N" "N \<inter> F = {}" "kmem_free s F" "0 \<notin> N"
    using assms(1) by (auto simp: pt_ok_def)
  have "agree F (mem s) (store64 (mem s) a v)"
    using st(2)[OF t(1)] t pt_ok_aligned[OF assms(1)] by (intro same_off_agree) auto
  then show ?thesis
    using st(1,2)[OF t(1)] t kmem_free_agree[OF t(3)] by (auto simp: grown_def pt_ok_def)
qed

lemma umap_slot:
  assumes "slot 2 m pt va = Some a" "va < MAXVA"
  shows "umap m pt va = (if load64 m a AND 1 \<noteq> 0 then Some (load64 m a) else None)"
  using assms lookup_slot[of 2 m pt va] by (simp add: umap_def word_less_nat_alt)

lemma umap_no_slot: "slot 2 m pt va = None \<Longrightarrow> umap m pt va = None"
  using lookup_slot[of 2 m pt va] by (simp add: umap_def)

lemma walk_find:
  "va < MAXVA \<Longrightarrow> walk pt va False s = Ok (case slot 2 (mem s) pt va of None \<Rightarrow> 0 | Some a \<Rightarrow> a) s"
  by (simp add: walk_def walk_level_find)

lemma slot_nonzero:
  "ptree l m pg N \<Longrightarrow> 0 \<notin> N \<Longrightarrow> slot l m pg va = Some a \<Longrightarrow> a \<noteq> 0"
proof (induction l arbitrary: pg N)
  case 0
  then show ?case using entry_neq_0[of pg "PX 0 va"] PX_less by auto
next
  case (Suc l)
  obtain C where C: "page_aligned pg" "kids l m pg C" "N = insert pg (\<Union>i\<in>{..<512}. C i)"
    using Suc.prems(1) by (rule ptree_SucE)
  let ?i = "PX (Suc l) va"
  have v: "pte_of m pg ?i AND 1 \<noteq> 0" "slot l m (PTE2PA (pte_of m pg ?i)) va = Some a"
    using Suc.prems(3) by (auto simp: Let_def split: if_splits)
  show ?case
    using Suc.IH[OF _ _ v(2), of "C ?i"] kids_valid[OF C(2) PX_less v(1)] Suc.prems(2) C(3) PX_less[of "Suc l" va]
    by auto
qed

lemma walk_alloc:
  assumes "pt_ok 2 s pt N F" "va < MAXVA"
  shows "\<exists>a s' M. walk pt va True s = Ok a s' \<and> grown s pt N F s' M \<and> umap (mem s') pt = umap (mem s) pt
    \<and> (if a = 0 then M = F else slot 2 (mem s') pt va = Some a)"
proof -
  obtain a s' M where "walk_level 2 pt va True s = Ok a s'" "walked 2 pt va s N F a s' M"
    using walk_level_alloc[OF assms(1)] by blast
  then show ?thesis
    using assms(2) by (intro exI[of _ a] exI[of _ s'] exI[of _ M])
      (auto simp: walk_def walked_def grown_def umap_def)
qed

section \<open>Mapping a range\<close>

definition map_range :: "(u64 \<Rightarrow> u64 option) \<Rightarrow> u64 \<Rightarrow> nat \<Rightarrow> u64 \<Rightarrow> u64 \<Rightarrow> (u64 \<Rightarrow> u64 option)" where
  "map_range f va n pa perm = (\<lambda>x. if pn va \<le> pn x \<and> pn x < pn va + n
     then Some (PA2PTE (pa + 4096 * of_nat (pn x - pn va)) OR perm OR PTE_V) else f x)"

lemma map_range_0 [simp]: "map_range f va 0 pa perm = f"
  by (rule ext) (auto simp: map_range_def)

lemma pn_next: "page_aligned a \<Longrightarrow> unat a + 4096 < 2 ^ 64 \<Longrightarrow> pn (a + 4096) = Suc (pn a)"
  using unat_plus_of_nat[of a 4096] by (simp add: pn_def page_aligned_def)

lemma map_range_Suc:
  assumes "page_aligned a" "unat a + 4096 < 2 ^ 64"
  shows "map_range (\<lambda>x. if pn x = pn a then Some (PA2PTE pa OR perm OR 1) else f x) (a + 4096) j (pa + 4096) perm
     = map_range f a (Suc j) pa perm"
proof
  fix x
  show "map_range (\<lambda>x. if pn x = pn a then Some (PA2PTE pa OR perm OR 1) else f x) (a + 4096) j (pa + 4096) perm x
     = map_range f a (Suc j) pa perm x"
  proof (cases "pn a < pn x")
    case True
    then have "pn x - pn a = Suc (pn x - Suc (pn a))" by simp
    then show ?thesis using True pn_next[OF assms] by (auto simp: map_range_def algebra_simps)
  next
    case False
    then show ?thesis using pn_next[OF assms] by (auto simp: map_range_def)
  qed
qed

lemma mappages_step:
  assumes "pt_ok 2 s pt N F" "a < MAXVA" "umap (mem s) pt a = None"
  shows "\<exists>s' M. grown s pt N F s' M \<and>
    (mappages_loop (Suc n) pt a lst pa perm s = Ok (-1) s' \<and> M = F \<and> umap (mem s') pt = umap (mem s) pt
    \<or> mappages_loop (Suc n) pt a lst pa perm s =
        (if a = lst then Ok 0 s' else mappages_loop n pt (a + 4096) lst (pa + 4096) perm s')
      \<and> umap (mem s') pt = (\<lambda>x. if pn x = pn a then Some (PA2PTE pa OR perm OR 1) else umap (mem s) pt x))"
proof -
  obtain b s1 M where w: "walk pt a True s = Ok b s1" "grown s pt N F s1 M"
      "umap (mem s1) pt = umap (mem s) pt" "if b = 0 then M = F else slot 2 (mem s1) pt a = Some b"
    using walk_alloc[OF assms(1,2)] by blast
  show ?thesis
  proof (cases "b = 0")
    case True
    then show ?thesis using w by (intro exI[of _ s1] exI[of _ M]) auto
  next
    case False
    then have sl: "slot 2 (mem s1) pt a = Some b" using w(4) by simp
    have inv: "load64 (mem s1) b AND 1 = 0"
      using umap_slot[OF sl assms(2)] w(3) assms(3) by (auto split: if_splits)
    let ?s2 = "s1\<lparr>mem := store64 (mem s1) b (PA2PTE pa OR perm OR 1)\<rparr>"
    have ok1: "pt_ok 2 s1 pt (N \<union> M) (F - M)" using w(2) by (simp add: grown_def)
    have "grown s pt N F ?s2 M"
      using grown_trans[OF w(2) pt_ok_store[OF ok1 sl]] by simp
    moreover have "umap (mem ?s2) pt = (\<lambda>x. if pn x = pn a then Some (PA2PTE pa OR perm OR 1) else umap (mem s) pt x)"
      using leaf_store_umap[OF _ sl assms(2), of "N \<union> M"] ok1 w(3) by (auto simp: pt_ok_def fun_eq_iff)
    ultimately show ?thesis
      using w(1) False inv by (intro exI[of _ ?s2] exI[of _ M]) (auto simp: Let_def)
  qed
qed

declare mappages_loop.simps(2) [simp del]

lemma mappages_loop_maps:
  assumes "pt_ok 2 s pt N F" "page_aligned a" "unat lst = unat a + 4096 * n" "lst < MAXVA"
    "\<forall>x. pn a \<le> pn x \<and> pn x \<le> pn a + n \<longrightarrow> umap (mem s) pt x = None"
  shows "\<exists>r s' M j. mappages_loop (Suc n) pt a lst pa perm s = Ok r s' \<and> grown s pt N F s' M
    \<and> umap (mem s') pt = map_range (umap (mem s) pt) a j pa perm
    \<and> (r = 0 \<and> j = Suc n \<or> r = -1 \<and> j \<le> n \<and> M = F)"
  using assms
proof (induction n arbitrary: s N F a pa)
  case 0
  then have l: "lst = a" by (simp add: word_unat_eq_iff)
  obtain s' M where st: "grown s pt N F s' M"
    "mappages_loop (Suc 0) pt a lst pa perm s = Ok (-1) s' \<and> M = F \<and> umap (mem s') pt = umap (mem s) pt
    \<or> mappages_loop (Suc 0) pt a lst pa perm s = Ok 0 s'
      \<and> umap (mem s') pt = (\<lambda>x. if pn x = pn a then Some (PA2PTE pa OR perm OR 1) else umap (mem s) pt x)"
    using mappages_step[OF 0(1), of a 0 lst pa perm] 0(4,5) l by auto
  have one: "map_range f a (Suc 0) pa perm = (\<lambda>x. if pn x = pn a then Some (PA2PTE pa OR perm OR 1) else f x)" for f
    by (auto simp: map_range_def)
  show ?case
  proof (cases "mappages_loop (Suc 0) pt a lst pa perm s = Ok (-1) s'")
    case True
    then show ?thesis using st by (intro exI[of _ "-1"] exI[of _ s'] exI[of _ M] exI[of _ 0]) auto
  next
    case False
    then show ?thesis using st one by (intro exI[of _ 0] exI[of _ s'] exI[of _ M] exI[of _ "Suc 0"]) auto
  qed
next
  case (Suc n)
  have ov: "unat a + 4096 \<le> unat lst" using Suc.prems(3) by simp
  have na: "unat (a + 4096) = unat a + 4096" by (rule unat_next_page[OF ov])
  have ov': "unat a + 4096 < 2 ^ 64" using ov unat_less_64[of lst] by simp
  have "a < MAXVA" using Suc.prems(4) ov by (simp add: word_less_nat_alt)
  moreover have "umap (mem s) pt a = None" using Suc.prems(5) by auto
  ultimately obtain s1 M1 where st: "grown s pt N F s1 M1"
    "mappages_loop (Suc (Suc n)) pt a lst pa perm s = Ok (-1) s1 \<and> M1 = F \<and> umap (mem s1) pt = umap (mem s) pt
    \<or> mappages_loop (Suc (Suc n)) pt a lst pa perm s =
        (if a = lst then Ok 0 s1 else mappages_loop (Suc n) pt (a + 4096) lst (pa + 4096) perm s1)
      \<and> umap (mem s1) pt = (\<lambda>x. if pn x = pn a then Some (PA2PTE pa OR perm OR 1) else umap (mem s) pt x)"
    using mappages_step[OF Suc.prems(1), of a "Suc n" lst pa perm] by blast
  show ?case
  proof (cases "mappages_loop (Suc (Suc n)) pt a lst pa perm s = Ok (-1) s1 \<and> M1 = F
      \<and> umap (mem s1) pt = umap (mem s) pt")
    case True
    then show ?thesis using st(1)
      by (intro exI[of _ "-1"] exI[of _ s1] exI[of _ M1] exI[of _ 0]) simp
  next
    case False
    have "a \<noteq> lst" using ov by auto
    have st2: "mappages_loop (Suc (Suc n)) pt a lst pa perm s =
          mappages_loop (Suc n) pt (a + 4096) lst (pa + 4096) perm s1"
        "umap (mem s1) pt = (\<lambda>x. if pn x = pn a then Some (PA2PTE pa OR perm OR 1) else umap (mem s) pt x)"
      using st(2) False unfolding if_not_P[OF \<open>a \<noteq> lst\<close>] by blast+
    have pa: "page_aligned (a + 4096)" using Suc.prems(2) na by (simp add: page_aligned_def)
    have "pt_ok 2 s1 pt (N \<union> M1) (F - M1)" using st(1) by (simp add: grown_def)
    moreover have "unat lst = unat (a + 4096) + 4096 * n" using Suc.prems(3) na by simp
    moreover have "\<forall>x. pn (a + 4096) \<le> pn x \<and> pn x \<le> pn (a + 4096) + n \<longrightarrow> umap (mem s1) pt x = None"
      using Suc.prems(5) st2(2) pn_next[OF Suc.prems(2) ov'] by auto
    ultimately obtain r s2 M2 j where IH: "mappages_loop (Suc n) pt (a + 4096) lst (pa + 4096) perm s1 = Ok r s2"
        "grown s1 pt (N \<union> M1) (F - M1) s2 M2"
        "umap (mem s2) pt = map_range (umap (mem s1) pt) (a + 4096) j (pa + 4096) perm"
        "r = 0 \<and> j = Suc n \<or> r = -1 \<and> j \<le> n \<and> M2 = F - M1"
      using Suc.IH[of s1 "N \<union> M1" "F - M1" "a + 4096" "pa + 4096"] pa Suc.prems(4) by blast
    have "umap (mem s2) pt = map_range (umap (mem s) pt) a (Suc j) pa perm"
      unfolding IH(3) st2(2) by (rule map_range_Suc[OF Suc.prems(2) ov'])
    moreover have "r = 0 \<and> Suc j = Suc (Suc n) \<or> r = -1 \<and> Suc j \<le> Suc n \<and> M1 \<union> M2 = F"
      using IH(4) st(1) by (auto simp: grown_def)
    ultimately show ?thesis
      using IH(1) st2(1) grown_trans[OF st(1) IH(2)]
      by (intro exI[of _ r] exI[of _ s2] exI[of _ "M1 \<union> M2"] exI[of _ "Suc j"]) simp
  qed
qed

lemma mappages_maps_range:
  assumes "pt_ok 2 s pt N F" "page_aligned va" "unat siz = 4096 * Suc n" "unat va + unat siz \<le> 2 ^ 38"
    "\<forall>x. pn va \<le> pn x \<and> pn x \<le> pn va + n \<longrightarrow> umap (mem s) pt x = None"
  shows "\<exists>r s' M j. mappages pt va siz pa perm s = Ok r s' \<and> grown s pt N F s' M
    \<and> umap (mem s') pt = map_range (umap (mem s) pt) va j pa perm
    \<and> (r = 0 \<and> j = Suc n \<or> r = -1 \<and> j \<le> n \<and> M = F)"
proof -
  have siz: "page_aligned siz" using assms(3) by (simp add: page_aligned_def)
  have "unat (va + siz) = unat va + unat siz"
    using assms(4) by (simp add: unat_word_ariths)
  moreover have "4096 \<le> va + siz"
    using calculation assms(3) by (simp add: word_le_nat_alt)
  ultimately have lst: "unat (va + siz - 4096) = unat va + 4096 * n"
    using assms(3) by (simp add: unat_sub)
  then have "va + siz - 4096 < MAXVA"
    using assms(3,4) by (simp add: word_less_nat_alt)
  moreover have "siz \<noteq> 0" using assms(3) by auto
  moreover have "unat siz div 4096 = Suc n" using assms(3) by simp
  ultimately show ?thesis
    using mappages_loop_maps[OF assms(1,2) lst _ assms(5)] assms(2) siz
    by (simp add: mappages_def page_aligned_iff)
qed

lemma mappages_one:
  assumes "pt_ok 2 s pt N F" "page_aligned va" "va < MAXVA" "umap (mem s) pt va = None"
  obtains s' M where "mappages pt va 4096 pa perm s = Ok 0 s'" "grown s pt N F s' M"
      "umap (mem s') pt = (\<lambda>x. if pn x = pn va then Some (PA2PTE pa OR perm OR 1) else umap (mem s) pt x)"
  | s' where "mappages pt va 4096 pa perm s = Ok (-1) s'" "grown s pt N F s' F"
      "umap (mem s') pt = umap (mem s) pt"
proof -
  have m: "mappages pt va 4096 pa perm s = mappages_loop (Suc 0) pt va va pa perm s"
    using assms(2) by (simp add: mappages_def page_aligned_iff)
  show thesis
    using mappages_step[OF assms(1,3,4), of 0 va pa perm] that unfolding m by auto
qed

section \<open>Unmapping a range\<close>

lemma lookup_PX: "(\<And>k. k \<le> l \<Longrightarrow> PX k x = PX k y) \<Longrightarrow> lookup l m pg x = lookup l m pg y"
  by (induction l arbitrary: pg) (auto simp: Let_def)

lemma pn_less_SV39: "x < SV39_END \<longleftrightarrow> pn x < 134217728"
  by (auto simp: pn_def word_less_nat_alt)

lemma umap_pn: "pn x = pn y \<Longrightarrow> umap m pt x = umap m pt y"
proof (cases "x < SV39_END")
  case True
  assume pn: "pn x = pn y"
  then have "y < SV39_END" using True by (simp add: pn_less_SV39)
  then show ?thesis
    using True pn same_page_PX[OF True, of y] lookup_PX[of 2 y x m pt] by (simp add: umap_def)
qed (simp add: umap_def pn_less_SV39)

definition unmap_range :: "(u64 \<Rightarrow> u64 option) \<Rightarrow> nat \<Rightarrow> nat \<Rightarrow> (u64 \<Rightarrow> u64 option)" where
  "unmap_range f lo n = (\<lambda>x. if lo \<le> pn x \<and> pn x < lo + n then None else f x)"

text \<open>The page frames mapped in a range of page numbers.\<close>

definition frames :: "(u64 \<Rightarrow> u64 option) \<Rightarrow> nat \<Rightarrow> nat \<Rightarrow> addr set" where
  "frames f lo n = {PTE2PA e |x e. f x = Some e \<and> lo \<le> pn x \<and> pn x < lo + n}"

definition inj_frames :: "(u64 \<Rightarrow> u64 option) \<Rightarrow> nat \<Rightarrow> nat \<Rightarrow> bool" where
  "inj_frames f lo n \<longleftrightarrow> (\<forall>x y e e'. f x = Some e \<and> f y = Some e' \<and> lo \<le> pn x \<and> pn x < lo + n
     \<and> lo \<le> pn y \<and> pn y < lo + n \<and> PTE2PA e = PTE2PA e' \<longrightarrow> pn x = pn y)"

lemma unmap_range_0 [simp]: "unmap_range f lo 0 = f"
  by (rule ext) (auto simp: unmap_range_def)

lemma frames_0 [simp]: "frames f lo 0 = {}"
  by (auto simp: frames_def)

lemma pt_ok_elsewhere:
  assumes "pt_ok 2 s pt N F" "agree N (mem s) (mem s')" "kmem_free s' F'" "N \<inter> F' = {}"
  shows "pt_ok 2 s' pt N F'" "umap (mem s') pt = umap (mem s) pt"
    "slot 2 (mem s') pt va = slot 2 (mem s) pt va"
  using ptree_agree[OF _ assms(2), of 2 pt] assms by (auto simp: pt_ok_def umap_def fun_eq_iff)

lemma unmap_step:
  assumes "pt_ok 2 s pt N F" "a < MAXVA" "umap (mem s) pt a = Some e"
    "df \<Longrightarrow> ram_page (kend s) (PTE2PA e) \<and> PTE2PA e \<notin> N \<union> F"
  shows "\<exists>s'. uvmunmap_loop (Suc n) pt a e' df s = (if a < e' then uvmunmap_loop n pt (a + 4096) e' df s' else Ok () s)
    \<and> pt_ok 2 s' pt N (if df then insert (PTE2PA e) F else F) \<and> kmem_frame s s'
    \<and> umap (mem s') pt = (\<lambda>x. if pn x = pn a then None else umap (mem s) pt x)
    \<and> same_off (N \<union> (if df then {PTE2PA e} else {})) (mem s) (mem s')"
proof -
  obtain pte where sl: "slot 2 (mem s) pt a = Some pte"
    using umap_no_slot[of "mem s" pt a] assms(3) by fastforce
  have tr: "ptree 2 (mem s) pt N" "0 \<notin> N" "kmem_free s F" "N \<inter> F = {}" using assms(1) by (auto simp: pt_ok_def)
  have pte: "pte \<noteq> 0" "load64 (mem s) pte AND 1 \<noteq> 0" "load64 (mem s) pte = e"
    using slot_nonzero[OF tr(1,2) sl] umap_slot[OF sl assms(2)] assms(3) by (auto split: if_splits)
  obtain s1 where s1: "(if df then kfree (PTE2PA e) s else Ok () s) = Ok () s1" "kmem_frame s s1"
      "kmem_free s1 (if df then insert (PTE2PA e) F else F)"
      "same_off (if df then {PTE2PA e} else {}) (mem s) (mem s1)"
  proof (cases df)
    case True
    then show thesis using kmem_alloc.free_some[OF tr(3), of "PTE2PA e"] assms(4) that
      by (auto simp: same_off_only_page)
  qed (use tr(3) that in auto)
  have ag: "agree N (mem s) (mem s1)"
    using assms(4) pt_ok_aligned[OF assms(1)]
    by (intro same_off_agree[OF s1(4)]) auto
  note el = pt_ok_elsewhere[OF assms(1) ag s1(3)]
  have ok1: "pt_ok 2 s1 pt N (if df then insert (PTE2PA e) F else F)"
    using el(1) assms(4) tr(4) by auto
  have sl1: "slot 2 (mem s1) pt a = Some pte" using el(3) sl assms(4) tr(4) by auto
  have um1: "umap (mem s1) pt = umap (mem s) pt" using el(2) assms(4) tr(4) by auto
  let ?s2 = "s1\<lparr>mem := store64 (mem s1) pte 0\<rparr>"
  have g: "grown s1 pt N (if df then insert (PTE2PA e) F else F) ?s2 {}"
    by (rule pt_ok_store[OF ok1 sl1])
  have "umap (mem ?s2) pt = (\<lambda>x. if pn x = pn a then None else umap (mem s) pt x)"
    using leaf_store_umap[OF _ sl1 assms(2), of N 0] ok1 um1 by (auto simp: pt_ok_def fun_eq_iff)
  moreover have "same_off (N \<union> (if df then {PTE2PA e} else {})) (mem s) (mem ?s2)"
    using same_off_trans[OF s1(4), of N] g by (simp add: grown_def Un_commute)
  moreover have "uvmunmap_loop (Suc n) pt a e' df s =
      (if a < e' then uvmunmap_loop n pt (a + 4096) e' df ?s2 else Ok () s)"
    using walk_find[OF assms(2), of pt s] sl pte s1(1) by (cases df) simp_all
  ultimately show ?thesis
    using g s1(2) by (intro exI[of _ ?s2]) (auto simp: grown_def)
qed

definition released :: "'z kmem_scheme \<Rightarrow> addr \<Rightarrow> addr set \<Rightarrow> addr set \<Rightarrow> 'z kmem_scheme \<Rightarrow> addr set \<Rightarrow> bool" where
  "released s pt N F s' X \<longleftrightarrow> pt_ok 2 s' pt N (F \<union> X) \<and> kmem_frame s s' \<and> same_off (N \<union> X) (mem s) (mem s')"

lemma released_trans:
  assumes "released s pt N F s1 X" "released s1 pt N (F \<union> X) s2 Y"
  shows "released s pt N F s2 (X \<union> Y)"
proof -
  have "same_off (N \<union> X \<union> (N \<union> Y)) (mem s) (mem s2)"
    using same_off_trans[of "N \<union> X" _ "mem s1" "N \<union> Y"] assms unfolding released_def by blast
  moreover have "N \<union> X \<union> (N \<union> Y) = N \<union> (X \<union> Y)" by auto
  ultimately show ?thesis
    using assms kmem_frame_trans[of s s1 s2] by (simp add: released_def Un_assoc)
qed

lemma frames_step:
  assumes "\<And>x y. pn x = pn y \<Longrightarrow> f x = f y"
  shows "frames f (pn a) (Suc n) = (case f a of None \<Rightarrow> {} | Some e \<Rightarrow> {PTE2PA e})
     \<union> frames (\<lambda>x. if pn x = pn a then None else f x) (Suc (pn a)) n"
    (is "?L = ?A \<union> ?B")
proof (intro equalityI subsetI)
  fix p assume "p \<in> ?L"
  then obtain x e where x: "f x = Some e" "p = PTE2PA e" "pn a \<le> pn x" "pn x < pn a + Suc n"
    unfolding frames_def by blast
  show "p \<in> ?A \<union> ?B"
  proof (cases "pn x = pn a")
    case True
    then have "f a = Some e" using assms[OF True] x(1) by simp
    then show ?thesis using x(2) by simp
  next
    case False
    then have "p \<in> ?B" using x unfolding frames_def by (intro CollectI exI[of _ x] exI[of _ e]) simp
    then show ?thesis ..
  qed
next
  fix p assume "p \<in> ?A \<union> ?B"
  then consider e where "f a = Some e" "p = PTE2PA e" | "p \<in> ?B" by (auto split: option.splits)
  then show "p \<in> ?L"
  proof cases
    case 1
    then show ?thesis unfolding frames_def by (intro CollectI exI[of _ a] exI[of _ e]) simp
  next
    case 2
    then obtain x e where x: "(if pn x = pn a then None else f x) = Some e" "p = PTE2PA e"
        "Suc (pn a) \<le> pn x" "pn x < Suc (pn a) + n"
      unfolding frames_def by blast
    then show ?thesis unfolding frames_def by (intro CollectI exI[of _ x] exI[of _ e]) simp
  qed
qed

lemma unmap_range_step:
  "unmap_range (\<lambda>x. if pn x = k then None else f x) (Suc k) n = unmap_range f k (Suc n)"
  by (rule ext) (auto simp: unmap_range_def)

lemma unmap_loop:
  assumes "pt_ok 2 s pt N F" "page_aligned a" "unat e = unat a + 4096 * n" "unat e \<le> 2 ^ 38"
    "df \<Longrightarrow> inj_frames (umap (mem s) pt) (pn a) n"
    "df \<Longrightarrow> \<forall>p \<in> frames (umap (mem s) pt) (pn a) n. ram_page (kend s) p \<and> p \<notin> N \<union> F"
  shows "\<exists>s'. uvmunmap_loop n pt a e df s = Ok () s'
    \<and> released s pt N F s' (if df then frames (umap (mem s) pt) (pn a) n else {})
    \<and> umap (mem s') pt = unmap_range (umap (mem s) pt) (pn a) n"
  using assms
proof (induction n arbitrary: s F a)
  case 0
  then show ?case by (auto simp: released_def word_less_nat_alt)
next
  case (Suc n)
  let ?f = "umap (mem s) pt"
  have na: "unat (a + 4096) = unat a + 4096" using Suc.prems(3) by (intro unat_next_page[of a e]) simp
  have lt: "a < e" "a < MAXVA" using Suc.prems(3,4) by (auto simp: word_less_nat_alt)
  have al: "page_aligned (a + 4096)" using Suc.prems(2) na by (simp add: page_aligned_def)
  have pna: "pn (a + 4096) = Suc (pn a)" using Suc.prems(2) na by (simp add: pn_def page_aligned_def)
  have fr: "frames ?f (pn a) (Suc n) = (case ?f a of None \<Rightarrow> {} | Some e \<Rightarrow> {PTE2PA e})
     \<union> frames (\<lambda>x. if pn x = pn a then None else ?f x) (Suc (pn a)) n"
    using umap_pn by (rule frames_step)
  obtain s1 X where s1: "uvmunmap_loop (Suc n) pt a e df s = uvmunmap_loop n pt (a + 4096) e df s1"
      "released s pt N F s1 X" "umap (mem s1) pt = (\<lambda>x. if pn x = pn a then None else ?f x)"
      "X = (if df then (case ?f a of None \<Rightarrow> {} | Some e \<Rightarrow> {PTE2PA e}) else {})"
  proof (cases "?f a")
    case None
    have "?f x = None" if "pn x = pn a" for x using None umap_pn[OF that] by metis
    then have "?f = (\<lambda>x. if pn x = pn a then None else ?f x)" by auto
    moreover have "uvmunmap_loop (Suc n) pt a e df s = uvmunmap_loop n pt (a + 4096) e df s"
      using walk_find[OF lt(2), of pt s] None umap_slot[OF _ lt(2), of "mem s" pt] lt(1)
      by (auto split: option.splits if_splits)
    moreover have "released s pt N F s {}" using Suc.prems(1) by (simp add: released_def)
    ultimately show thesis using that[of s "{}"] None by simp
  next
    case (Some w)
    have "df \<Longrightarrow> ram_page (kend s) (PTE2PA w) \<and> PTE2PA w \<notin> N \<union> F"
      using Suc.prems(6) fr Some by simp
    from unmap_step[OF Suc.prems(1) lt(2) Some, of df n e, OF this] obtain s2 where s2:
        "uvmunmap_loop (Suc n) pt a e df s = uvmunmap_loop n pt (a + 4096) e df s2"
        "pt_ok 2 s2 pt N (if df then insert (PTE2PA w) F else F)" "kmem_frame s s2"
        "umap (mem s2) pt = (\<lambda>x. if pn x = pn a then None else ?f x)"
        "same_off (N \<union> (if df then {PTE2PA w} else {})) (mem s) (mem s2)"
      using lt(1) by auto
    then have "released s pt N F s2 (if df then {PTE2PA w} else {})"
      by (cases df) (simp_all add: released_def)
    then show thesis by (rule that[OF s2(1) _ s2(4)]) (cases df; simp add: Some)
  qed
  let ?g = "\<lambda>x. if pn x = pn a then None else ?f x"
  have "pt_ok 2 s1 pt N (F \<union> X)" "kend s1 = kend s" using s1(2) by (auto simp: released_def kmem_frame_def)
  moreover have "inj_frames (umap (mem s1) pt) (pn (a + 4096)) n" if df
    using Suc.prems(5)[OF that] unfolding s1(3) pna inj_frames_def by fastforce
  moreover have "\<forall>p \<in> frames (umap (mem s1) pt) (pn (a + 4096)) n. ram_page (kend s1) p \<and> p \<notin> N \<union> (F \<union> X)" if df
  proof
    fix p assume p: "p \<in> frames (umap (mem s1) pt) (pn (a + 4096)) n"
    then have "ram_page (kend s) p" "p \<notin> N \<union> F"
      using Suc.prems(6)[OF that] fr unfolding s1(3) pna by auto
    moreover have "p \<notin> X"
    proof
      assume "p \<in> X"
      then obtain w where w: "?f a = Some w" "p = PTE2PA w" using s1(4) by (auto split: if_splits option.splits)
      obtain x v where x: "?g x = Some v" "p = PTE2PA v" "Suc (pn a) \<le> pn x" "pn x < Suc (pn a) + n"
        using p unfolding s1(3) pna frames_def by blast
      have "pn x = pn a"
        using Suc.prems(5)[OF that] w x unfolding inj_frames_def
        by (metis (mono_tags, lifting) Suc_leD add_Suc add_Suc_right le_add1 le_refl less_add_Suc1 option.distinct(1))
      then show False using x by simp
    qed
    ultimately show "ram_page (kend s1) p \<and> p \<notin> N \<union> (F \<union> X)"
      using \<open>kend s1 = kend s\<close> by simp
  qed
  ultimately obtain s' where IH: "uvmunmap_loop n pt (a + 4096) e df s1 = Ok () s'"
      "released s1 pt N (F \<union> X) s' (if df then frames (umap (mem s1) pt) (pn (a + 4096)) n else {})"
      "umap (mem s') pt = unmap_range (umap (mem s1) pt) (pn (a + 4096)) n"
    using Suc.IH[of s1 "F \<union> X" "a + 4096"] al Suc.prems(3,4) na by auto
  have "X \<union> (if df then frames (umap (mem s1) pt) (pn (a + 4096)) n else {}) = (if df then frames ?f (pn a) (Suc n) else {})"
    unfolding s1(3,4) pna fr by simp
  moreover have "umap (mem s') pt = unmap_range ?f (pn a) (Suc n)"
    unfolding IH(3) s1(3) pna by (rule unmap_range_step)
  moreover have "uvmunmap_loop (Suc n) pt a e df s = Ok () s'" unfolding s1(1) by (rule IH(1))
  ultimately show ?case
    using released_trans[OF s1(2) IH(2)] by (intro exI[of _ s'] conjI) simp_all
qed

text \<open>
  When may \<^verbatim>\<open>uvmunmap(..., 1)\<close> free the frames of a range: they are pages of RAM, mapped
  once in the range, and neither free already nor in use as table pages.
\<close>

definition freeable :: "'z kmem_scheme \<Rightarrow> addr \<Rightarrow> addr set \<Rightarrow> nat \<Rightarrow> nat \<Rightarrow> bool" where
  "freeable s pt NF lo n \<longleftrightarrow> inj_frames (umap (mem s) pt) lo n
     \<and> (\<forall>p \<in> frames (umap (mem s) pt) lo n. ram_page (kend s) p \<and> p \<notin> NF)"

lemma uvmunmap_range:
  assumes "pt_ok 2 s pt N F" "page_aligned va" "unat va + 4096 * unat npages \<le> 2 ^ 38"
    "df \<Longrightarrow> freeable s pt (N \<union> F) (pn va) (unat npages)"
  shows "\<exists>s'. uvmunmap pt va npages df s = Ok () s'
    \<and> released s pt N F s' (if df then frames (umap (mem s) pt) (pn va) (unat npages) else {})
    \<and> umap (mem s') pt = unmap_range (umap (mem s) pt) (pn va) (unat npages)"
proof -
  have "unat (npages * 4096) = unat npages * 4096"
    using assms(3) by (simp add: unat_word_ariths)
  then have e: "unat (va + npages * 4096) = unat va + 4096 * unat npages"
    using assms(3) by (simp add: unat_word_ariths)
  show ?thesis
    using unmap_loop[OF assms(1,2) e, of df] assms e
    by (simp add: uvmunmap_def page_aligned_iff freeable_def)
qed

lemma unat_npages:
  assumes "page_aligned a" "page_aligned b" "a \<le> b" "unat b \<le> 2 ^ 38"
  shows "unat (scast (ucast ((b - a) div 4096) :: 32 word) :: u64) = pn b - pn a"
proof -
  obtain j k where jk: "unat a = 4096 * j" "unat b = 4096 * k"
    using assms(1,2) unfolding page_aligned_def by (elim dvdE)
  have u: "unat ((b - a) div 4096) = k - j"
    using assms(3) jk by (simp add: unat_div unat_sub)
  have kj: "k - j < 2 ^ 31" using jk assms(4) by simp
  have "(ucast ((b - a) div 4096) :: 32 word) = of_nat (k - j)"
    by (simp flip: u)
  moreover have "(scast (of_nat (k - j) :: 32 word) :: u64) = of_nat (k - j)"
    using kj by (simp add: signed_of_nat signed_take_bit_int_eq_self)
  ultimately have "unat (scast (ucast ((b - a) div 4096) :: 32 word) :: u64) = k - j"
    using kj by (simp add: unsigned_of_nat take_bit_nat_eq_self)
  then show ?thesis using jk by (simp add: pn_def)
qed

section \<open>Placing new pages\<close>

text \<open>
  The steps \<^verbatim>\<open>uvmalloc\<close>, \<^verbatim>\<open>uvmcopy\<close> and \<^verbatim>\<open>vmfault\<close> share: allocate a frame, fill it (\<open>W\<close>), map it,
  and give the frame back when the mapping fails.
\<close>

definition place :: "addr \<Rightarrow> u64 \<Rightarrow> (memory \<Rightarrow> addr \<Rightarrow> memory) \<Rightarrow> u64 \<Rightarrow>
    ('z kmem_scheme \<Rightarrow> ('r, 'z kmem_scheme) outcome) \<Rightarrow>
    (addr \<Rightarrow> 'z kmem_scheme \<Rightarrow> ('r, 'z kmem_scheme) outcome) \<Rightarrow>
    'z kmem_scheme \<Rightarrow> ('r, 'z kmem_scheme) outcome" where
  "place pt va W perm err K s = bind (kalloc s) (\<lambda>pg s.
     if pg = 0 then err s
     else let s = s\<lparr>mem := W (mem s) pg\<rparr> in
       bind (mappages pt va 4096 pg perm s) (\<lambda>r s.
       if r \<noteq> 0 then bind (kfree pg s) (\<lambda>_ s. err s) else K pg s))"

text \<open>
  Relative to a state \<open>s0\<close> with table pages \<open>N\<close> and free pages \<open>F\<close>: the pages with numbers
  in \<open>A\<close> have been added, at the distinct formerly free frames \<open>g\<close>, with permissions \<open>p\<close> and
  contents \<open>c\<close>; \<open>M\<close> are the table pages this took, \<open>R\<close> the frames allocated and not yet mapped.
\<close>

definition laid_out :: "'z kmem_scheme \<Rightarrow> addr \<Rightarrow> addr set \<Rightarrow> addr set \<Rightarrow> nat set \<Rightarrow> (nat \<Rightarrow> addr) \<Rightarrow>
    (nat \<Rightarrow> u64) \<Rightarrow> (nat \<Rightarrow> u8 list) \<Rightarrow> 'z kmem_scheme \<Rightarrow> addr set \<Rightarrow> addr set \<Rightarrow> bool" where
  "laid_out s0 pt N F A g p c s M R \<longleftrightarrow> M \<subseteq> F \<and> inj_on g A \<and> g ` A \<subseteq> F - M - R \<and> R \<subseteq> F - M
     \<and> pt_ok 2 s pt (N \<union> M) (F - M - g ` A - R) \<and> kmem_frame s0 s \<and> same_off (N \<union> F) (mem s0) (mem s)
     \<and> umap (mem s) pt = (\<lambda>x. if pn x \<in> A then Some (PA2PTE (g (pn x)) OR p (pn x) OR PTE_V)
          else umap (mem s0) pt x)
     \<and> (\<forall>k \<in> A. read_bytes (mem s) (g k) 4096 = c k)"

lemma laid_out_start: "pt_ok 2 s pt N F \<Longrightarrow> laid_out s pt N F {} g p c s {} {}"
  by (simp add: laid_out_def)

lemma read_page_agree:
  assumes "agree {q} m m'" "page_aligned q"
  shows "read_bytes m' q 4096 = read_bytes m q 4096"
proof -
  have "in_page q (q + of_nat i)" if "i < 4096" for i
    using unat_plus_of_nat[of q i] page_end[OF assms(2)] that by (simp add: in_page_def)
  then show ?thesis using assms(1) by (auto simp: read_bytes_def agree_def)
qed

text \<open>Changes away from the table pages, the added frames and the free pages.\<close>

lemma laid_out_elsewhere:
  assumes "laid_out s0 pt N F A g p c s M R" "N \<inter> F = {}" "\<And>q. q \<in> N \<union> F \<Longrightarrow> page_aligned q"
    and "same_off X (mem s) (mem s')" "X \<subseteq> R \<union> R'" "R' \<subseteq> F - M" "R' \<inter> g ` A = {}"
      "kmem_free s' (F - M - g ` A - R')" "kmem_frame s s'"
  shows "laid_out s0 pt N F A g p c s' M R'"
proof -
  have l: "M \<subseteq> F" "inj_on g A" "g ` A \<subseteq> F - M - R" "R \<subseteq> F - M" "pt_ok 2 s pt (N \<union> M) (F - M - g ` A - R)"
      "kmem_frame s0 s" "same_off (N \<union> F) (mem s0) (mem s)" "\<forall>k \<in> A. read_bytes (mem s) (g k) 4096 = c k"
      "umap (mem s) pt = (\<lambda>x. if pn x \<in> A then Some (PA2PTE (g (pn x)) OR p (pn x) OR 1) else umap (mem s0) pt x)"
    using assms(1) by (auto simp: laid_out_def)
  have X: "X \<subseteq> F" "X \<inter> M = {}" "X \<inter> g ` A = {}" using assms(5,6,7) l(3,4) by blast+
  have ag: "agree Q (mem s) (mem s')" if "X \<inter> Q = {}" "Q \<subseteq> N \<union> F" for Q
    using that X(1) assms(3) by (intro same_off_agree[OF assms(4)]) auto
  have di: "X \<inter> (N \<union> M) = {}" "N \<union> M \<subseteq> N \<union> F" "(N \<union> M) \<inter> (F - M - g ` A - R') = {}"
    using X l(1) assms(2) by auto
  note el = pt_ok_elsewhere[OF l(5) ag[OF di(1,2)] assms(8) di(3)]
  have "read_bytes (mem s') (g k) 4096 = c k" if "k \<in> A" for k
  proof -
    have "g k \<in> F" "X \<inter> {g k} = {}" using l(3) X(3) that by auto
    then show ?thesis
      using read_page_agree[OF ag[of "{g k}"]] assms(3) l(8) that by auto
  qed
  moreover have "same_off (N \<union> F) (mem s0) (mem s')"
    using same_off_mono[OF same_off_trans[OF l(7) assms(4)], of "N \<union> F"] X(1) by auto
  moreover have "g ` A \<subseteq> F - M - R'" using l(3) assms(7) by auto
  ultimately show ?thesis
    unfolding laid_out_def el(2) using l el(1) assms(6) kmem_frame_trans[OF l(6) assms(9)] by blast
qed

lemma laid_out_take:
  assumes L: "laid_out s0 pt N F A g p c s M {}" and F: "pt_ok 2 s0 pt N F"
    and W: "\<And>pg m. pg \<in> F \<Longrightarrow> same_off (N \<union> F) (mem s0) m \<Longrightarrow> same_off {pg} m (W m pg)"
  obtains "kalloc s = Ok 0 s"
  | pg s1 where "kalloc s = Ok pg s1" "pg \<noteq> 0" "ram_page (kend s) pg" "pg \<in> F" "pg \<notin> g ` A" "pg \<notin> M"
      "same_off (N \<union> F) (mem s0) (mem s1)" "laid_out s0 pt N F A g p c (s1\<lparr>mem := W (mem s1) pg\<rparr>) M {pg}"
proof -
  let ?F = "F - M - g ` A"
  have kf: "kmem_free s ?F" and so: "same_off (N \<union> F) (mem s0) (mem s)"
    using L by (auto simp: laid_out_def pt_ok_def)
  have al: "page_aligned q" if "q \<in> N \<union> F" for q using pt_ok_aligned[OF F that] .
  have NF: "N \<inter> F = {}" using F by (simp add: pt_ok_def)
  show thesis
  proof (cases rule: kmem_alloc.alloc_cases[OF kf])
    case 1
    then show thesis using that(1) by blast
  next
    case (2 pg s1)
    have so1: "same_off {pg} (mem s) (mem s1)" using 2(6) by (simp add: same_off_only_page)
    have so2: "same_off (N \<union> F) (mem s0) (mem s1)"
      using same_off_mono[OF same_off_trans[OF so so1], of "N \<union> F"] 2(2) by auto
    have w: "same_off {pg} (mem s1) (W (mem s1) pg)" using W[OF _ so2] 2(2) by auto
    have "agree (?F - {pg}) (mem s1) (W (mem s1) pg)"
      using 2(2) al by (intro same_off_agree[OF w]) auto
    then have "kmem_free (s1\<lparr>mem := W (mem s1) pg\<rparr>) (?F - {pg})" by (rule kmem_free_agree[OF 2(5)])
    moreover have "same_off {pg} (mem s) (W (mem s1) pg)" using same_off_trans[OF so1 w] by simp
    ultimately have "laid_out s0 pt N F A g p c (s1\<lparr>mem := W (mem s1) pg\<rparr>) M {pg}"
      using 2(2,7) by (intro laid_out_elsewhere[OF L NF al, of "{pg}"]) auto
    then show thesis using that(2)[OF 2(1,3,4)] 2(2) so2 by auto
  qed
qed

lemma laid_out_map:
  assumes L: "laid_out s0 pt N F A g p c s M {pg}" and NF: "N \<inter> F = {}" "\<And>q. q \<in> N \<union> F \<Longrightarrow> page_aligned q"
    and va: "pn va \<notin> A" "read_bytes (mem s) pg 4096 = c (pn va)"
    and G: "grown s pt (N \<union> M) (F - M - g ` A - {pg}) s' M'"
      "umap (mem s') pt = (\<lambda>x. if pn x = pn va then Some (PA2PTE pg OR p (pn va) OR 1) else umap (mem s) pt x)"
  shows "laid_out s0 pt N F (insert (pn va) A) (g(pn va := pg)) p c s' (M \<union> M') {}"
proof -
  let ?k = "pn va" let ?g = "g(?k := pg)" and ?A = "insert ?k A"
  have l: "M \<subseteq> F" "inj_on g A" "g ` A \<subseteq> F - M - {pg}" "{pg} \<subseteq> F - M"
      "kmem_frame s0 s" "same_off (N \<union> F) (mem s0) (mem s)" "\<forall>k \<in> A. read_bytes (mem s) (g k) 4096 = c k"
      "umap (mem s) pt = (\<lambda>x. if pn x \<in> A then Some (PA2PTE (g (pn x)) OR p (pn x) OR 1) else umap (mem s0) pt x)"
    using L by (auto simp: laid_out_def)
  have g: "M' \<subseteq> F - M - g ` A - {pg}" "pt_ok 2 s' pt (N \<union> M \<union> M') (F - M - g ` A - {pg} - M')"
      "kmem_frame s s'" "same_off (N \<union> M \<union> M') (mem s) (mem s')"
    using G(1) by (auto simp: grown_def)
  have sets: "N \<union> (M \<union> M') = N \<union> M \<union> M'" "F - (M \<union> M') - ?g ` ?A - {} = F - M - g ` A - {pg} - M'"
    using va(1) by (auto simp: image_iff)
  have gi: "inj_on ?g ?A" "?g ` ?A \<subseteq> F - (M \<union> M') - {}"
    using l(2,3,4) g(1) va(1) by (auto simp: inj_on_def)
  have "read_bytes (mem s') (?g k) 4096 = c k" if "k \<in> ?A" for k
  proof -
    have q: "?g k \<in> F" "(N \<union> M \<union> M') \<inter> {?g k} = {}" using gi(2) that NF(1) by auto
    have "agree {?g k} (mem s) (mem s')"
      using q NF(2) l(1) g(1) by (intro same_off_agree[OF g(4)]) auto
    then have "read_bytes (mem s') (?g k) 4096 = read_bytes (mem s) (?g k) 4096"
      using q NF(2) by (intro read_page_agree) auto
    then show ?thesis using that l(7) va by auto
  qed
  moreover have "same_off (N \<union> F) (mem s0) (mem s')"
    using same_off_mono[OF same_off_trans[OF l(6) g(4)], of "N \<union> F"] l(1) g(1) by auto
  ultimately show ?thesis
    unfolding laid_out_def sets
    using gi g(1,2) l(1) kmem_frame_trans[OF l(5) g(3)] G(2) l(8) by (auto simp: fun_eq_iff)
qed

lemma laid_out_grow:
  assumes L: "laid_out s0 pt N F A g p c s M R" and NF: "N \<inter> F = {}" "\<And>q. q \<in> N \<union> F \<Longrightarrow> page_aligned q"
    and G: "grown s pt (N \<union> M) (F - M - g ` A - R) s' M'" "umap (mem s') pt = umap (mem s) pt"
  shows "laid_out s0 pt N F A g p c s' (M \<union> M') R"
proof -
  have l: "M \<subseteq> F" "inj_on g A" "g ` A \<subseteq> F - M - R" "R \<subseteq> F - M" "kmem_frame s0 s"
      "same_off (N \<union> F) (mem s0) (mem s)" "\<forall>k \<in> A. read_bytes (mem s) (g k) 4096 = c k"
      "umap (mem s) pt = (\<lambda>x. if pn x \<in> A then Some (PA2PTE (g (pn x)) OR p (pn x) OR 1) else umap (mem s0) pt x)"
    using L by (auto simp: laid_out_def)
  have g: "M' \<subseteq> F - M - g ` A - R" "pt_ok 2 s' pt (N \<union> M \<union> M') (F - M - g ` A - R - M')"
      "kmem_frame s s'" "same_off (N \<union> M \<union> M') (mem s) (mem s')"
    using G(1) by (auto simp: grown_def)
  have sets: "N \<union> (M \<union> M') = N \<union> M \<union> M'" "F - (M \<union> M') - g ` A - R = F - M - g ` A - R - M'"
    by auto
  have "read_bytes (mem s') (g k) 4096 = c k" if "k \<in> A" for k
  proof -
    have q: "g k \<in> F" "(N \<union> M \<union> M') \<inter> {g k} = {}" using l(3) g(1) that NF(1) by auto
    have "agree {g k} (mem s) (mem s')"
      using q NF(2) l(1) g(1) by (intro same_off_agree[OF g(4)]) auto
    then show ?thesis using read_page_agree[of "g k"] q NF(2) l(7) that by auto
  qed
  moreover have "same_off (N \<union> F) (mem s0) (mem s')"
    using same_off_mono[OF same_off_trans[OF l(6) g(4)], of "N \<union> F"] l(1) g(1) by auto
  moreover have "g ` A \<subseteq> F - (M \<union> M') - R" "R \<subseteq> F - (M \<union> M')" "M \<union> M' \<subseteq> F" using l g(1) by auto
  ultimately show ?thesis
    unfolding laid_out_def sets G(2) using g(2) l(2,8) kmem_frame_trans[OF l(5) g(3)] by blast
qed

lemma place_result:
  assumes L: "laid_out s0 pt N F A g p c s M {}" and F: "pt_ok 2 s0 pt N F"
    and va: "page_aligned va" "va < MAXVA" "pn va \<notin> A" "umap (mem s0) pt va = None"
    and W: "\<And>pg m. pg \<in> F \<Longrightarrow> same_off (N \<union> F) (mem s0) m \<Longrightarrow>
      same_off {pg} m (W m pg) \<and> read_bytes (W m pg) pg 4096 = c (pn va)"
  shows "(\<exists>s' M'. place pt va W (p (pn va)) err K s = err s' \<and> laid_out s0 pt N F A g p c s' M' {}) \<or>
    (\<exists>s' M' pg. place pt va W (p (pn va)) err K s = K pg s' \<and> pg \<noteq> 0
       \<and> laid_out s0 pt N F (insert (pn va) A) (g(pn va := pg)) p c s' M' {})"
proof -
  have NF: "N \<inter> F = {}" "\<And>q. q \<in> N \<union> F \<Longrightarrow> page_aligned q"
    using F pt_ok_aligned[OF F] by (auto simp: pt_ok_def)
  show ?thesis
  proof (rule laid_out_take[OF L F], use W in blast, goal_cases)
    case 1
    then show ?case using L by (auto simp: place_def)
  next
    case (2 pg s1)
    let ?s2 = "s1\<lparr>mem := W (mem s1) pg\<rparr>"
    have bd: "place pt va W (p (pn va)) err K s = bind (mappages pt va 4096 pg (p (pn va)) ?s2)
        (\<lambda>r s. if r \<noteq> 0 then bind (kfree pg s) (\<lambda>_ s. err s) else K pg s)"
      using 2(1,2) by (simp add: place_def)
    note L2 = 2(8)
    have ok2: "pt_ok 2 ?s2 pt (N \<union> M) (F - M - g ` A - {pg})" and un: "umap (mem ?s2) pt va = None"
      using L2 va(3,4) by (auto simp: laid_out_def)
    show ?case
    proof (rule mappages_one[OF ok2 va(1,2) un, of pg "p (pn va)"], goal_cases)
      case (1 s3 M3)
      have "read_bytes (mem ?s2) pg 4096 = c (pn va)" using W[OF 2(4,7)] by simp
      from laid_out_map[OF L2 NF va(3) this 1(2,3)]
      show ?case using bd 1(1) 2(2) by (intro disjI2 exI[of _ s3] exI[of _ "M \<union> M3"] exI[of _ pg]) simp
    next
      case (2 s3)
      have L3: "laid_out s0 pt N F A g p c s3 (M \<union> (F - M - g ` A - {pg})) {pg}"
        by (rule laid_out_grow[OF L2 NF 2(2,3)])
      let ?M = "M \<union> (F - M - g ` A - {pg})"
      have kf: "kmem_free s3 (F - ?M - g ` A - {pg})" and fr: "kmem_frame s0 s3"
        using L3 by (auto simp: laid_out_def pt_ok_def)
      have "kend s3 = kend s" using fr L by (auto simp: laid_out_def kmem_frame_def)
      then obtain s4 where s4: "kfree pg s3 = Ok () s4" "kmem_free s4 (insert pg (F - ?M - g ` A - {pg}))"
          "kmem_frame s3 s4" "same_off {pg} (mem s3) (mem s4)"
        using kmem_alloc.free_some[OF kf, of pg] \<open>ram_page (kend s) pg\<close> by (auto simp: same_off_only_page)
      have "insert pg (F - ?M - g ` A - {pg}) = F - ?M - g ` A - {}"
        using \<open>pg \<in> F\<close> \<open>pg \<notin> g ` A\<close> \<open>pg \<notin> M\<close> by auto
      then have "laid_out s0 pt N F A g p c s4 ?M {}"
        using s4 by (intro laid_out_elsewhere[OF L3 NF s4(4)]) auto
      then show ?case using bd 2(1) s4(1) by (intro disjI1 exI[of _ s4] exI[of _ ?M]) simp
    qed
  qed
qed

text \<open>Unmapping a range that holds exactly the added pages gives everything back.\<close>

lemma laid_out_undo:
  assumes L: "laid_out s0 pt N F A g p c s M {}" and F: "pt_ok 2 s0 pt N F"
    and A: "A \<subseteq> {pn va..<pn va + unat n}" "\<And>k. k \<in> A \<Longrightarrow> p k < 1024"
      "\<And>x. pn va \<le> pn x \<Longrightarrow> pn x < pn va + unat n \<Longrightarrow> umap (mem s0) pt x = None"
    and va: "page_aligned va" "unat va + 4096 * unat n \<le> 2 ^ 38"
  shows "\<exists>s'. uvmunmap pt va n True s = Ok () s' \<and> laid_out s0 pt N F {} g p c s' M {}"
proof -
  let ?f = "umap (mem s) pt"
  have l: "M \<subseteq> F" "inj_on g A" "g ` A \<subseteq> F - M" "pt_ok 2 s pt (N \<union> M) (F - M - g ` A)" "kmem_frame s0 s"
      "same_off (N \<union> F) (mem s0) (mem s)" and
      f: "?f = (\<lambda>x. if pn x \<in> A then Some (PA2PTE (g (pn x)) OR p (pn x) OR 1) else umap (mem s0) pt x)"
    using L by (auto simp: laid_out_def)
  have al: "page_aligned q" if "q \<in> N \<union> F" for q using pt_ok_aligned[OF F that] .
  have NF: "N \<inter> F = {}" and kf: "kmem_free s0 F" using F by (auto simp: pt_ok_def)
  have fa: "?f x = Some e \<longleftrightarrow> pn x \<in> A \<and> e = PA2PTE (g (pn x)) OR p (pn x) OR 1"
    if "pn va \<le> pn x" "pn x < pn va + unat n" for x e
    using A(3)[OF that] f by auto
  have pa: "PTE2PA (PA2PTE (g k) OR p k OR 1) = g k" if "k \<in> A" for k
    using that A(2) l(3) al by (intro PTE2PA_make) auto
  have ex: "\<exists>x. pn x = k" if "k \<in> A" for k
  proof -
    have "k < unat va div 4096 + unat n" using A(1) that by (auto simp: pn_def)
    then have "k * 4096 < 2 ^ 64" using va(2) by simp
    then have "pn (of_nat (k * 4096)) = k"
      by (simp add: pn_def unsigned_of_nat take_bit_nat_eq_self del: of_nat_mult)
    then show ?thesis ..
  qed
  have fr: "frames ?f (pn va) (unat n) = g ` A"
  proof (intro equalityI subsetI)
    fix q assume "q \<in> frames ?f (pn va) (unat n)"
    then show "q \<in> g ` A" using fa pa by (auto simp: frames_def)
  next
    fix q assume "q \<in> g ` A"
    then obtain k where k: "k \<in> A" "q = g k" by auto
    then obtain x where "pn x = k" using ex by blast
    then show "q \<in> frames ?f (pn va) (unat n)"
      using k A(1) fa[of x] pa[OF k(1)] unfolding frames_def
      by (intro CollectI exI[of _ x] exI[of _ "PA2PTE (g k) OR p k OR 1"]) auto
  qed
  have "inj_frames ?f (pn va) (unat n)"
    unfolding inj_frames_def using fa pa l(2) by (auto simp: inj_on_def)
  moreover have "ram_page (kend s) q" if "q \<in> g ` A" for q
  proof -
    have "q \<in> F" "kend s = kend s0" using that l(3,5) by (auto simp: kmem_frame_def)
    then show ?thesis using kmem_alloc.free_ram[OF kf] by simp
  qed
  ultimately have "freeable s pt (N \<union> M \<union> (F - M - g ` A)) (pn va) (unat n)"
    using l(3) NF by (auto simp: freeable_def fr)
  from uvmunmap_range[OF l(4) va, of True, OF this] obtain s' where
    s': "uvmunmap pt va n True s = Ok () s'" "released s pt (N \<union> M) (F - M - g ` A) s' (g ` A)"
      "umap (mem s') pt = unmap_range ?f (pn va) (unat n)"
    using fr by auto
  have sets: "F - M - g ` A \<union> g ` A = F - M - g ` {} - {}" using l(3) by auto
  have um: "umap (mem s') pt = umap (mem s0) pt"
    using f A(1,3) by (auto simp: s'(3) unmap_range_def fun_eq_iff)
  have "same_off (N \<union> F) (mem s0) (mem s')"
    using same_off_mono[OF same_off_trans[OF l(6), of "N \<union> M \<union> g ` A"], of "mem s'" "N \<union> F"] s'(2) l(1,3)
    by (auto simp: released_def)
  moreover have "pt_ok 2 s' pt (N \<union> M) (F - M - g ` {} - {})" "kmem_frame s0 s'"
    using s'(2) kmem_frame_trans[OF l(5)] unfolding released_def sets by auto
  ultimately have "laid_out s0 pt N F {} g p c s' M {}"
    using l(1) um by (simp add: laid_out_def)
  then show ?thesis using s'(1) by blast
qed

section \<open>Growing and shrinking a process\<close>

definition upn :: "u64 \<Rightarrow> nat" where
  "upn siz = (unat siz + 4095) div 4096"

lemma pn_PGROUNDUP: "unat siz \<le> 2 ^ 38 \<Longrightarrow> pn (PGROUNDUP siz) = upn siz"
  by (simp add: pn_def upn_def unat_PGROUNDUP)

lemma PGROUNDUP_bound: "unat siz \<le> 2 ^ 38 \<Longrightarrow> unat (PGROUNDUP siz) \<le> 2 ^ 38"
  by (simp add: unat_PGROUNDUP)

lemma PGROUNDUP_aligned: "page_aligned a \<Longrightarrow> unat a \<le> 2 ^ 38 \<Longrightarrow> PGROUNDUP a = a"
proof -
  assume a: "page_aligned a" "unat a \<le> 2 ^ 38"
  obtain k where "unat a = 4096 * k" using a(1) by (auto simp: page_aligned_def)
  then have "unat (PGROUNDUP a) = unat a" using a(2) by (simp add: unat_PGROUNDUP)
  then show ?thesis by (simp add: word_unat_eq_iff)
qed

lemma aligned_pn: "page_aligned a \<Longrightarrow> unat a = 4096 * pn a"
  by (simp add: page_aligned_def pn_def)

text \<open>\<^verbatim>\<open>uvmdealloc\<close> is \<^verbatim>\<open>uvmunmap\<close> of the pages between the two sizes.\<close>

lemma uvmdealloc_eq:
  assumes "newsz < oldsz" "unat oldsz \<le> 2 ^ 38"
  obtains n where "uvmdealloc pt oldsz newsz s =
      bind (uvmunmap pt (PGROUNDUP newsz) n True s) (\<lambda>_ s. Ok newsz s)" "unat n = upn oldsz - upn newsz"
    "unat (PGROUNDUP newsz) + 4096 * unat n \<le> 2 ^ 38"
proof -
  let ?a = "PGROUNDUP newsz" and ?b = "PGROUNDUP oldsz"
  have nb: "unat newsz \<le> 2 ^ 38" using assms by (simp add: word_less_nat_alt)
  have le: "\<not> oldsz \<le> newsz" using assms(1) by (simp add: not_le)
  note pa = pn_PGROUNDUP[OF nb] and pb = pn_PGROUNDUP[OF assms(2)]
  show thesis
  proof (cases "?a < ?b")
    case True
    let ?n = "scast (ucast ((?b - ?a) div 4096) :: 32 word) :: u64"
    have n: "unat ?n = pn ?b - pn ?a"
      using True PGROUNDUP_bound[OF assms(2)] by (intro unat_npages) auto
    have "uvmdealloc pt oldsz newsz s = bind (uvmunmap pt ?a ?n True s) (\<lambda>_ s. Ok newsz s)"
      using le True by (simp add: uvmdealloc_def Let_def)
    moreover have "unat ?a + 4096 * unat ?n \<le> 2 ^ 38"
      using n True PGROUNDUP_bound[OF assms(2)] aligned_pn[of ?a] aligned_pn[of ?b]
      by (simp add: word_less_nat_alt)
    ultimately show thesis using that[of ?n] n pa pb by simp
  next
    case False
    then have "uvmdealloc pt oldsz newsz s = bind (uvmunmap pt ?a 0 True s) (\<lambda>_ s. Ok newsz s)"
      using le page_aligned_PGROUNDUP[of newsz, unfolded page_aligned_iff]
      by (simp add: uvmdealloc_def uvmunmap_def)
    moreover have "upn oldsz \<le> upn newsz"
      using False pa pb aligned_pn[of ?a] aligned_pn[of ?b] by (simp add: word_less_nat_alt)
    ultimately show thesis using that[of 0] PGROUNDUP_bound[OF nb] by simp
  qed
qed

lemma read_zeroed: "page_aligned pg \<Longrightarrow> read_bytes (fill_bytes m pg 0 4096) pg 4096 = replicate 4096 0"
  using page_end[of pg] by (intro read_fill_inside) auto

lemma zero_page_W:
  assumes "page_aligned pg"
  shows "same_off {pg} m (memset m pg 0 4096) \<and> read_bytes (memset m pg 0 4096) pg 4096 = replicate 4096 0"
  using same_off_fill[of pg m 0] read_zeroed[OF assms] memset_page[OF assms] by simp

lemma aligned_less_iff:
  assumes "page_aligned a"
  shows "a < siz \<longleftrightarrow> pn a < upn siz"
proof -
  have "unat a < unat siz \<longleftrightarrow> pn a < (unat siz + 4095) div 4096"
    using aligned_pn[OF assms] by auto
  then show ?thesis by (simp add: upn_def word_less_nat_alt)
qed

lemma uvmalloc_loop_place:
  "a < newsz \<Longrightarrow> uvmalloc_loop (Suc n) pt a oldsz newsz xperm s =
     place pt a (\<lambda>m pg. memset m pg 0 4096) (PTE_R OR PTE_U OR xperm)
       (\<lambda>s. bind (uvmdealloc pt a oldsz s) (\<lambda>_ s. Ok 0 s))
       (\<lambda>pg s. uvmalloc_loop n pt (a + PGSIZE) oldsz newsz xperm s) s"
  by (simp add: place_def)

declare uvmalloc_loop.simps(2) [simp del]

lemma uvmdealloc_undo:
  assumes L: "laid_out s0 pt N F {pn old..<pn a} g p c s M {}" and F: "pt_ok 2 s0 pt N F"
    and a: "page_aligned old" "page_aligned a" "old \<le> a" "unat a \<le> 2 ^ 38"
    and p: "\<And>k. p k < 1024" "\<And>x. pn old \<le> pn x \<Longrightarrow> pn x < pn a \<Longrightarrow> umap (mem s0) pt x = None"
  shows "\<exists>r s'. uvmdealloc pt a old s = Ok r s' \<and> laid_out s0 pt N F {} g p c s' M {}"
proof (cases "old = a")
  case True
  then show ?thesis using L by (simp add: uvmdealloc_def)
next
  case False
  then have lt: "old < a" using a(3) by simp
  have ob: "unat old \<le> 2 ^ 38" using a(3,4) by (simp add: word_le_nat_alt)
  have u: "upn a = pn a" "upn old = pn old" "PGROUNDUP old = old"
    using pn_PGROUNDUP[OF a(4)] pn_PGROUNDUP[OF ob] PGROUNDUP_aligned a ob by auto
  obtain n where n: "uvmdealloc pt a old s = bind (uvmunmap pt old n True s) (\<lambda>_ s. Ok old s)"
      "unat n = pn a - pn old" "unat old + 4096 * unat n \<le> 2 ^ 38"
    using uvmdealloc_eq[OF lt a(4), of pt s] u by auto
  have "pn old \<le> pn a" using a(1-3) by (simp add: word_le_nat_alt aligned_pn)
  then have "\<exists>s'. uvmunmap pt old n True s = Ok () s' \<and> laid_out s0 pt N F {} g p c s' M {}"
    using n(2,3) p a(1) by (intro laid_out_undo[OF L F]) auto
  then show ?thesis using n(1) by auto
qed

lemma uvmalloc_loop_result:
  assumes L: "laid_out s0 pt N F {pn old..<pn a} g (\<lambda>_. perm) (\<lambda>_. replicate 4096 0) s M {}"
    and F: "pt_ok 2 s0 pt N F" and perm: "perm = PTE_R OR PTE_U OR xperm" "perm < 1024"
    and a: "page_aligned old" "page_aligned a" "old \<le> a" "unat newsz \<le> 2 ^ 38"
      "pn a \<le> upn newsz" "upn newsz \<le> pn a + n"
    and um: "\<And>x. pn old \<le> pn x \<Longrightarrow> pn x < upn newsz \<Longrightarrow> umap (mem s0) pt x = None"
  shows "(\<exists>s' g' M'. uvmalloc_loop n pt a old newsz xperm s = Ok newsz s' \<and>
      laid_out s0 pt N F {pn old..<upn newsz} g' (\<lambda>_. perm) (\<lambda>_. replicate 4096 0) s' M' {}) \<or>
    (\<exists>s' g' M'. uvmalloc_loop n pt a old newsz xperm s = Ok 0 s' \<and>
      laid_out s0 pt N F {} g' (\<lambda>_. perm) (\<lambda>_. replicate 4096 0) s' M' {})"
  using L a um
proof (induction n arbitrary: a g s M)
  case 0
  then have "\<not> a < newsz" "pn a = upn newsz" using aligned_less_iff[of a newsz] by auto
  then show ?case using 0(1) by auto
next
  case (Suc n)
  let ?P = "\<lambda>_ :: nat. perm" and ?C = "\<lambda>_ :: nat. replicate 4096 (0 :: u8)"
  show ?case
  proof (cases "a < newsz")
    case False
    then have "pn a = upn newsz" using aligned_less_iff[of a newsz] Suc.prems(3,6) by simp
    moreover have "uvmalloc_loop (Suc n) pt a old newsz xperm s = Ok newsz s"
      using False by (simp add: uvmalloc_loop.simps)
    ultimately show ?thesis using Suc.prems(1) by auto
  next
    case True
    have pl: "pn a < upn newsz" using True aligned_less_iff[of a newsz] Suc.prems(3) by simp
    have am: "a < MAXVA" using True Suc.prems(5) by (simp add: word_less_nat_alt)
    have ov: "unat a + 4096 < 2 ^ 64" using am by (simp add: word_less_nat_alt)
    have oa: "pn old \<le> pn a" using Suc.prems(2-4) by (simp add: word_le_nat_alt aligned_pn)
    have al: "page_aligned q" if "q \<in> F" for q using pt_ok_aligned[OF F] that by blast
    let ?err = "\<lambda>s. bind (uvmdealloc pt a old s) (\<lambda>_ s. Ok 0 s)"
    let ?K = "\<lambda>pg s. uvmalloc_loop n pt (a + PGSIZE) old newsz xperm s"
    let ?pl = "place pt a (\<lambda>m pg. memset m pg 0 4096) perm ?err ?K s"
    have res: "(\<exists>s' M'. ?pl = ?err s' \<and> laid_out s0 pt N F {pn old..<pn a} g ?P ?C s' M' {}) \<or>
      (\<exists>s' M' pg. ?pl = ?K pg s' \<and> pg \<noteq> 0 \<and>
         laid_out s0 pt N F (insert (pn a) {pn old..<pn a}) (g(pn a := pg)) ?P ?C s' M' {})"
      using am Suc.prems(3,8) pl oa zero_page_W al by (intro place_result[OF Suc.prems(1) F]) auto
    have eq: "uvmalloc_loop (Suc n) pt a old newsz xperm s = ?pl"
      using uvmalloc_loop_place[OF True] perm(1) by simp
    from res show ?thesis
    proof (elim disjE exE conjE)
      fix s1 M1 assume h: "?pl = ?err s1" "laid_out s0 pt N F {pn old..<pn a} g ?P ?C s1 M1 {}"
      have "\<exists>r s'. uvmdealloc pt a old s1 = Ok r s' \<and> laid_out s0 pt N F {} g ?P ?C s' M1 {}"
        using am pl perm(2) Suc.prems(2-4,8)
        by (intro uvmdealloc_undo[OF h(2) F]) (auto simp: word_less_nat_alt)
      then show ?thesis using h(1) eq by auto
    next
      fix s1 M1 pg assume h: "?pl = ?K pg s1"
        "laid_out s0 pt N F (insert (pn a) {pn old..<pn a}) (g(pn a := pg)) ?P ?C s1 M1 {}"
      have pa: "pn (a + 4096) = Suc (pn a)" "page_aligned (a + 4096)" "old \<le> a + 4096"
        using pn_next[OF Suc.prems(3) ov] Suc.prems(3,4) unat_plus_of_nat[of a 4096] ov
        by (auto simp: page_aligned_def word_le_nat_alt)
      have "insert (pn a) {pn old..<pn a} = {pn old..<pn (a + 4096)}" using oa pa(1) by auto
      then have L1: "laid_out s0 pt N F {pn old..<pn (a + 4096)} (g(pn a := pg)) ?P ?C s1 M1 {}"
        using h(2) by metis
      show ?thesis unfolding eq h(1)
        using pa pl Suc.prems by (intro Suc.IH[OF L1]) simp_all
    qed
  qed
qed

lemma uvmalloc_result:
  assumes F: "pt_ok 2 s pt N F" and perm: "perm = PTE_R OR PTE_U OR xperm" "perm < 1024"
    and sz: "oldsz \<le> newsz" "unat newsz \<le> 2 ^ 38"
    and um: "\<And>x. upn oldsz \<le> pn x \<Longrightarrow> pn x < upn newsz \<Longrightarrow> umap (mem s) pt x = None"
  shows "(\<exists>s' g M. uvmalloc pt oldsz newsz xperm s = Ok newsz s' \<and>
      laid_out s pt N F {upn oldsz..<upn newsz} g (\<lambda>_. perm) (\<lambda>_. replicate 4096 0) s' M {}) \<or>
    (\<exists>s' g M. uvmalloc pt oldsz newsz xperm s = Ok 0 s' \<and>
      laid_out s pt N F {} g (\<lambda>_. perm) (\<lambda>_. replicate 4096 0) s' M {})"
proof -
  have ob: "unat oldsz \<le> 2 ^ 38" using sz by (simp add: word_le_nat_alt)
  let ?a = "PGROUNDUP oldsz"
  have pa: "pn ?a = upn oldsz" by (rule pn_PGROUNDUP[OF ob])
  have "laid_out s pt N F {pn ?a..<pn ?a} (\<lambda>_. 0) (\<lambda>_. perm) (\<lambda>_. replicate 4096 0) s {} {}"
    using laid_out_start[OF F] by simp
  moreover have "upn oldsz \<le> upn newsz" using sz(1) by (simp add: upn_def word_le_nat_alt div_le_mono)
  moreover have "upn newsz \<le> upn oldsz + (unat newsz div 4096 + 1)" by (simp add: upn_def)
  moreover have "uvmalloc pt oldsz newsz xperm s =
      uvmalloc_loop (unat newsz div 4096 + 1) pt ?a ?a newsz xperm s"
    using leD[OF sz(1)] by (simp add: uvmalloc_def)
  ultimately show ?thesis
    using uvmalloc_loop_result[OF _ F perm, of ?a ?a "\<lambda>_. 0" s "{}" newsz "unat newsz div 4096 + 1"] sz(2) um pa
    by simp
qed

end
