(* ===== verification/Uvmcopy.thy ===== *)
theory Uvmcopy
  imports Uvm
begin

text \<open>
  \<^verbatim>\<open>uvmcopy\<close> and \<^verbatim>\<open>uvmshare\<close>, by which \<^verbatim>\<open>fork\<close> and \<^verbatim>\<open>clone\<close> build the child's address space
  from the parent's: the first gives the child equal contents in frames of its own, the
  second maps the parent's frames; both leave no user mapping behind when they fail.
\<close>

section \<open>Copying an address space\<close>

definition page_va :: "nat \<Rightarrow> u64" where
  "page_va k = of_nat (4096 * k)"

lemma pn_0 [simp]: "pn 0 = 0"
  by (simp add: pn_def)

lemma page_va_pn: "page_aligned i \<Longrightarrow> page_va (pn i) = i"
  unfolding page_va_def by (simp flip: aligned_pn add: word_unat_eq_iff unsigned_of_nat take_bit_nat_eq_self unat_less_64)

lemma page_aligned_PTE2PA [simp]: "page_aligned (PTE2PA e)"
proof -
  have "take_bit 12 (PTE2PA e) = 0" by (simp add: PTE2PA_def take_bit_push_bit)
  then show ?thesis by (simp add: page_aligned_iff take_bit_eq_mod)
qed

lemma PTE_FLAGS_less: "PTE_FLAGS e < 1024"
proof -
  have "PTE_FLAGS e = take_bit 10 e" by (simp add: PTE_FLAGS_def take_bit_eq_mask mask_eq_exp_minus_1)
  then show ?thesis by (simp add: word_less_nat_alt unsigned_take_bit_eq take_bit_nat_def)
qed

text \<open>An address space that the operation only reads: its table and its frames lie off \<open>P\<close>.\<close>

definition reads_off :: "addr set \<Rightarrow> 'z kmem_scheme \<Rightarrow> addr \<Rightarrow> addr set \<Rightarrow> nat \<Rightarrow> bool" where
  "reads_off P s old No n \<longleftrightarrow> ptree 2 (mem s) old No \<and> 0 \<notin> No \<and> No \<inter> P = {}
     \<and> (\<forall>q \<in> frames (umap (mem s) old) 0 n. ram_page (kend s) q \<and> q \<notin> P)"

lemma reads_off_same:
  assumes "reads_off P s0 old No n" "same_off P (mem s0) (mem s)" "\<And>q. q \<in> P \<Longrightarrow> page_aligned q"
  shows "umap (mem s) old = umap (mem s0) old" "slot 2 (mem s) old va = slot 2 (mem s0) old va"
    "ptree 2 (mem s) old No"
proof -
  have t: "ptree 2 (mem s0) old No" "No \<inter> P = {}" using assms(1) by (auto simp: reads_off_def)
  have "agree No (mem s0) (mem s)"
    using t assms(3) ptree_pages[OF t(1)] by (intro same_off_agree[OF assms(2)]) auto
  from ptree_agree[OF t(1) this]
  show "umap (mem s) old = umap (mem s0) old" "slot 2 (mem s) old va = slot 2 (mem s0) old va"
    "ptree 2 (mem s) old No" by (auto simp: umap_def fun_eq_iff)
qed

text \<open>What the loops of \<^verbatim>\<open>uvmcopy\<close> and \<^verbatim>\<open>uvmshare\<close> read of the old table at one address.\<close>

lemma read_old:
  assumes "reads_off P s0 old No n" "same_off P (mem s0) (mem s)" "\<And>q. q \<in> P \<Longrightarrow> page_aligned q" "i < MAXVA"
  shows "(\<exists>pte. walk old i False s = Ok pte s
    \<and> (case umap (mem s0) old i of None \<Rightarrow> pte = 0 \<or> load64 (mem s) pte AND 1 = 0
       | Some e \<Rightarrow> pte \<noteq> 0 \<and> load64 (mem s) pte = e \<and> e AND 1 \<noteq> 0))"
proof -
  note same = reads_off_same[OF assms(1-3)]
  have nz: "0 \<notin> No" using assms(1) by (simp add: reads_off_def)
  show ?thesis
  proof (cases "slot 2 (mem s) old i")
    case None
    then show ?thesis using walk_find[OF assms(4), of old s] umap_no_slot[OF None] same(1) by simp
  next
    case (Some a)
    then show ?thesis
      using walk_find[OF assms(4), of old s] umap_slot[OF Some assms(4)] same(1)
        slot_nonzero[OF same(3) nz Some] by (auto split: if_splits)
  qed
qed

lemma copy_page_W:
  assumes "page_aligned pg" "ram_page e pa"
  shows "same_off {pg} m (memmove m pg pa 4096)"
    "read_bytes (memmove m pg pa 4096) pg 4096 = read_bytes m pa 4096"
proof -
  have "unat pa + 4096 < 2 ^ 64" using assms(2) by (auto simp: ram_page_def word_less_nat_alt)
  then have mm: "memmove m pg pa 4096 = write_bytes m pg (read_bytes m pa 4096)"
    using page_end[OF assms(1)] by (intro memmove_copies) auto
  show "same_off {pg} m (memmove m pg pa 4096)"
    unfolding mm by (auto simp: same_off_def write_bytes_def in_page_def)
  show "read_bytes (memmove m pg pa 4096) pg 4096 = read_bytes m pa 4096"
    unfolding mm using read_write_same[of pg "read_bytes m pa 4096" m] page_end[OF assms(1)] by simp
qed

definition old_pte :: "'z kmem_scheme \<Rightarrow> addr \<Rightarrow> nat \<Rightarrow> u64" where
  "old_pte s old k = the (umap (mem s) old (page_va k))"

definition old_pages :: "'z kmem_scheme \<Rightarrow> addr \<Rightarrow> nat \<Rightarrow> nat set" where
  "old_pages s old n = {k. k < n \<and> umap (mem s) old (page_va k) \<noteq> None}"

abbreviation copied :: "'z kmem_scheme \<Rightarrow> addr \<Rightarrow> addr \<Rightarrow> addr set \<Rightarrow> addr set \<Rightarrow> nat set \<Rightarrow> (nat \<Rightarrow> addr) \<Rightarrow>
    'z kmem_scheme \<Rightarrow> addr set \<Rightarrow> bool" where
  "copied s0 old new N F A g s M \<equiv> laid_out s0 new N F A g (\<lambda>k. PTE_FLAGS (old_pte s0 old k))
     (\<lambda>k. read_bytes (mem s0) (PTE2PA (old_pte s0 old k)) 4096) s M {}"

lemma old_pages_next:
  assumes "page_aligned i" "pn (i + 4096) = Suc (pn i)"
  shows "old_pages s old (pn (i + 4096)) =
    (case umap (mem s) old i of None \<Rightarrow> old_pages s old (pn i) | Some e \<Rightarrow> insert (pn i) (old_pages s old (pn i)))"
  using page_va_pn[OF assms(1)] assms(2)
  by (auto simp: old_pages_def less_Suc_eq split: option.splits)

lemma uvmcopy_loop_skip:
  assumes "i < siz" "walk old i False s = Ok pte s" "pte = 0 \<or> load64 (mem s) pte AND 1 = 0"
  shows "uvmcopy_loop (Suc n) old new i siz s = uvmcopy_loop n old new (i + 4096) siz s"
  using assms by auto

lemma uvmcopy_loop_place:
  assumes "i < siz" "walk old i False s = Ok pte s" "pte \<noteq> 0" "load64 (mem s) pte = e" "e AND 1 \<noteq> 0"
  shows "uvmcopy_loop (Suc n) old new i siz s =
     place new i (\<lambda>m pg. memmove m pg (PTE2PA e) 4096) (PTE_FLAGS e)
       (\<lambda>s. bind (uvmunmap new 0 (i div 4096) True s) (\<lambda>_ s. Ok (-1) s))
       (\<lambda>pg s. uvmcopy_loop n old new (i + 4096) siz s) s"
  using assms by (simp add: place_def)

declare uvmcopy_loop.simps(2) [simp del]

lemma uvmcopy_loop_result:
  assumes L: "copied s0 old new N F (old_pages s0 old (pn i)) g s M" and F: "pt_ok 2 s0 new N F"
    and old: "reads_off (N \<union> F) s0 old No (upn siz)"
    and i: "page_aligned i" "unat siz \<le> 2 ^ 38" "pn i \<le> upn siz" "upn siz \<le> pn i + n"
    and um: "\<And>x. pn x < upn siz \<Longrightarrow> umap (mem s0) new x = None"
  shows "(\<exists>s' g' M'. uvmcopy_loop n old new i siz s = Ok 0 s' \<and>
      copied s0 old new N F (old_pages s0 old (upn siz)) g' s' M') \<or>
    (\<exists>s' g' M'. uvmcopy_loop n old new i siz s = Ok (-1) s' \<and> copied s0 old new N F {} g' s' M')"
  using L i
proof (induction n arbitrary: i g s M)
  case 0
  then have "\<not> i < siz" "pn i = upn siz" using aligned_less_iff[of i siz] by auto
  then show ?case using 0(1) by auto
next
  case (Suc n)
  have al: "page_aligned q" if "q \<in> N \<union> F" for q using pt_ok_aligned[OF F that] .
  show ?case
  proof (cases "i < siz")
    case False
    then have "pn i = upn siz" using aligned_less_iff[of i siz] Suc.prems(2,4) by simp
    then show ?thesis using Suc.prems(1) False by (auto simp: uvmcopy_loop.simps)
  next
    case True
    have pl: "pn i < upn siz" using True aligned_less_iff[of i siz] Suc.prems(2) by simp
    have im: "i < MAXVA" using True Suc.prems(3) by (simp add: word_less_nat_alt)
    have ov: "unat i + 4096 < 2 ^ 64" using im by (simp add: word_less_nat_alt)
    have nx: "pn (i + 4096) = Suc (pn i)" "page_aligned (i + 4096)"
      using pn_next[OF Suc.prems(2) ov] Suc.prems(2) unat_plus_of_nat[of i 4096] ov
      by (auto simp: page_aligned_def)
    note opn = old_pages_next[OF Suc.prems(2) nx(1), of s0 old]
    have so: "same_off (N \<union> F) (mem s0) (mem s)" using Suc.prems(1) by (simp add: laid_out_def)
    obtain pte where pte: "walk old i False s = Ok pte s"
        "case umap (mem s0) old i of None \<Rightarrow> pte = 0 \<or> load64 (mem s) pte AND 1 = 0
         | Some e \<Rightarrow> pte \<noteq> 0 \<and> load64 (mem s) pte = e \<and> e AND 1 \<noteq> 0"
      using read_old[OF old so al im] by blast
    show ?thesis
    proof (cases "umap (mem s0) old i")
      case None
      then have eq: "uvmcopy_loop (Suc n) old new i siz s = uvmcopy_loop n old new (i + 4096) siz s"
        using uvmcopy_loop_skip[OF True pte(1)] pte(2) by simp
      show ?thesis unfolding eq
        using Suc.prems nx pl None opn by (intro Suc.IH[of "i + 4096" g]) simp_all
    next
      case (Some e)
      let ?err = "\<lambda>s. bind (uvmunmap new 0 (i div 4096) True s) (\<lambda>_ s. Ok (-1) s)"
      let ?K = "\<lambda>pg s. uvmcopy_loop n old new (i + 4096) siz s"
      let ?pl = "place new i (\<lambda>m pg. memmove m pg (PTE2PA e) 4096) (PTE_FLAGS e) ?err ?K s"
      have eq: "uvmcopy_loop (Suc n) old new i siz s = ?pl"
        using uvmcopy_loop_place[OF True pte(1)] pte(2) Some by simp
      have op: "old_pte s0 old (pn i) = e" using Some page_va_pn[OF Suc.prems(2)] by (simp add: old_pte_def)
      have "PTE2PA e \<in> frames (umap (mem s0) old) 0 (upn siz)"
        using Some pl unfolding frames_def by (intro CollectI exI[of _ i] exI[of _ e]) simp
      then have ram: "ram_page (kend s0) (PTE2PA e)" "PTE2PA e \<notin> N \<union> F"
        using old by (auto simp: reads_off_def)
      have W: "same_off {pg} m (memmove m pg (PTE2PA e) 4096) \<and>
          read_bytes (memmove m pg (PTE2PA e) 4096) pg 4096 = read_bytes (mem s0) (PTE2PA (old_pte s0 old (pn i))) 4096"
        if "pg \<in> F" "same_off (N \<union> F) (mem s0) m" for pg m
      proof -
        have "agree {PTE2PA e} (mem s0) m"
          using ram(2) al by (intro same_off_agree[OF that(2)]) auto
        then show ?thesis
          using copy_page_W[OF _ ram(1), of pg m] al that(1) op read_page_agree[of "PTE2PA e" "mem s0" m] by simp
      qed
      have "(\<exists>s' M'. ?pl = ?err s' \<and> copied s0 old new N F (old_pages s0 old (pn i)) g s' M') \<or>
        (\<exists>s' M' pg. ?pl = ?K pg s' \<and> pg \<noteq> 0 \<and>
           copied s0 old new N F (insert (pn i) (old_pages s0 old (pn i))) (g(pn i := pg)) s' M')"
        using place_result[OF Suc.prems(1) F Suc.prems(2) im _ um[OF pl] W, of ?err ?K] op
        by (simp add: old_pages_def)
      then show ?thesis
      proof (elim disjE exE conjE)
        fix s1 M1 assume h: "?pl = ?err s1" "copied s0 old new N F (old_pages s0 old (pn i)) g s1 M1"
        have n: "unat (i div 4096) = pn i" by (simp add: pn_def unat_div)
        have b: "4096 * pn i \<le> 2 ^ 38"
          using im by (simp flip: aligned_pn[OF Suc.prems(2)] add: word_less_nat_alt)
        have "\<exists>s'. uvmunmap new 0 (i div 4096) True s1 = Ok () s' \<and> copied s0 old new N F {} g s' M1"
          using n um pl b PTE_FLAGS_less
          by (intro laid_out_undo[OF h(2) F]) (auto simp: old_pages_def)
        then show ?thesis unfolding eq h(1) by auto
      next
        fix s1 M1 pg assume h: "?pl = ?K pg s1"
          "copied s0 old new N F (insert (pn i) (old_pages s0 old (pn i))) (g(pn i := pg)) s1 M1"
        have L1: "copied s0 old new N F (old_pages s0 old (pn (i + 4096))) (g(pn i := pg)) s1 M1"
          using h(2) opn Some by simp
        show ?thesis unfolding eq h(1)
          using Suc.prems nx pl by (intro Suc.IH[OF L1]) simp_all
      qed
    qed
  qed
qed

lemma uvmcopy_result:
  assumes F: "pt_ok 2 s new N F" and old: "reads_off (N \<union> F) s old No (upn siz)" "unat siz \<le> 2 ^ 38"
    and um: "\<And>x. pn x < upn siz \<Longrightarrow> umap (mem s) new x = None"
  shows "(\<exists>s' g M. uvmcopy old new siz s = Ok 0 s' \<and> copied s old new N F (old_pages s old (upn siz)) g s' M) \<or>
    (\<exists>s' g M. uvmcopy old new siz s = Ok (-1) s' \<and> copied s old new N F {} g s' M)"
proof -
  have "copied s old new N F (old_pages s old (pn 0)) (\<lambda>_. 0) s {}"
    using laid_out_start[OF F] by (simp add: old_pages_def)
  moreover have "upn siz \<le> unat siz div 4096 + 1" by (simp add: upn_def)
  ultimately show ?thesis
    unfolding uvmcopy_def using old um by (intro uvmcopy_loop_result[OF _ F old(1)]) auto
qed

section \<open>Sharing an address space\<close>

definition share :: "(u64 \<Rightarrow> u64 option) \<Rightarrow> (u64 \<Rightarrow> u64 option) \<Rightarrow> nat \<Rightarrow> (u64 \<Rightarrow> u64 option)" where
  "share f0 fo n = (\<lambda>x. if pn x < n then (case fo x of None \<Rightarrow> f0 x
     | Some e \<Rightarrow> Some (PA2PTE (PTE2PA e) OR PTE_FLAGS e OR PTE_V)) else f0 x)"

lemma share_0 [simp]: "share f0 fo 0 = f0"
  by (simp add: share_def)

lemma share_Suc:
  assumes "\<And>x y. pn x = pn y \<Longrightarrow> fo x = fo y"
  shows "share f0 fo (Suc (pn i)) = (case fo i of None \<Rightarrow> share f0 fo (pn i)
    | Some e \<Rightarrow> (\<lambda>x. if pn x = pn i then Some (PA2PTE (PTE2PA e) OR PTE_FLAGS e OR PTE_V)
        else share f0 fo (pn i) x))"
proof (rule ext)
  fix x
  show "share f0 fo (Suc (pn i)) x = (case fo i of None \<Rightarrow> share f0 fo (pn i)
    | Some e \<Rightarrow> (\<lambda>x. if pn x = pn i then Some (PA2PTE (PTE2PA e) OR PTE_FLAGS e OR PTE_V)
        else share f0 fo (pn i) x)) x"
  proof (cases "pn x = pn i")
    case True
    then have "fo x = fo i" by (rule assms)
    then show ?thesis using True by (cases "fo i") (simp_all add: share_def)
  next
    case False
    then have "pn x < Suc (pn i) \<longleftrightarrow> pn x < pn i" by auto
    then show ?thesis using False by (cases "fo i") (simp_all add: share_def)
  qed
qed

lemma uvmshare_loop_skip:
  assumes "i < siz" "walk old i False s = Ok pte s" "pte = 0 \<or> load64 (mem s) pte AND 1 = 0"
  shows "uvmshare_loop (Suc n) old new i siz s = uvmshare_loop n old new (i + 4096) siz s"
  using assms by auto

lemma uvmshare_loop_map:
  assumes "i < siz" "walk old i False s = Ok pte s" "pte \<noteq> 0" "load64 (mem s) pte = e" "e AND 1 \<noteq> 0"
  shows "uvmshare_loop (Suc n) old new i siz s =
     bind (mappages new i 4096 (PTE2PA e) (PTE_FLAGS e) s) (\<lambda>r s.
       if r \<noteq> 0 then bind (uvmunmap new 0 (i div 4096) False s) (\<lambda>_ s. Ok (-1) s)
       else uvmshare_loop n old new (i + 4096) siz s)"
  using assms by simp

declare uvmshare_loop.simps(2) [simp del]

lemma share_undo:
  assumes G: "grown s0 new N F s M" "umap (mem s) new = share (umap (mem s0) new) fo (pn i)"
    and i: "page_aligned i" "i < MAXVA" and um: "\<And>x. pn x < pn i \<Longrightarrow> umap (mem s0) new x = None"
  shows "\<exists>s'. uvmunmap new 0 (i div 4096) False s = Ok () s' \<and> grown s0 new N F s' M
    \<and> umap (mem s') new = umap (mem s0) new"
proof -
  have n: "unat (i div 4096) = pn i" by (simp add: pn_def unat_div)
  have b: "4096 * pn i \<le> 2 ^ 38"
    using i(2) by (simp flip: aligned_pn[OF i(1)] add: word_less_nat_alt)
  have ok: "pt_ok 2 s new (N \<union> M) (F - M)" using G(1) by (simp add: grown_def)
  obtain s' where s': "uvmunmap new 0 (i div 4096) False s = Ok () s'" "released s new (N \<union> M) (F - M) s' {}"
      "umap (mem s') new = unmap_range (umap (mem s) new) 0 (pn i)"
    using uvmunmap_range[OF ok, of 0 "i div 4096" False] n b by auto
  have "grown s new (N \<union> M) (F - M) s' {}" using s'(2) by (simp add: released_def grown_def)
  then have "grown s0 new N F s' M" using grown_trans[OF G(1)] by fastforce
  moreover have "umap (mem s') new = umap (mem s0) new"
    unfolding s'(3) G(2) using um by (auto simp: unmap_range_def share_def fun_eq_iff)
  ultimately show ?thesis using s'(1) by blast
qed

lemma uvmshare_loop_result:
  assumes G: "grown s0 new N F s M" "umap (mem s) new = share (umap (mem s0) new) (umap (mem s0) old) (pn i)"
    and F: "pt_ok 2 s0 new N F" and old: "reads_off (N \<union> F) s0 old No (upn siz)"
    and i: "page_aligned i" "unat siz \<le> 2 ^ 38" "pn i \<le> upn siz" "upn siz \<le> pn i + n"
    and um: "\<And>x. pn x < upn siz \<Longrightarrow> umap (mem s0) new x = None"
  shows "\<exists>s' M'. grown s0 new N F s' M' \<and>
    (uvmshare_loop n old new i siz s = Ok 0 s' \<and> umap (mem s') new = share (umap (mem s0) new) (umap (mem s0) old) (upn siz)
    \<or> uvmshare_loop n old new i siz s = Ok (-1) s' \<and> umap (mem s') new = umap (mem s0) new)"
  using G i
proof (induction n arbitrary: i s M)
  case 0
  then have "\<not> i < siz" "pn i = upn siz" using aligned_less_iff[of i siz] by auto
  then show ?case using 0(1,2) by auto
next
  case (Suc n)
  have al: "page_aligned q" if "q \<in> N \<union> F" for q using pt_ok_aligned[OF F that] .
  show ?case
  proof (cases "i < siz")
    case False
    then have "pn i = upn siz" using aligned_less_iff[of i siz] Suc.prems(3,5) by simp
    then show ?thesis using Suc.prems(1,2) False by (auto simp: uvmshare_loop.simps)
  next
    case True
    have pl: "pn i < upn siz" using True aligned_less_iff[of i siz] Suc.prems(3) by simp
    have im: "i < MAXVA" using True Suc.prems(4) by (simp add: word_less_nat_alt)
    have ov: "unat i + 4096 < 2 ^ 64" using im by (simp add: word_less_nat_alt)
    have nx: "pn (i + 4096) = Suc (pn i)" "page_aligned (i + 4096)"
      using pn_next[OF Suc.prems(3) ov] Suc.prems(3) unat_plus_of_nat[of i 4096] ov
      by (auto simp: page_aligned_def)
    note sS = share_Suc[of "umap (mem s0) old" "umap (mem s0) new" i, OF umap_pn, simplified]
    have so: "same_off (N \<union> F) (mem s0) (mem s)"
      using Suc.prems(1) by (auto simp: grown_def intro: same_off_mono)
    obtain pte where pte: "walk old i False s = Ok pte s"
        "case umap (mem s0) old i of None \<Rightarrow> pte = 0 \<or> load64 (mem s) pte AND 1 = 0
         | Some e \<Rightarrow> pte \<noteq> 0 \<and> load64 (mem s) pte = e \<and> e AND 1 \<noteq> 0"
      using read_old[OF old so al im] by blast
    show ?thesis
    proof (cases "umap (mem s0) old i")
      case None
      then have eq: "uvmshare_loop (Suc n) old new i siz s = uvmshare_loop n old new (i + 4096) siz s"
        using uvmshare_loop_skip[OF True pte(1)] pte(2) by simp
      show ?thesis unfolding eq
        using Suc.prems nx pl None sS by (intro Suc.IH[of s M "i + 4096"]) simp_all
    next
      case (Some e)
      note eq = uvmshare_loop_map[OF True pte(1), of e n new]
      have eq: "uvmshare_loop (Suc n) old new i siz s = bind (mappages new i 4096 (PTE2PA e) (PTE_FLAGS e) s) (\<lambda>r s.
         if r \<noteq> 0 then bind (uvmunmap new 0 (i div 4096) False s) (\<lambda>_ s. Ok (-1) s)
         else uvmshare_loop n old new (i + 4096) siz s)"
        using eq pte(2) Some by simp
      have ok: "pt_ok 2 s new (N \<union> M) (F - M)" using Suc.prems(1) by (simp add: grown_def)
      have un: "umap (mem s) new i = None" using Suc.prems(2) um[OF pl] by (simp add: share_def)
      show ?thesis
      proof (rule mappages_one[OF ok Suc.prems(3) im un, of "PTE2PA e" "PTE_FLAGS e"], goal_cases)
        case (1 s1 M1)
        have g: "grown s0 new N F s1 (M \<union> M1)" by (rule grown_trans[OF Suc.prems(1) 1(2)])
        have u: "umap (mem s1) new = share (umap (mem s0) new) (umap (mem s0) old) (pn (i + 4096))"
          unfolding 1(3) nx(1) sS Some Suc.prems(2) by simp
        have "uvmshare_loop (Suc n) old new i siz s = uvmshare_loop n old new (i + 4096) siz s1"
          unfolding eq using 1(1) by simp
        then show ?case
          using Suc.IH[OF g u nx(2) Suc.prems(4)] Suc.prems(5,6) nx(1) pl by simp
      next
        case (2 s1)
        have g: "grown s0 new N F s1 (M \<union> (F - M))" by (rule grown_trans[OF Suc.prems(1) 2(2)])
        have u: "umap (mem s1) new = share (umap (mem s0) new) (umap (mem s0) old) (pn i)"
          unfolding 2(3) by (rule Suc.prems(2))
        obtain s2 where "uvmunmap new 0 (i div 4096) False s1 = Ok () s2"
            "grown s0 new N F s2 (M \<union> (F - M))" "umap (mem s2) new = umap (mem s0) new"
          using share_undo[OF g u Suc.prems(3) im] um pl by fastforce
        then show ?case unfolding eq using 2(1) by auto
      qed
    qed
  qed
qed

end
