(* ===== verification/Uvmfree.thy ===== *)
theory Uvmfree
  imports Uvmcopy
begin

text \<open>
  Taking an address space down: \<^verbatim>\<open>freewalk\<close> and \<^verbatim>\<open>uvmfree\<close> give every frame and every table
  page back to the allocator.
\<close>

section \<open>Freeing the table pages\<close>

primrec no_leaf :: "nat \<Rightarrow> memory \<Rightarrow> addr \<Rightarrow> bool" where
  "no_leaf 0 m pg = (\<forall>i<512. pte_of m pg i AND PTE_V = 0)"
| "no_leaf (Suc l) m pg = (\<forall>i<512. pte_of m pg i AND PTE_V \<noteq> 0 \<longrightarrow> no_leaf l m (PTE2PA (pte_of m pg i)))"

text \<open>An address with a given index at one level and the lower indices of another address.\<close>

lemma index_address:
  assumes "i < 512" "unat va < 2 ^ (12 + 9 * l)" "l \<le> 2"
  shows "unat (va OR push_bit (12 + 9 * l) i) < 2 ^ (12 + 9 * Suc l)"
    "PX l (va OR push_bit (12 + 9 * l) i) = i"
    "k < l \<Longrightarrow> PX k (va OR push_bit (12 + 9 * l) i) = PX k va"
proof -
  let ?x = "va OR push_bit (12 + 9 * l) i"
  have bi: "\<not> bit i n" if "9 \<le> n" for n using bit_high[of i 9 n] assms(1) that by (simp add: word_less_nat_alt)
  have bv: "\<not> bit va n" if "12 + 9 * l \<le> n" for n using bit_high[OF assms(2) that] .
  have "take_bit (12 + 9 * Suc l) ?x = ?x"
  proof (rule bit_word_eqI)
    fix n
    have "\<not> bit ?x n" if "12 + 9 * Suc l \<le> n" using that bi bv by (simp add: bit_or_iff bit_push_bit_iff)
    then show "bit (take_bit (12 + 9 * Suc l) ?x) n = bit ?x n"
      unfolding bit_take_bit_iff by (cases "n < 12 + 9 * Suc l") auto
  qed
  then have "unat ?x = take_bit (12 + 9 * Suc l) (unat ?x)"
    using unsigned_take_bit_eq[of "12 + 9 * Suc l" ?x] by metis
  then show "unat ?x < 2 ^ (12 + 9 * Suc l)" by (metis take_bit_nat_less_exp)
  show "PX l ?x = i"
  proof (rule bit_word_eqI)
    fix n assume "n < LENGTH(64)"
    have "12 + 9 * l + n < 64" if "n < 9" using that assms(3) by simp
    then show "bit (PX l ?x) n = bit i n"
      using bi[of n] bv[of "12 + 9 * l + n"] by (cases "n < 9") (auto simp: PX_bit bit_simps)
  qed
  show "PX k ?x = PX k va" if "k < l"
  proof (rule bit_word_eqI)
    fix n assume "n < LENGTH(64)"
    have "\<not> 12 + 9 * l \<le> 12 + 9 * k + n" if "n < 9" using that \<open>k < l\<close> by simp
    then show "bit (PX k ?x) n = bit (PX k va) n" by (auto simp: PX_bit bit_simps)
  qed
qed

lemma lookup_none_no_leaf:
  assumes "l \<le> 2" "\<And>va. unat va < 2 ^ (12 + 9 * Suc l) \<Longrightarrow> lookup l m pg va = None"
  shows "no_leaf l m pg"
  using assms
proof (induction l arbitrary: pg)
  case 0
  have "pte_of m pg i AND 1 = 0" if i: "i < 512" for i
    using 0(2)[of "0 OR push_bit 12 i"] index_address[OF i, of 0 0]
    by (auto simp: Let_def split: if_splits)
  then show ?case by simp
next
  case (Suc l)
  have "no_leaf l m (PTE2PA (pte_of m pg i))" if i: "i < 512" and v: "pte_of m pg i AND 1 \<noteq> 0" for i
  proof (rule Suc.IH)
    show "l \<le> 2" using Suc.prems(1) by simp
    fix va :: u64 assume va: "unat va < 2 ^ (12 + 9 * Suc l)"
    let ?x = "va OR push_bit (12 + 9 * Suc l) i"
    note ix = index_address[OF i va Suc.prems(1)]
    have "lookup (Suc l) m pg ?x = None" using Suc.prems(2) ix(1) by blast
    then have "lookup l m (PTE2PA (pte_of m pg i)) ?x = None"
      using ix(2) v by (simp add: Let_def)
    moreover have "lookup l m (PTE2PA (pte_of m pg i)) ?x = lookup l m (PTE2PA (pte_of m pg i)) va"
      using ix(3) by (intro lookup_PX) simp
    ultimately show "lookup l m (PTE2PA (pte_of m pg i)) va = None" by simp
  qed
  then show ?case by simp
qed

lemma umap_none_no_leaf: "umap m pt = (\<lambda>_. None) \<Longrightarrow> no_leaf 2 m pt"
proof (rule lookup_none_no_leaf)
  assume h: "umap m pt = (\<lambda>_. None)"
  fix va :: u64 assume "unat va < 2 ^ (12 + 9 * Suc 2)"
  then have "va < SV39_END" by (simp add: word_less_nat_alt)
  then show "lookup 2 m pt va = None" using fun_cong[OF h, of va] by (simp add: umap_def)
qed simp

lemma no_leaf_agree:
  assumes "ptree l m pg N" "agree N m m'" "no_leaf l m pg"
  shows "no_leaf l m' pg"
  using assms
proof (induction l arbitrary: pg N)
  case 0
  then show ?case using pte_of_agree by auto
next
  case (Suc l)
  obtain C where C: "page_aligned pg" "kids l m pg C" "N = insert pg (\<Union>i\<in>{..<512}. C i)"
    using Suc.prems(1) by (rule ptree_SucE)
  have e: "pte_of m' pg i = pte_of m pg i" if "i < 512" for i
    using pte_of_agree[OF agree_mono[OF Suc.prems(2)] C(1) that] C(3) by auto
  have "no_leaf l m' (PTE2PA (pte_of m pg i))" if "i < 512" "pte_of m pg i AND 1 \<noteq> 0" for i
    using Suc.IH[of _ "C i"] kids_valid[OF C(2) that] Suc.prems(2,3) C(3) that
      agree_mono[OF Suc.prems(2), of "C i"] by auto
  then show ?case using e by simp
qed

definition freewalk_body :: "nat \<Rightarrow> addr \<Rightarrow> nat \<Rightarrow> 'z kmem_scheme \<Rightarrow> (unit, 'z kmem_scheme) outcome" where
  "freewalk_body depth pt i s =
     (let a = pt + 8 * of_nat i; pte = load64 (mem s) a in
      if pte AND PTE_V \<noteq> 0 \<and> pte AND (PTE_R OR PTE_W OR PTE_X) = 0 then
        bind (freewalk depth (PTE2PA pte) s) (\<lambda>_ s. Ok () (s\<lparr>mem := store64 (mem s) a 0\<rparr>))
      else if pte AND PTE_V \<noteq> 0 then Panic ''freewalk: leaf''
      else Ok () s)"

lemma freewalk_Suc:
  "freewalk (Suc depth) pt s = bind (foreach [0..<512] (freewalk_body depth pt) s) (\<lambda>_ s. kfree pt s)"
  by (simp add: freewalk_body_def[abs_def])

declare freewalk.simps(2) [simp del]

definition freed :: "'z kmem_scheme \<Rightarrow> addr set \<Rightarrow> addr set \<Rightarrow> 'z kmem_scheme \<Rightarrow> bool" where
  "freed s F X s' \<longleftrightarrow> kmem_free s' (F \<union> X) \<and> kmem_frame s s'"

lemma freewalk_loop:
  assumes C: "page_aligned pg" "kids l (mem s) pg C" "N = insert pg (\<Union>i\<in>{..<512}. C i)"
    and F: "kmem_free s F" "N \<inter> F = {}" "\<forall>q \<in> N. page_aligned q"
    and child: "\<And>i t G. i < 512 \<Longrightarrow> pte_of (mem s) pg i AND 1 \<noteq> 0 \<Longrightarrow> agree (C i) (mem s) (mem t) \<Longrightarrow>
      kmem_free t G \<Longrightarrow> C i \<inter> G = {} \<Longrightarrow> kmem_frame s t \<Longrightarrow>
      \<exists>t'. freewalk d (PTE2PA (pte_of (mem s) pg i)) t = Ok () t' \<and> freed t G (C i) t'
        \<and> same_off (C i) (mem t) (mem t')"
  shows "n \<le> 512 \<Longrightarrow> \<exists>t. foreach [0..<n] (freewalk_body d pg) s = Ok () t
    \<and> freed s F (\<Union>i\<in>{..<n}. C (of_nat i)) t
    \<and> same_off (insert pg (\<Union>i\<in>{..<n}. C (of_nat i))) (mem s) (mem t)
    \<and> (\<forall>j. n \<le> unat j \<and> j < 512 \<longrightarrow> pte_of (mem t) pg j = pte_of (mem s) pg j)"
proof (induction n)
  case 0
  then show ?case using F(1) by (simp add: freed_def)
next
  case (Suc n)
  let ?U = "\<lambda>n. \<Union>i\<in>{..<n}. C (of_nat i)" and ?i = "of_nat n :: u64"
  have n: "n < 512" using Suc.prems by simp
  have i: "?i < 512" "unat ?i = n" using n by (auto simp: word_less_nat_alt unsigned_of_nat take_bit_nat_eq_self)
  obtain t where t: "foreach [0..<n] (freewalk_body d pg) s = Ok () t" "kmem_free t (F \<union> ?U n)" "kmem_frame s t"
      "same_off (insert pg (?U n)) (mem s) (mem t)"
      "\<forall>j. n \<le> unat j \<and> j < 512 \<longrightarrow> pte_of (mem t) pg j = pte_of (mem s) pg j"
    using Suc.IH n by (auto simp: freed_def)
  have lt: "(of_nat k :: u64) < 512" "(of_nat k :: u64) \<noteq> ?i" if "k < n" for k
    using that n by (auto simp: word_less_nat_alt unsigned_of_nat take_bit_nat_eq_self word_unat_eq_iff)
  have CN: "C j \<subseteq> N" if "j < 512" for j using C(3) that by auto
  have UN: "?U n \<subseteq> N" using CN lt by auto
  have "C ?i \<inter> C (of_nat k) = {}" if "k < n" for k
    using kids_apart[OF C(2) i(1) lt(1)[OF that]] lt(2)[OF that] by metis
  then have "C ?i \<inter> ?U n = {}" by auto
  then have di: "C ?i \<inter> insert pg (?U n) = {}" "C ?i \<inter> (F \<union> ?U n) = {}"
    using kids_root[OF C(2) i(1)] F(2) CN[OF i(1)] by auto
  have US: "?U (Suc n) = ?U n \<union> C ?i" by (auto simp: lessThan_Suc)
  have en: "load64 (mem t) (pg + 8 * ?i) = pte_of (mem s) pg ?i" using t(5) i by (simp add: pte_of_def)
  have step: "foreach [0..<Suc n] (freewalk_body d pg) s = freewalk_body d pg n t"
    using t(1) by (cases "freewalk_body d pg n t") (simp_all add: foreach_append)
  show ?case
  proof (cases "pte_of (mem s) pg ?i AND 1 = 0")
    case True
    then have "C ?i = {}" using kids_invalid[OF C(2) i(1)] by blast
    moreover have "freewalk_body d pg n t = Ok () t"
      using True en by (simp add: freewalk_body_def)
    ultimately show ?thesis using step t US by (intro exI[of _ t]) (auto simp: freed_def)
  next
    case False
    have "agree (C ?i) (mem s) (mem t)"
      using di(1) F(3) C(3) UN CN[OF i(1)] by (intro same_off_agree[OF t(4)]) auto
    from child[OF i(1) False this t(2) di(2) t(3)] obtain t' where
      t': "freewalk d (PTE2PA (pte_of (mem s) pg ?i)) t = Ok () t'" "kmem_free t' (F \<union> ?U n \<union> C ?i)"
        "kmem_frame t t'" "same_off (C ?i) (mem t) (mem t')"
      by (auto simp: freed_def)
    let ?t = "t'\<lparr>mem := store64 (mem t') (pg + 8 * ?i) 0\<rparr>"
    have e14: "pte_of (mem s) pg ?i AND 14 = 0" using kids_valid[OF C(2) i(1) False] by simp
    have run: "freewalk_body d pg n t = Ok () ?t"
      using False en t'(1) e14 by (simp add: freewalk_body_def)
    have so: "same_off {pg} (mem t') (mem ?t)" using same_off_store[OF C(1) i(1)] by simp
    have pgn: "pg \<notin> F \<union> ?U n \<union> C ?i" using C(3) F(2) kids_root[OF C(2)] lt(1) i(1) by auto
    have "agree (F \<union> ?U n \<union> C ?i) (mem t') (mem ?t)"
      using pgn C(1) free_pages[OF t'(2)] by (intro same_off_agree[OF so]) auto
    then have kf: "kmem_free ?t (F \<union> ?U n \<union> C ?i)"
      using kmem_free_agree[OF t'(2)] by simp
    have "pte_of (mem ?t) pg j = pte_of (mem s) pg j" if "Suc n \<le> unat j" "j < 512" for j
    proof -
      have "j \<noteq> ?i" using that i(2) by auto
      then have "pte_of (mem ?t) pg j = pte_of (mem t') pg j"
        using pte_of_store[OF C(1) i(1) that(2)] by simp
      also have "\<dots> = pte_of (mem t) pg j"
        using kids_root[OF C(2) i(1)] C(1) F(3) CN[OF i(1)] that(2)
        by (intro pte_of_agree same_off_agree[OF t'(4)]) auto
      finally show ?thesis using t(5) that by simp
    qed
    moreover have "same_off (insert pg (?U (Suc n))) (mem s) (mem ?t)"
      unfolding US using same_off_trans[OF same_off_trans[OF t(4) t'(4)] so]
      by (elim same_off_mono) auto
    moreover have "freed s F (?U (Suc n)) ?t"
      using kf US kmem_frame_trans[OF t(3) t'(3)] by (simp add: freed_def Un_assoc)
    ultimately show ?thesis using step run by (intro exI[of _ ?t]) simp
  qed
qed

lemma all_indices: "(\<Union>i\<in>{..<512}. C (of_nat i)) = (\<Union>i\<in>{..<512}. C (i :: u64))"
proof -
  have "of_nat ` {..<512 :: nat} = {..<512 :: u64}"
  proof (intro equalityI subsetI)
    fix x :: u64 assume "x \<in> of_nat ` {..<512}"
    then show "x \<in> {..<512}" by (auto simp: word_less_nat_alt unsigned_of_nat take_bit_nat_eq_self)
  next
    fix x :: u64 assume "x \<in> {..<512}"
    then show "x \<in> of_nat ` {..<512}"
      by (intro image_eqI[of _ _ "unat x"]) (auto simp: word_less_nat_alt)
  qed
  then show ?thesis by (metis UN_extend_simps(10))
qed

lemma freewalk_node:
  assumes C: "page_aligned pg" "kids l (mem s) pg C" "N = insert pg (\<Union>i\<in>{..<512}. C i)"
    and F: "kmem_free s F" "N \<inter> F = {}" "\<forall>q \<in> N. ram_page (kend s) q"
    and child: "\<And>i t G. i < 512 \<Longrightarrow> pte_of (mem s) pg i AND 1 \<noteq> 0 \<Longrightarrow> agree (C i) (mem s) (mem t) \<Longrightarrow>
      kmem_free t G \<Longrightarrow> C i \<inter> G = {} \<Longrightarrow> kmem_frame s t \<Longrightarrow>
      \<exists>t'. freewalk d (PTE2PA (pte_of (mem s) pg i)) t = Ok () t' \<and> freed t G (C i) t'
        \<and> same_off (C i) (mem t) (mem t')"
  shows "\<exists>s'. freewalk (Suc d) pg s = Ok () s' \<and> freed s F N s' \<and> same_off N (mem s) (mem s')"
proof -
  have "\<forall>q \<in> N. page_aligned q" using F(3) ram_page_aligned by blast
  then have "\<exists>t. foreach [0..<512] (freewalk_body d pg) s = Ok () t
      \<and> freed s F (\<Union>i\<in>{..<512}. C (of_nat i)) t
      \<and> same_off (insert pg (\<Union>i\<in>{..<512}. C (of_nat i))) (mem s) (mem t)
      \<and> (\<forall>j. 512 \<le> unat j \<and> j < 512 \<longrightarrow> pte_of (mem t) pg j = pte_of (mem s) pg j)"
    by (intro freewalk_loop[OF C F(1,2)] child) auto
  then obtain t where
    t: "foreach [0..<512] (freewalk_body d pg) s = Ok () t" "kmem_free t (F \<union> (\<Union>i\<in>{..<512}. C i))"
      "kmem_frame s t" "same_off N (mem s) (mem t)"
    using C(3) all_indices[of C] by (auto simp: freed_def)
  have "ram_page (kend t) pg" "pg \<notin> F \<union> (\<Union>i\<in>{..<512}. C i)"
    using C(3) F(2,3) t(3) kids_root[OF C(2)] by (auto simp: kmem_frame_def)
  from kmem_alloc.free_some[OF t(2) this] obtain s' where
    s': "kfree pg t = Ok () s'" "kmem_free s' (insert pg (F \<union> (\<Union>i\<in>{..<512}. C i)))" "kmem_frame t s'"
      "only_page pg (mem t) (mem s')" by blast
  have "same_off N (mem s) (mem s')"
    using same_off_trans[OF t(4), of "{pg}"] s'(4) C(3) by (simp add: same_off_only_page)
  moreover have "freed s F N s'"
    using s'(2) kmem_frame_trans[OF t(3) s'(3)] C(3) by (simp add: freed_def)
  ultimately show ?thesis using t(1) s'(1) by (auto simp: freewalk_Suc)
qed

lemma freewalk_frees:
  assumes "ptree l (mem s) pg N" "no_leaf l (mem s) pg" "kmem_free s F" "N \<inter> F = {}"
    "\<forall>q \<in> N. ram_page (kend s) q"
  shows "\<exists>s'. freewalk (Suc l) pg s = Ok () s' \<and> freed s F N s' \<and> same_off N (mem s) (mem s')"
  using assms
proof (induction l arbitrary: s pg N F)
  case 0
  have k: "kids 0 (mem s) pg (\<lambda>_. {})" using 0(2) by (simp add: kids_def)
  have N: "N = insert pg (\<Union>i\<in>{..<512 :: u64}. {})" and pg: "page_aligned pg" using 0(1) by auto
  show ?case using 0(2) by (intro freewalk_node[OF pg k N 0(3-5)]) auto
next
  case (Suc l)
  obtain C where C: "page_aligned pg" "kids l (mem s) pg C" "N = insert pg (\<Union>i\<in>{..<512}. C i)"
    using Suc.prems(1) by (rule ptree_SucE)
  show ?case
  proof (rule freewalk_node[OF C Suc.prems(3-5)])
    fix i t G
    let ?c = "PTE2PA (pte_of (mem s) pg i)"
    assume h: "i < 512" "pte_of (mem s) pg i AND 1 \<noteq> 0" "agree (C i) (mem s) (mem t)" "kmem_free t G"
      "C i \<inter> G = {}" "kmem_frame s t"
    have pt: "ptree l (mem s) ?c (C i)" using kids_valid[OF C(2) h(1,2)] by blast
    then have "ptree l (mem t) ?c (C i)" "no_leaf l (mem t) ?c"
      using ptree_agree[OF _ h(3)] no_leaf_agree[OF _ h(3)] Suc.prems(2) h(1,2) by auto
    moreover have "\<forall>q \<in> C i. ram_page (kend t) q"
      using Suc.prems(5) C(3) h(1,6) by (auto simp: kmem_frame_def)
    ultimately show "\<exists>t'. freewalk (Suc l) ?c t = Ok () t' \<and> freed t G (C i) t' \<and> same_off (C i) (mem t) (mem t')"
      using Suc.IH h(4,5) by blast
  qed
qed

lemma uvmfree_frees:
  assumes "pt_ok 2 s pt N F" "unat siz \<le> 2 ^ 38" "freeable s pt (N \<union> F) 0 (upn siz)"
    "\<And>x. upn siz \<le> pn x \<Longrightarrow> umap (mem s) pt x = None" "\<forall>q \<in> N. ram_page (kend s) q"
  shows "\<exists>s'. uvmfree pt siz s = Ok () s' \<and> kmem_free s' (F \<union> N \<union> frames (umap (mem s) pt) 0 (upn siz))
    \<and> kmem_frame s s' \<and> same_off (N \<union> frames (umap (mem s) pt) 0 (upn siz)) (mem s) (mem s')"
proof -
  let ?X = "frames (umap (mem s) pt) 0 (upn siz)" and ?n = "PGROUNDUP siz div 4096"
  have n: "unat ?n = upn siz" using pn_PGROUNDUP[OF assms(2)] by (simp add: pn_def unat_div)
  have b: "4096 * upn siz \<le> 2 ^ 38"
    using PGROUNDUP_bound[OF assms(2)] aligned_pn[of "PGROUNDUP siz"] pn_PGROUNDUP[OF assms(2)] by simp
  obtain s1 where s1: "(if siz > 0 then uvmunmap pt 0 ?n True s else Ok () s) = Ok () s1"
      "released s pt N F s1 ?X" "umap (mem s1) pt = (\<lambda>_. None)"
  proof (cases "siz > 0")
    case True
    obtain s1 where "uvmunmap pt 0 ?n True s = Ok () s1" "released s pt N F s1 ?X"
        "umap (mem s1) pt = unmap_range (umap (mem s) pt) 0 (upn siz)"
      using uvmunmap_range[OF assms(1), of 0 ?n True] n b assms(3) by auto
    then show thesis using that[of s1] True assms(4) by (auto simp: unmap_range_def fun_eq_iff not_less)
  next
    case False
    then have "siz = 0" by (simp add: word_less_nat_alt unat_eq_zero)
    then have "upn siz = 0" by (simp add: upn_def)
    then show thesis using that[of s] False assms(1,4) by (auto simp: released_def fun_eq_iff)
  qed
  have ok: "ptree 2 (mem s1) pt N" "kmem_free s1 (F \<union> ?X)" "N \<inter> (F \<union> ?X) = {}" "kmem_frame s s1"
      "same_off (N \<union> ?X) (mem s) (mem s1)"
    using s1(2) by (auto simp: released_def pt_ok_def)
  have ram: "\<forall>q \<in> N. ram_page (kend s1) q" using assms(5) ok(4) by (simp add: kmem_frame_def)
  obtain s2 where s2: "freewalk 3 pt s1 = Ok () s2" "freed s1 (F \<union> ?X) N s2" "same_off N (mem s1) (mem s2)"
    using freewalk_frees[OF ok(1) umap_none_no_leaf[OF s1(3)] ok(2,3) ram] by (auto simp: numeral_3_eq_3)
  have "F \<union> ?X \<union> N = F \<union> N \<union> ?X" "N \<union> ?X \<union> N = N \<union> ?X" by auto
  then show ?thesis
    using s1(1) s2 same_off_trans[OF ok(5) s2(3)] kmem_frame_trans[OF ok(4)]
    by (auto simp: uvmfree_def freed_def)
qed

end
