(* ===== verification/Usercopy.thy ===== *)
theory Usercopy
  imports Uvmfree
begin

text \<open>
  The copies between user and kernel memory of \<^verbatim>\<open>vm.c\<close>: \<^verbatim>\<open>copyin\<close> returns exactly the bytes the
  user sees in the range, across page boundaries, and \<^verbatim>\<open>copyout\<close> stores exactly the given bytes
  there and changes nothing else.
\<close>

section \<open>Copies between user and kernel\<close>

definition uaddr :: "(u64 \<Rightarrow> u64 option) \<Rightarrow> u64 \<Rightarrow> addr" where
  "uaddr f va = (case f va of None \<Rightarrow> 0 | Some e \<Rightarrow> PTE2PA e + (va - PGROUNDDOWN va))"

definition user_bytes :: "memory \<Rightarrow> addr \<Rightarrow> u64 \<Rightarrow> nat \<Rightarrow> u8 list" where
  "user_bytes m pt va n = map (\<lambda>i. m (uaddr (umap m pt) (va + of_nat i))) [0..<n]"

text \<open>The \<open>n\<close> bytes from \<open>va\<close> on are mapped for the user, and writable if \<open>w\<close>.\<close>

definition accessible :: "(u64 \<Rightarrow> u64 option) \<Rightarrow> bool \<Rightarrow> u64 \<Rightarrow> nat \<Rightarrow> bool" where
  "accessible f w va n \<longleftrightarrow> unat va + n \<le> 2 ^ 38 \<and> (\<forall>i<n. \<exists>e. f (va + of_nat i) = Some e
     \<and> e AND PTE_U \<noteq> 0 \<and> (w \<longrightarrow> e AND PTE_W \<noteq> 0) \<and> PTE2PA e \<noteq> 0)"

lemma walkaddr_eq:
  assumes "ptree 2 (mem s) pt N" "0 \<notin> N" "va < MAXVA"
  shows "walkaddr pt va s = Ok (case umap (mem s) pt va of None \<Rightarrow> 0
    | Some e \<Rightarrow> if e AND PTE_U = 0 then 0 else PTE2PA e) s"
proof (cases "slot 2 (mem s) pt va")
  case None
  then show ?thesis
    using assms(3) umap_no_slot[OF None] walk_find[OF assms(3), of pt s] by (simp add: walkaddr_def)
next
  case (Some a)
  then show ?thesis
    using leD[of va MAXVA] assms(3) umap_slot[OF Some assms(3)] walk_find[OF assms(3), of pt s] slot_nonzero[OF assms(1,2) Some]
    by (auto simp: walkaddr_def)
qed

lemma walk_leaf:
  assumes "ptree 2 (mem s) pt N" "0 \<notin> N" "va < MAXVA" "umap (mem s) pt va = Some e"
  shows "\<exists>pte. walk pt va False s = Ok pte s \<and> pte \<noteq> 0 \<and> load64 (mem s) pte = e"
proof (cases "slot 2 (mem s) pt va")
  case None
  then show ?thesis using umap_no_slot[OF None] assms(4) by simp
next
  case (Some a)
  then show ?thesis
    using umap_slot[OF Some assms(3)] walk_find[OF assms(3), of pt s] slot_nonzero[OF assms(1,2) Some] assms(4)
    by (auto split: if_splits)
qed

text \<open>The part of a page from an address to the page's end is contiguous in memory.\<close>

lemma chunk_page:
  assumes "i < room va" "unat va + i < 2 ^ 38"
  shows "pn (va + of_nat i) = pn va" "PGROUNDDOWN (va + of_nat i) = PGROUNDDOWN va"
proof -
  have u: "unat (va + of_nat i) = unat va + i" using assms(2) by (intro unat_plus_of_nat) simp
  have "unat va mod 4096 + i < 4096" using assms(1) by (simp add: room_eq)
  then have "(unat va + i) div 4096 = unat va div 4096"
    using div_mult_self4[of 4096 "unat va div 4096" "unat va mod 4096 + i"] mult_div_mod_eq[of 4096 "unat va"]
    by simp
  then show p: "pn (va + of_nat i) = pn va" by (simp add: pn_def u)
  show "PGROUNDDOWN (va + of_nat i) = PGROUNDDOWN va"
    using p by (simp add: word_unat_eq_iff unat_PGROUNDDOWN pn_def)
qed

lemma chunk_uaddr:
  assumes "i < room va" "unat va + i < 2 ^ 38" "umap m pt va = Some e"
  shows "umap m pt (va + of_nat i) = Some e"
    "uaddr (umap m pt) (va + of_nat i) = PTE2PA e + (va - PGROUNDDOWN va) + of_nat i"
  using umap_pn[OF chunk_page(1)[OF assms(1,2)], of m pt] chunk_page(2)[OF assms(1,2)] assms(3)
  by (auto simp: uaddr_def algebra_simps)

lemma next_page:
  assumes "unat va + room va \<le> 2 ^ 38"
  shows "PGROUNDDOWN va + 4096 = va + of_nat (room va)"
proof -
  have "PGROUNDDOWN va + 4096 = va + (4096 - (va - PGROUNDDOWN va))" by (simp add: algebra_simps)
  then show ?thesis by (simp add: room_def)
qed

lemma accessible_next:
  assumes "accessible f w va n" "k \<le> n"
  shows "accessible f w (va + of_nat k) (n - k)"
proof -
  have "unat (va + of_nat k) = unat va + k"
    using assms by (intro unat_plus_of_nat) (auto simp: accessible_def)
  moreover have "\<exists>e. f (va + of_nat k + of_nat i) = Some e \<and> e AND 16 \<noteq> 0 \<and> (w \<longrightarrow> e AND 4 \<noteq> 0) \<and> PTE2PA e \<noteq> 0"
    if "i < n - k" for i
  proof -
    have "k + i < n" "va + of_nat k + of_nat i = va + of_nat (k + i)" using that by (simp_all add: add.assoc)
    then show ?thesis using assms(1) unfolding accessible_def by metis
  qed
  ultimately show ?thesis using assms by (auto simp: accessible_def)
qed

lemma accessible_first:
  assumes "accessible f w va n" "0 < n"
  shows "va < MAXVA" "\<exists>e. f va = Some e \<and> e AND 16 \<noteq> 0 \<and> (w \<longrightarrow> e AND 4 \<noteq> 0) \<and> PTE2PA e \<noteq> 0"
  using assms unfolding accessible_def by (auto simp: word_less_nat_alt dest!: spec[of _ "0 :: nat"])

lemma PGROUNDDOWN_pn: "pn (PGROUNDDOWN va) = pn va"
  by (simp add: pn_def unat_PGROUNDDOWN)

lemma PGROUNDDOWN_MAXVA: "va < MAXVA \<Longrightarrow> PGROUNDDOWN va < MAXVA"
  by (simp add: word_less_nat_alt unat_PGROUNDDOWN)

lemma user_bytes_split:
  "k \<le> n \<Longrightarrow> user_bytes m pt va n = user_bytes m pt va k @ user_bytes m pt (va + of_nat k) (n - k)"
proof (rule nth_equalityI)
  assume "k \<le> n"
  then show "length (user_bytes m pt va n) = length (user_bytes m pt va k @ user_bytes m pt (va + of_nat k) (n - k))"
    by (simp add: user_bytes_def)
  fix i assume i: "i < length (user_bytes m pt va n)"
  have "va + of_nat k + of_nat (i - k) = va + of_nat i" if "k \<le> i" using that by (simp add: of_nat_diff)
  then show "user_bytes m pt va n ! i = (user_bytes m pt va k @ user_bytes m pt (va + of_nat k) (n - k)) ! i"
    using i by (cases "i < k") (auto simp: user_bytes_def nth_append not_less)
qed

lemma read_chunk:
  assumes "umap m pt va = Some e" "k \<le> room va" "unat va + k \<le> 2 ^ 38"
  shows "read_bytes m (PTE2PA e + (va - PGROUNDDOWN va)) k = user_bytes m pt va k"
  using chunk_uaddr(2)[OF _ _ assms(1)] assms(2,3) by (auto simp: read_bytes_def user_bytes_def)

lemma copyin_reads:
  assumes "ptree 2 (mem s) pt N" "0 \<notin> N" "accessible (umap (mem s) pt) False va n"
  shows "copyin pt va n s = Ok (0, user_bytes (mem s) pt va n) s"
  using assms(3)
proof (induction n arbitrary: va rule: less_induct)
  case (less n)
  show ?case
  proof (cases "n = 0")
    case True
    then show ?thesis by (simp add: copyin.simps user_bytes_def)
  next
    case False
    let ?v = "PGROUNDDOWN va" and ?k = "min (room va) n"
    obtain e where e: "umap (mem s) pt va = Some e" "e AND 16 \<noteq> 0" "PTE2PA e \<noteq> 0" and vm: "va < MAXVA"
      using accessible_first[OF less.prems] False by auto
    have "umap (mem s) pt ?v = Some e" using e(1) umap_pn[OF PGROUNDDOWN_pn] by metis
    then have wa: "walkaddr pt ?v s = Ok (PTE2PA e) s"
      using walkaddr_eq[OF assms(1,2) PGROUNDDOWN_MAXVA[OF vm]] e(2) by simp
    have b: "unat va + n \<le> 2 ^ 38" using less.prems by (simp add: accessible_def)
    have ch: "read_bytes (mem s) (PTE2PA e + (va - ?v)) ?k = user_bytes (mem s) pt va ?k"
      using b by (intro read_chunk e(1)) auto
    have tail: "copyin pt (?v + 4096) (n - ?k) s = Ok (0, user_bytes (mem s) pt (va + of_nat ?k) (n - ?k)) s"
    proof (cases "room va < n")
      case True
      then have "?v + 4096 = va + of_nat ?k" using next_page[of va] b by simp
      then show ?thesis
        using less.IH[of "n - ?k" "va + of_nat ?k"] False accessible_next[OF less.prems, of ?k] by simp
    next
      case False
      then show ?thesis by (simp add: copyin.simps user_bytes_def)
    qed
    show ?thesis
      using wa e(3) False ch tail user_bytes_split[of ?k n "mem s" pt va]
      by (subst copyin.simps) (simp add: Let_def)
  qed
qed

lemma write_chunk:
  assumes "page_aligned p" "length bs \<le> room va"
  defines "b \<equiv> p + (va - PGROUNDDOWN va)"
  shows "i < length bs \<Longrightarrow> write_bytes m b bs (b + of_nat i) = bs ! i"
    "(\<And>i. i < length bs \<Longrightarrow> x \<noteq> b + of_nat i) \<Longrightarrow> write_bytes m b bs x = m x"
    "same_off {p} m (write_bytes m b bs)"
proof -
  have off: "unat va mod 4096 + length bs \<le> 4096" using assms(2) by (simp add: room_eq)
  have ub: "unat b = unat p + unat va mod 4096"
  proof -
    have "va - PGROUNDDOWN va = of_nat (unat va mod 4096)"
      using page_offset[of va] by (metis unsigned_def word_unat_eq_iff of_nat_unat ucast_id)
    moreover have "unat p + unat va mod 4096 < 2 ^ 64"
      using page_end[OF assms(1)] mod_less_divisor[of 4096 "unat va"] by linarith
    ultimately show ?thesis unfolding b_def by (simp add: unat_plus_of_nat)
  qed
  have be: "unat b + length bs \<le> unat p + 4096" using ub off by simp
  have bi: "unat (b + of_nat i) = unat b + i" if "i < length bs" for i
    using that be page_end[OF assms(1)] by (intro unat_plus_of_nat) simp
  show "write_bytes m b bs (b + of_nat i) = bs ! i" if "i < length bs"
    using bi[OF that] that by (simp add: write_bytes_def)
  show "write_bytes m b bs x = m x" if h: "\<And>i. i < length bs \<Longrightarrow> x \<noteq> b + of_nat i"
  proof (cases "unat b \<le> unat x \<and> unat x < unat b + length bs")
    case True
    then have "unat x - unat b < length bs" by auto
    moreover have "x = b + of_nat (unat x - unat b)"
      using True bi[OF calculation] by (simp add: word_unat_eq_iff)
    ultimately show ?thesis using h by blast
  qed (auto simp: write_bytes_def)
  show "same_off {p} m (write_bytes m b bs)"
    using be ub by (auto simp: same_off_def write_bytes_def in_page_def)
qed

lemma copyout_writes:
  assumes "ptree 2 (mem s) pt N" "0 \<notin> N" "accessible (umap (mem s) pt) True va (length src)"
    "\<And>i e. i < length src \<Longrightarrow> umap (mem s) pt (va + of_nat i) = Some e \<Longrightarrow> PTE2PA e \<notin> N"
    "inj_on (\<lambda>i. uaddr (umap (mem s) pt) (va + of_nat i)) {..<length src}"
  shows "\<exists>m. copyout pt va src s = Ok 0 (s\<lparr>mem := m\<rparr>) \<and> ptree 2 m pt N \<and> umap m pt = umap (mem s) pt
    \<and> (\<forall>i<length src. m (uaddr (umap (mem s) pt) (va + of_nat i)) = src ! i)
    \<and> (\<forall>x. (\<forall>i<length src. x \<noteq> uaddr (umap (mem s) pt) (va + of_nat i)) \<longrightarrow> m x = mem s x)"
  using assms(1,3-5)
proof (induction "length src" arbitrary: va src s rule: less_induct)
  case less
  let ?f = "umap (mem s) pt"
  show ?case
  proof (cases "src = []")
    case True
    then show ?thesis using less.prems(1) by (intro exI[of _ "mem s"]) (simp add: copyout.simps)
  next
    case False
    let ?v = "PGROUNDDOWN va" and ?k = "min (room va) (length src)"
    obtain e where e: "?f va = Some e" "e AND 16 \<noteq> 0" "e AND 4 \<noteq> 0" "PTE2PA e \<noteq> 0" and vm: "va < MAXVA"
      using accessible_first[OF less.prems(2)] False by auto
    have fv: "?f ?v = Some e" using e(1) umap_pn[OF PGROUNDDOWN_pn] by metis
    note vv = PGROUNDDOWN_MAXVA[OF vm]
    have wa: "walkaddr pt ?v s = Ok (PTE2PA e) s"
      using walkaddr_eq[OF less.prems(1) assms(2) vv] e(2) fv by simp
    obtain pte where pte: "walk pt ?v False s = Ok pte s" "pte \<noteq> 0" "load64 (mem s) pte = e"
      using walk_leaf[OF less.prems(1) assms(2) vv fv] by blast
    let ?b = "PTE2PA e + (va - ?v)" and ?bs = "take ?k src"
    let ?m1 = "write_bytes (mem s) ?b ?bs"
    have lk: "length ?bs = ?k" "?k \<le> room va" "0 < ?k" using False by auto
    have b: "unat va + length src \<le> 2 ^ 38" using less.prems(2) by (simp add: accessible_def)
    have ua: "uaddr ?f (va + of_nat i) = ?b + of_nat i" if "i < ?k" for i
      using that b e(1) by (intro chunk_uaddr(2)) auto
    have wc: "\<And>i. i < ?k \<Longrightarrow> ?m1 (?b + of_nat i) = src ! i"
        "\<And>x. (\<And>i. i < ?k \<Longrightarrow> x \<noteq> ?b + of_nat i) \<Longrightarrow> ?m1 x = mem s x" "same_off {PTE2PA e} (mem s) ?m1"
      using write_chunk[OF page_aligned_PTE2PA, of ?bs va] lk by auto
    have "PTE2PA e \<notin> N" using less.prems(3)[of 0 e] e(1) False by simp
    then have "agree N (mem s) ?m1"
      using ptree_pages[OF less.prems(1)] by (intro same_off_agree[OF wc(3)]) auto
    from ptree_agree[OF less.prems(1) this]
    have t1: "ptree 2 ?m1 pt N" "umap ?m1 pt = ?f" by (auto simp: umap_def fun_eq_iff)
    let ?s1 = "s\<lparr>mem := ?m1\<rparr>" and ?va1 = "va + of_nat ?k" and ?r = "drop ?k src"
    have va1: "?va1 + of_nat i = va + of_nat (?k + i)" for i by (simp add: add.assoc)
    have ri: "?k + i < length src" if "i < length ?r" for i using that by simp
    have step: "copyout pt va src s = copyout pt (?v + 4096) ?r ?s1"
      using False wa pte e(3,4) vv by (subst copyout.simps) (simp add: Let_def linorder_not_le[symmetric])
    have "\<exists>m. copyout pt (?v + 4096) ?r ?s1 = Ok 0 (?s1\<lparr>mem := m\<rparr>) \<and> ptree 2 m pt N \<and> umap m pt = ?f
      \<and> (\<forall>i<length ?r. m (uaddr ?f (?va1 + of_nat i)) = ?r ! i)
      \<and> (\<forall>x. (\<forall>i<length ?r. x \<noteq> uaddr ?f (?va1 + of_nat i)) \<longrightarrow> m x = mem ?s1 x)"
    proof (cases "room va < length src")
      case True
      then have nx: "?v + 4096 = ?va1" using next_page[of va] b by simp
      have inj: "inj_on (\<lambda>i. uaddr ?f (?va1 + of_nat i)) {..<length ?r}"
      proof (rule inj_onI)
        fix x y assume h: "x \<in> {..<length ?r}" "y \<in> {..<length ?r}"
          "uaddr ?f (?va1 + of_nat x) = uaddr ?f (?va1 + of_nat y)"
        have "?k + x < length src" "?k + y < length src" using ri h(1,2) by blast+
        then have "?k + x = ?k + y" using inj_onD[OF less.prems(4) h(3)[unfolded va1]] by blast
        then show "x = y" by simp
      qed
      have "\<And>i w. i < length ?r \<Longrightarrow> ?f (?va1 + of_nat i) = Some w \<Longrightarrow> PTE2PA w \<notin> N"
        unfolding va1 using less.prems(3) ri by blast
      moreover have "accessible ?f True ?va1 (length ?r)"
        using accessible_next[OF less.prems(2), of ?k] by simp
      moreover have "length ?r < length src" using lk(3) \<open>src \<noteq> []\<close> by simp
      moreover have u1: "umap (mem ?s1) pt = ?f" and "ptree 2 (mem ?s1) pt N" using t1 by simp_all
      ultimately show ?thesis
        using less.hyps[of ?r ?s1 ?va1, unfolded u1] inj unfolding nx by blast
    next
      case False
      then show ?thesis using t1 by (intro exI[of _ ?m1]) (simp add: copyout.simps)
    qed
    then obtain m where m: "copyout pt (?v + 4096) ?r ?s1 = Ok 0 (?s1\<lparr>mem := m\<rparr>)" "ptree 2 m pt N" "umap m pt = ?f"
        "\<And>i. i < length ?r \<Longrightarrow> m (uaddr ?f (?va1 + of_nat i)) = ?r ! i"
        "\<And>x. (\<And>i. i < length ?r \<Longrightarrow> x \<noteq> uaddr ?f (?va1 + of_nat i)) \<Longrightarrow> m x = mem ?s1 x"
      by blast
    have m5: "m x = ?m1 x" if "\<And>i. i < length ?r \<Longrightarrow> x \<noteq> uaddr ?f (?va1 + of_nat i)" for x
      using m(5)[OF that] by simp
    have "m (uaddr ?f (va + of_nat i)) = src ! i" if i: "i < length src" for i
    proof (cases "i < ?k")
      case True
      have "uaddr ?f (va + of_nat i) \<noteq> uaddr ?f (?va1 + of_nat j)" if "j < length ?r" for j
      proof
        assume eq: "uaddr ?f (va + of_nat i) = uaddr ?f (?va1 + of_nat j)"
        have "i = ?k + j" using inj_onD[OF less.prems(4) eq[unfolded va1]] i ri[OF that] by blast
        then show False using True by linarith
      qed
      then show ?thesis using m5 wc(1)[OF True] ua[OF True] by metis
    next
      case False
      then have "i - ?k < length ?r" "?k + (i - ?k) = i" using i by auto
      then show ?thesis using m(4)[of "i - ?k"] va1[of "i - ?k"] by simp
    qed
    moreover have "m x = mem s x" if x: "\<forall>i<length src. x \<noteq> uaddr ?f (va + of_nat i)" for x
    proof -
      have "m x = ?m1 x" using x ri m5 unfolding va1 by blast
      also have "\<dots> = mem s x" using x ua by (intro wc(2)) auto
      finally show ?thesis .
    qed
    ultimately show ?thesis using step m(1-3) by (intro exI[of _ m]) simp
  qed
qed

end
