(* ===== verification/Vmprops.thy ===== *)
theory Vmprops
  imports Uvmcopy Uvmfree Usercopy
begin

text \<open>
  What the operations of \<^verbatim>\<open>kernel/vm.c\<close> promise their callers, stated over the view \<open>umap\<close> of a
  page table, the set of free pages and the contents of the mapped frames. The first section
  builds a small concrete machine at which the statements are tried.
\<close>

section \<open>A small machine\<close>

definition give_page :: "addr \<Rightarrow> kmem \<Rightarrow> kmem" where
  "give_page p s = s\<lparr>mem := store64 (fill_bytes (mem s) p 1 4096) p (freelist s), freelist := p\<rparr>"

definition bare :: kmem where
  "bare = \<lparr>mem = (\<lambda>_. 0), held = {}, kend = 0x80001000, trampoline_pa = 0x80000000, freelist = 0\<rparr>"

text \<open>The pages from 0x80010000 on are free; those below are zero and in nobody's use.\<close>

definition small :: kmem where
  "small = fold give_page (map (\<lambda>i. 0x80010000 + 0x1000 * of_nat i) [0..<8]) bare"

definition small_free :: "addr set" where
  "small_free = {0x80010000, 0x80011000, 0x80012000, 0x80013000, 0x80014000, 0x80015000,
     0x80016000, 0x80017000}"

lemma give_page_inv:
  assumes "kmem_inv s ps" "distinct qs" "set qs \<inter> set ps = {}" "\<forall>q \<in> set qs. ram_page (kend s) q"
  shows "kmem_inv (fold give_page qs s) (rev qs @ ps) \<and> held (fold give_page qs s) = held s
    \<and> kend (fold give_page qs s) = kend s \<and> same_off (set qs) (mem s) (mem (fold give_page qs s))"
  using assms
proof (induction qs arbitrary: s ps)
  case (Cons q qs)
  have inv: "kmem_inv (give_page q s) (q # ps)"
    using kfree_inv[OF Cons.prems(1)] Cons.prems by (simp add: give_page_def)
  have IH: "kmem_inv (fold give_page qs (give_page q s)) (rev qs @ q # ps)
      \<and> held (fold give_page qs (give_page q s)) = held (give_page q s)
      \<and> kend (fold give_page qs (give_page q s)) = kend (give_page q s)
      \<and> same_off (set qs) (mem (give_page q s)) (mem (fold give_page qs (give_page q s)))"
    using Cons.prems by (intro Cons.IH[OF inv]) (auto simp: give_page_def)
  have "same_off {q} (mem s) (mem (give_page q s))"
    using only_page_trans[OF only_page_fill only_page_store[of q q]]
    by (simp add: give_page_def flip: same_off_only_page)
  then have "same_off (set (q # qs)) (mem s) (mem (fold give_page qs (give_page q s)))"
    using same_off_trans[of "{q}" "mem s" "mem (give_page q s)" "set qs"] IH by simp
  moreover have "held (give_page q s) = held s" "kend (give_page q s) = kend s"
    by (simp_all add: give_page_def)
  ultimately show ?case using IH by simp
qed simp

lemma small_state:
  "kmem_free small small_free" "held small = {}" "kend small = 0x80001000"
  "same_off small_free (\<lambda>_. 0) (mem small)"
proof -
  let ?qs = "map (\<lambda>i. 0x80010000 + 0x1000 * of_nat i) [0..<8] :: addr list"
  have qs: "?qs = [0x80010000, 0x80011000, 0x80012000, 0x80013000, 0x80014000, 0x80015000,
     0x80016000, 0x80017000]"
    by (simp add: upt_conv_Cons)
  have "kmem_inv bare []" by (simp add: kmem_inv_def bare_def)
  moreover have "distinct ?qs" unfolding qs by simp
  moreover have "\<forall>q \<in> set ?qs. ram_page (kend bare) q"
    unfolding qs by (simp add: ram_page_def bare_def page_aligned_def)
  ultimately have all: "kmem_inv small (rev ?qs) \<and> held small = held bare
    \<and> kend small = kend bare \<and> same_off (set ?qs) (mem bare) (mem small)"
    unfolding small_def using give_page_inv[of bare "[]" ?qs] by simp
  have set: "set ?qs = small_free" unfolding qs small_free_def by auto
  show "held small = {}" "kend small = 0x80001000" using all by (auto simp: bare_def)
  then show "kmem_free small small_free"
    using all set unfolding kmem_free_def by (intro conjI exI[of _ "rev ?qs"]) auto
  show "same_off small_free (\<lambda>_. 0) (mem small)" using all set by (simp add: bare_def)
qed

lemma small_page_zero:
  assumes "page_aligned pg" "pg \<notin> small_free" "i < 512"
  shows "pte_of (mem small) pg i = 0"
proof -
  have al: "\<forall>p \<in> small_free. page_aligned p" using free_pages[OF small_state(1)] by blast
  have "agree {pg} (\<lambda>_. 0) (mem small)"
    using assms al by (intro same_off_agree[OF small_state(4)]) auto
  then have "pte_of (mem small) pg i = pte_of (\<lambda>_. 0) pg i" by (rule pte_of_agree[OF _ assms(1,3)])
  also have "\<dots> = 0" by (simp add: pte_of_def load64_def read_bytes_def numeral_eq_Suc)
  finally show ?thesis .
qed

lemma small_table:
  assumes "page_aligned pg" "pg \<notin> small_free" "pg \<noteq> 0"
  shows "pt_ok 2 small pg {pg} small_free" "umap (mem small) pg = (\<lambda>_. None)"
proof -
  have "ptree 2 (mem small) pg {pg}" "\<And>va. lookup 2 (mem small) pg va = None"
    using ptree_zeroed[OF assms(1)] small_page_zero[OF assms(1,2)] by auto
  then show "pt_ok 2 small pg {pg} small_free" "umap (mem small) pg = (\<lambda>_. None)"
    using small_state(1) assms by (auto simp: pt_ok_def umap_def)
qed

text \<open>The same machine with an address space: one page, writable for the user, at address 0.\<close>

definition user_pte :: u64 where
  "user_pte = PA2PTE 0x80005000 OR (PTE_R OR PTE_W OR PTE_U) OR PTE_V"

definition small_user :: kmem where
  "small_user = small\<lparr>mem :=
     store64 (store64 (store64 (mem small) 0x80004000 user_pte)
       0x80003000 (PA2PTE 0x80004000 OR PTE_V)) 0x80002000 (PA2PTE 0x80003000 OR PTE_V)\<rparr>"

abbreviation (input) user_tables :: "addr set" where
  "user_tables \<equiv> {0x80002000, 0x80003000, 0x80004000}"

lemma link_table:
  assumes "page_aligned pg" "\<And>i. i < 512 \<Longrightarrow> pte_of m pg i = 0" "ptree l m c D" "pg \<notin> D"
  shows "ptree (Suc l) (store64 m pg (PA2PTE c OR 1)) pg (insert pg D)"
    "lookup (Suc l) (store64 m pg (PA2PTE c OR 1)) pg va =
       (if PX (Suc l) va = 0 then lookup l m c va else None)"
proof -
  let ?m = "store64 m pg (PA2PTE c OR 1)"
  have k: "kids l m pg (\<lambda>_. {})" using assms(2) by (simp add: kids_def)
  have c: "page_aligned c" using ptree_root[OF assms(3)] by simp
  have e: "pte_of ?m pg j = (if j = 0 then PA2PTE c OR 1 else 0)" if "j < 512" for j
    using pte_of_store[OF assms(1), of 0 j m "PA2PTE c OR 1"] that assms(2) by simp
  have "agree D m ?m"
    using same_off_store[OF assms(1), of 0 m "PA2PTE c OR 1"] assms(1,4) ptree_pages[OF assms(3)]
    by (intro same_off_agree[of "{pg}"]) auto
  from ptree_agree[OF assms(3) this]
  have t: "ptree l ?m c D" "\<And>va. lookup l ?m c va = lookup l m c va" by blast+
  have new: "pte_of ?m pg 0 AND 1 \<noteq> 0" "pte_of ?m pg 0 AND 14 = 0" "PTE2PA (pte_of ?m pg 0) = c"
    using e[of 0] table_entry_no_rwx PTE2PA_table[OF c] by auto
  have "ptree (Suc l) ?m pg (insert pg (D \<union> (\<Union>j\<in>{..<512 :: u64} - {0}. {})))"
    using e assms(2) new t(1) assms(4) by (intro ptree_graft[OF assms(1) k]) auto
  then show "ptree (Suc l) ?m pg (insert pg D)" by simp
  show "lookup (Suc l) ?m pg va = (if PX (Suc l) va = 0 then lookup l m c va else None)"
    using graft_lookup[OF k, of 0 ?m va] e assms(2) new(1,3) t(2) PX_less[of "Suc l" va]
    by (simp add: Let_def)
qed

lemma small_pages:
  "page_aligned 0x80002000" "page_aligned 0x80003000" "page_aligned 0x80004000"
  "page_aligned 0x80005000" "page_aligned 0x80006000"
  "0x80002000 \<notin> small_free" "0x80003000 \<notin> small_free" "0x80004000 \<notin> small_free"
  "0x80005000 \<notin> small_free" "0x80006000 \<notin> small_free"
  by (simp_all add: page_aligned_def small_free_def)

lemma user_pte_facts:
  "user_pte AND 1 \<noteq> 0" "PTE2PA user_pte = 0x80005000" "PTE_FLAGS user_pte = 0x17"
  "user_pte AND 16 \<noteq> 0" "user_pte AND 4 \<noteq> 0"
  by (simp_all add: user_pte_def PA2PTE_def PTE2PA_def PTE_FLAGS_def)

lemma PX_zero: "x < SV39_END \<Longrightarrow> PX 2 x = 0 \<and> PX 1 x = 0 \<and> PX 0 x = 0 \<longleftrightarrow> pn x = 0"
proof -
  assume x: "x < SV39_END"
  have "PX 2 x = 0 \<and> PX 1 x = 0 \<and> PX 0 x = 0 \<longleftrightarrow> (\<forall>k\<in>{0, 1, 2}. PX k x = PX k 0)"
    by (auto simp: PX_def)
  also have "\<dots> \<longleftrightarrow> (\<forall>k\<le>2. PX k x = PX k 0)"
    by (rule ball_cong[THEN trans]) (auto simp: le_Suc_eq numeral_2_eq_2)
  also have "\<dots> \<longleftrightarrow> pn x = 0" using same_page_PX[of 0 x] x by simp
  finally show ?thesis .
qed

lemma small_user_table:
  "pt_ok 2 small_user 0x80002000 user_tables small_free"
  "umap (mem small_user) 0x80002000 = (\<lambda>x. if pn x = 0 then Some user_pte else None)"
  "same_off user_tables (mem small) (mem small_user)"
  "held small_user = {}" "kend small_user = 0x80001000"
proof -
  let ?m0 = "store64 (mem small) 0x80004000 user_pte"
  let ?m1 = "store64 ?m0 0x80003000 (PA2PTE 0x80004000 OR 1)"
  let ?m2 = "store64 ?m1 0x80002000 (PA2PTE 0x80003000 OR 1)"
  have s0: "same_off {0x80004000} (mem small) ?m0"
    and s1: "same_off {0x80003000} ?m0 ?m1" and s2: "same_off {0x80002000} ?m1 ?m2"
    using same_off_store[OF small_pages(3), of 0] same_off_store[OF small_pages(2), of 0]
      same_off_store[OF small_pages(1), of 0] by simp_all
  have s01: "same_off {0x80004000, 0x80003000} (mem small) ?m1"
    using same_off_trans[OF s0 s1] by (simp add: insert_commute)
  show so: "same_off user_tables (mem small) (mem small_user)"
    using same_off_trans[OF s01 s2] by (simp add: small_user_def insert_commute)
  have z0: "pte_of ?m0 0x80003000 i = 0" if "i < 512" for i
    using same_off_agree[OF s0, of "{0x80003000}"] small_pages small_page_zero[OF _ _ that]
      pte_of_agree[OF _ small_pages(2) that] by simp
  have z1: "pte_of ?m1 0x80002000 i = 0" if "i < 512" for i
    using same_off_agree[OF s01, of "{0x80002000}"] small_pages small_page_zero[OF _ _ that]
      pte_of_agree[OF _ small_pages(1) that] by simp
  have t0: "ptree 0 ?m0 0x80004000 {0x80004000}" using small_pages by simp
  have t1: "ptree 1 ?m1 0x80003000 {0x80003000, 0x80004000}"
    "lookup 1 ?m1 0x80003000 va = (if PX 1 va = 0 then lookup 0 ?m0 0x80004000 va else None)" for va
    using link_table[OF small_pages(2) z0 t0] by (simp_all del: lookup.simps ptree.simps)
  have t2: "ptree 2 ?m2 0x80002000 user_tables"
    "lookup 2 ?m2 0x80002000 va = (if PX 2 va = 0 then lookup 1 ?m1 0x80003000 va else None)" for va
    using link_table[OF small_pages(1) z1 t1(1)]
    by (simp_all add: Suc_1 del: lookup.simps ptree.simps One_nat_def)
  have l0: "lookup 0 ?m0 0x80004000 va = (if PX 0 va = 0 then Some user_pte else None)" for va
    using pte_of_store[OF small_pages(3) _ PX_less, of 0 "mem small" user_pte 0 va] user_pte_facts(1)
      small_page_zero[OF small_pages(3,8) PX_less, of 0 va] by simp
  have al: "\<forall>p \<in> small_free. page_aligned p" using free_pages[OF small_state(1)] by blast
  have "agree small_free (mem small) (mem small_user)"
    using small_pages al by (intro same_off_agree[OF so]) auto
  then have "kmem_free small_user small_free"
    using kmem_free_agree[OF small_state(1)] by (simp add: small_user_def)
  then show "pt_ok 2 small_user 0x80002000 user_tables small_free"
    using t2(1) small_pages by (simp add: pt_ok_def small_user_def)
  have "umap ?m2 0x80002000 x = (if pn x = 0 then Some user_pte else None)" for x
  proof (cases "x < SV39_END")
    case True
    then show ?thesis using PX_zero[OF True] by (auto simp: umap_def t2(2) t1(2) l0 simp del: lookup.simps One_nat_def)
  next
    case False
    then have "pn x \<noteq> 0" using pn_less_SV39[of x] by auto
    then show ?thesis using False by (simp add: umap_def)
  qed
  then show "umap (mem small_user) 0x80002000 = (\<lambda>x. if pn x = 0 then Some user_pte else None)"
    by (simp add: small_user_def fun_eq_iff)
qed (simp_all add: small_user_def small_state)

section \<open>Mapping and unmapping\<close>

text \<open>
  C5. \<^verbatim>\<open>mappages\<close> on an unmapped page-aligned range returns. If it answers 0, the address space maps
  exactly the range in addition to what it mapped before, page \<open>k\<close> of it to the \<open>k\<close>-th page from
  \<open>pa\<close> on. If it answers -1, memory has run out (every free page has become a table page) and only
  pages at the front of the range have been mapped. In both cases the table stays well formed, its
  new table pages come from the free list, and memory changes only in table pages.
\<close>

theorem mappages_extends_map:
  assumes "pt_ok 2 s pt N F" "page_aligned va" "unat siz = 4096 * Suc n" "unat va + unat siz \<le> 2 ^ 38"
    "\<forall>x. pn va \<le> pn x \<and> pn x \<le> pn va + n \<longrightarrow> umap (mem s) pt x = None"
  shows "\<exists>r s' M j. mappages pt va siz pa perm s = Ok r s' \<and> grown s pt N F s' M
    \<and> umap (mem s') pt = map_range (umap (mem s) pt) va j pa perm
    \<and> (r = 0 \<and> j = Suc n \<or> r = -1 \<and> j \<le> n \<and> M = F)"
  by (rule mappages_maps_range[OF assms])

theorem mappages_extends_map_witness:
  "\<exists>r s' M j. mappages 0x80002000 0x5000 0x3000 0x80008000 (PTE_R OR PTE_W) small_user = Ok r s'
    \<and> grown small_user 0x80002000 user_tables small_free s' M
    \<and> umap (mem s') 0x80002000 = map_range (\<lambda>x. if pn x = 0 then Some user_pte else None) 0x5000 j
        0x80008000 (PTE_R OR PTE_W)
    \<and> (r = 0 \<and> j = 3 \<or> r = -1 \<and> j \<le> 2 \<and> M = small_free)"
  using mappages_extends_map[OF small_user_table(1), where va = "0x5000" and siz = "0x3000" and n = 2
    and pa = "0x80008000" and perm = "PTE_R OR PTE_W"]
  by (simp add: small_user_table(2) page_aligned_def pn_def numeral_3_eq_3)

text \<open>
  C6. \<^verbatim>\<open>uvmunmap\<close> returns, removes exactly the mappings of its range and, when asked to free, gives
  exactly the frames that were mapped there to the allocator; the table pages stay.
\<close>

theorem uvmunmap_removes_range:
  assumes "pt_ok 2 s pt N F" "page_aligned va" "unat va + 4096 * unat npages \<le> 2 ^ 38"
    "do_free \<Longrightarrow> freeable s pt (N \<union> F) (pn va) (unat npages)"
  shows "\<exists>s'. uvmunmap pt va npages do_free s = Ok () s'
    \<and> umap (mem s') pt = unmap_range (umap (mem s) pt) (pn va) (unat npages)
    \<and> pt_ok 2 s' pt N (if do_free then F \<union> frames (umap (mem s) pt) (pn va) (unat npages) else F)
    \<and> kmem_frame s s'"
proof -
  from uvmunmap_range[OF assms] obtain s' where
    "uvmunmap pt va npages do_free s = Ok () s'"
    "released s pt N F s' (if do_free then frames (umap (mem s) pt) (pn va) (unat npages) else {})"
    "umap (mem s') pt = unmap_range (umap (mem s) pt) (pn va) (unat npages)" by blast
  then show ?thesis by (cases do_free) (auto simp: released_def)
qed

lemma small_user_freeable:
  "frames (umap (mem small_user) 0x80002000) 0 (Suc 0) = {0x80005000}"
  "freeable small_user 0x80002000 (user_tables \<union> small_free) 0 (Suc 0)"
proof -
  show fr: "frames (umap (mem small_user) 0x80002000) 0 (Suc 0) = {0x80005000}"
    by (auto simp: frames_def small_user_table(2) user_pte_facts split: if_splits intro!: exI[of _ 0])
  have inj: "inj_frames (umap (mem small_user) 0x80002000) 0 (Suc 0)" by (simp add: inj_frames_def)
  have "ram_page (kend small_user) 0x80005000"
    using small_pages(4) by (simp add: small_user_table(5) ram_page_def)
  then show "freeable small_user 0x80002000 (user_tables \<union> small_free) 0 (Suc 0)"
    unfolding freeable_def fr using small_pages(9) inj by simp
qed

theorem uvmunmap_removes_range_witness:
  "\<exists>s'. uvmunmap 0x80002000 0 1 True small_user = Ok () s'
    \<and> umap (mem s') 0x80002000 = unmap_range (\<lambda>x. if pn x = 0 then Some user_pte else None) 0 1
    \<and> pt_ok 2 s' 0x80002000 user_tables (small_free \<union> {0x80005000}) \<and> kmem_frame small_user s'"
  using uvmunmap_removes_range[OF small_user_table(1), where va = 0 and npages = 1 and do_free = True] small_user_freeable
  by (simp add: small_user_table(2))

section \<open>Growing, copying, sharing and freeing an address space\<close>

text \<open>
  C7. \<^verbatim>\<open>uvmalloc\<close> either grows the address space to the new size, every new page mapped to a zeroed
  frame of its own that was free before, or answers 0 with the map unchanged and with every frame it
  took given back: only table pages may have moved out of the free list.
\<close>

theorem uvmalloc_all_or_nothing:
  assumes "pt_ok 2 s pt N F" "PTE_R OR PTE_U OR xperm < 1024" "oldsz \<le> newsz" "unat newsz \<le> 2 ^ 38"
    "\<And>x. upn oldsz \<le> pn x \<Longrightarrow> pn x < upn newsz \<Longrightarrow> umap (mem s) pt x = None"
  defines "A \<equiv> {upn oldsz..<upn newsz}"
  shows "\<exists>r s' M. uvmalloc pt oldsz newsz xperm s = Ok r s' \<and> M \<subseteq> F \<and> kmem_frame s s' \<and>
    (r = newsz \<and> (\<exists>g. inj_on g A \<and> g ` A \<subseteq> F - M \<and> pt_ok 2 s' pt (N \<union> M) (F - M - g ` A)
       \<and> (\<forall>x. umap (mem s') pt x = (if pn x \<in> A then Some (PA2PTE (g (pn x)) OR (PTE_R OR PTE_U OR xperm) OR PTE_V)
             else umap (mem s) pt x))
       \<and> (\<forall>k\<in>A. read_bytes (mem s') (g k) 4096 = replicate 4096 0))
    \<or> r = 0 \<and> umap (mem s') pt = umap (mem s) pt \<and> pt_ok 2 s' pt (N \<union> M) (F - M))"
proof -
  have "(\<exists>s' g M. uvmalloc pt oldsz newsz xperm s = Ok newsz s' \<and>
      laid_out s pt N F A g (\<lambda>_. PTE_R OR PTE_U OR xperm) (\<lambda>_. replicate 4096 0) s' M {}) \<or>
    (\<exists>s' g M. uvmalloc pt oldsz newsz xperm s = Ok 0 s' \<and>
      laid_out s pt N F {} g (\<lambda>_. PTE_R OR PTE_U OR xperm) (\<lambda>_. replicate 4096 0) s' M {})"
    unfolding A_def by (rule uvmalloc_result[OF assms(1) refl assms(2-4)]) (rule assms(5))
  then show ?thesis
  proof (elim disjE exE conjE, goal_cases)
    case (1 s' g M)
    then show ?case
      by (intro exI[of _ newsz] exI[of _ s'] exI[of _ M] conjI disjI1 exI[of _ g])
        (auto simp: laid_out_def)
  next
    case (2 s' g M)
    then show ?case
      by (intro exI[of _ 0] exI[of _ s'] exI[of _ M] conjI disjI2) (auto simp: laid_out_def)
  qed
qed

theorem uvmalloc_all_or_nothing_witness:
  "\<exists>r s' M. uvmalloc 0x80002000 0x1000 0x2800 PTE_W small_user = Ok r s' \<and> M \<subseteq> small_free
    \<and> kmem_frame small_user s' \<and>
    (r = 0x2800 \<and> (\<exists>g. inj_on g {1..<3} \<and> g ` {1..<3} \<subseteq> small_free - M
       \<and> pt_ok 2 s' 0x80002000 (user_tables \<union> M) (small_free - M - g ` {1..<3})
       \<and> (\<forall>x. umap (mem s') 0x80002000 x = (if pn x \<in> {1..<3}
             then Some (PA2PTE (g (pn x)) OR (PTE_R OR PTE_U OR PTE_W) OR PTE_V)
             else if pn x = 0 then Some user_pte else None))
       \<and> (\<forall>k\<in>{1..<3}. read_bytes (mem s') (g k) 4096 = replicate 4096 0))
    \<or> r = 0 \<and> umap (mem s') 0x80002000 = umap (mem small_user) 0x80002000
       \<and> pt_ok 2 s' 0x80002000 (user_tables \<union> M) (small_free - M))"
proof -
  have u: "upn 0x1000 = 1" "upn 0x2800 = 3" by (simp_all add: upn_def)
  show ?thesis
    using uvmalloc_all_or_nothing[OF small_user_table(1), where oldsz = "0x1000" and newsz = "0x2800"
        and xperm = PTE_W] unfolding u small_user_table(2) by simp
qed

lemma pn_page_va: "k < 2 ^ 27 \<Longrightarrow> pn (page_va k) = k"
proof -
  assume "k < 2 ^ 27"
  then have "unat (0 + of_nat (4096 * k) :: u64) = 4096 * k"
    using unat_plus_of_nat[of 0 "4096 * k"] by simp
  then show ?thesis unfolding pn_def page_va_def add_0 by simp
qed

text \<open>
  C8. \<^verbatim>\<open>uvmcopy\<close>, by which \<^verbatim>\<open>fork\<close> makes the child's memory: it returns, and the parent's map and the
  contents of its pages stay as they are. With answer 0 the child maps exactly the pages the
  parent maps below the size, with the parent's permissions and contents, each in a frame of its
  own that was free before. With answer -1 the child maps nothing new, and every frame that was
  taken is free again.
\<close>

theorem uvmcopy_copies:
  assumes "pt_ok 2 s new N F" "reads_off (N \<union> F) s old No (upn siz)" "unat siz \<le> 2 ^ 38"
    "\<And>x. pn x < upn siz \<Longrightarrow> umap (mem s) new x = None"
  defines "A \<equiv> old_pages s old (upn siz)"
  shows "\<exists>r s' M. uvmcopy old new siz s = Ok r s' \<and> M \<subseteq> F \<and> kmem_frame s s'
    \<and> umap (mem s') old = umap (mem s) old
    \<and> (\<forall>q \<in> frames (umap (mem s) old) 0 (upn siz). read_bytes (mem s') q 4096 = read_bytes (mem s) q 4096)
    \<and> (r = 0 \<and> (\<exists>g. inj_on g A \<and> g ` A \<subseteq> F - M \<and> pt_ok 2 s' new (N \<union> M) (F - M - g ` A)
         \<and> (\<forall>x. pn x < upn siz \<longrightarrow> (case umap (mem s) old x of None \<Rightarrow> umap (mem s') new x = None
           | Some e \<Rightarrow> umap (mem s') new x = Some (PA2PTE (g (pn x)) OR PTE_FLAGS e OR PTE_V)
               \<and> read_bytes (mem s') (g (pn x)) 4096 = read_bytes (mem s) (PTE2PA e) 4096)))
      \<or> r = -1 \<and> umap (mem s') new = umap (mem s) new \<and> pt_ok 2 s' new (N \<union> M) (F - M))"
proof -
  have al: "page_aligned q" if "q \<in> N \<union> F" for q using pt_ok_aligned[OF assms(1) that] .
  have kept: "umap (mem s') old = umap (mem s) old"
      "\<forall>q \<in> frames (umap (mem s) old) 0 (upn siz). read_bytes (mem s') q 4096 = read_bytes (mem s) q 4096"
    if so: "same_off (N \<union> F) (mem s) (mem s')" for s'
  proof -
    show "umap (mem s') old = umap (mem s) old" by (rule reads_off_same(1)[OF assms(2) so al])
    show "\<forall>q \<in> frames (umap (mem s) old) 0 (upn siz). read_bytes (mem s') q 4096 = read_bytes (mem s) q 4096"
    proof
      fix q assume "q \<in> frames (umap (mem s) old) 0 (upn siz)"
      then have q: "page_aligned q" "q \<notin> N \<union> F" using assms(2) by (auto simp: reads_off_def)
      then have "agree {q} (mem s) (mem s')" using al by (intro same_off_agree[OF so]) auto
      then show "read_bytes (mem s') q 4096 = read_bytes (mem s) q 4096" by (rule read_page_agree[OF _ q(1)])
    qed
  qed
  have pageof: "umap (mem s) old (page_va (pn x)) = umap (mem s) old x" if "pn x < upn siz" for x
  proof (rule umap_pn)
    have "pn x < 2 ^ 26 + 1" using that assms(3) by (simp add: upn_def)
    then show "pn (page_va (pn x)) = pn x" by (intro pn_page_va) simp
  qed
  have "(\<exists>s' g M. uvmcopy old new siz s = Ok 0 s' \<and> copied s old new N F A g s' M) \<or>
    (\<exists>s' g M. uvmcopy old new siz s = Ok (-1) s' \<and> copied s old new N F {} g s' M)"
    unfolding A_def by (rule uvmcopy_result[OF assms(1-3)]) (rule assms(4))
  then show ?thesis
  proof (elim disjE exE conjE, goal_cases)
    case (1 s' g M)
    have so: "same_off (N \<union> F) (mem s) (mem s')" using 1(2) by (simp add: laid_out_def)
    have x: "case umap (mem s) old x of None \<Rightarrow> umap (mem s') new x = None
           | Some e \<Rightarrow> umap (mem s') new x = Some (PA2PTE (g (pn x)) OR PTE_FLAGS e OR PTE_V)
               \<and> read_bytes (mem s') (g (pn x)) 4096 = read_bytes (mem s) (PTE2PA e) 4096"
      if "pn x < upn siz" for x
    proof (cases "umap (mem s) old x")
      case None
      then have "pn x \<notin> A" using pageof[OF that] by (simp add: A_def old_pages_def)
      then show ?thesis using 1(2) None assms(4)[OF that] by (simp add: laid_out_def)
    next
      case (Some e)
      then have "pn x \<in> A" "old_pte s old (pn x) = e"
        using pageof[OF that] that by (simp_all add: A_def old_pages_def old_pte_def)
      then show ?thesis using 1(2) Some by (auto simp: laid_out_def)
    qed
    show ?case
      using 1 kept[OF so] x
      by (intro exI[of _ 0] exI[of _ s'] exI[of _ M] conjI disjI1 exI[of _ g]) (simp_all add: laid_out_def)
  next
    case (2 s' g M)
    have so: "same_off (N \<union> F) (mem s) (mem s')" using 2(2) by (simp add: laid_out_def)
    show ?case
      using 2 kept[OF so]
      by (intro exI[of _ "-1"] exI[of _ s'] exI[of _ M] conjI disjI2) (simp_all add: laid_out_def)
  qed
qed

lemma small_user_child:
  "pt_ok 2 small_user 0x80006000 {0x80006000} small_free" "umap (mem small_user) 0x80006000 = (\<lambda>_. None)"
  "reads_off ({0x80006000} \<union> small_free) small_user 0x80002000 user_tables (Suc 0)"
proof -
  have z: "pte_of (mem small_user) 0x80006000 i = 0" if "i < 512" for i
    using same_off_agree[OF small_user_table(3), of "{0x80006000}"] small_pages
      pte_of_agree[OF _ small_pages(5) that] small_page_zero[OF small_pages(5,10) that] by simp
  then have "ptree 2 (mem small_user) 0x80006000 {0x80006000}"
      "\<And>va. lookup 2 (mem small_user) 0x80006000 va = None"
    using ptree_zeroed[OF small_pages(5)] by auto
  then show "pt_ok 2 small_user 0x80006000 {0x80006000} small_free"
      "umap (mem small_user) 0x80006000 = (\<lambda>_. None)"
    using small_user_table(1) small_pages by (auto simp: pt_ok_def umap_def)
  show "reads_off ({0x80006000} \<union> small_free) small_user 0x80002000 user_tables (Suc 0)"
    using small_user_table(1) small_pages small_user_freeable
    by (simp add: reads_off_def pt_ok_def freeable_def)
qed

lemma small_user_pages: "old_pages small_user 0x80002000 (Suc 0) = {0}"
  by (auto simp: old_pages_def small_user_table(2) page_va_def)

theorem uvmcopy_copies_witness:
  "\<exists>r s' M. uvmcopy 0x80002000 0x80006000 0x1000 small_user = Ok r s' \<and> M \<subseteq> small_free
    \<and> umap (mem s') 0x80002000 = umap (mem small_user) 0x80002000
    \<and> (r = 0 \<and> (\<exists>q. q \<in> small_free - M
        \<and> umap (mem s') 0x80006000 0 = Some (PA2PTE q OR 0x17 OR PTE_V)
        \<and> read_bytes (mem s') q 4096 = read_bytes (mem small_user) 0x80005000 4096)
      \<or> r = -1 \<and> umap (mem s') 0x80006000 = (\<lambda>_. None))"
proof -
  have u: "upn 0x1000 = Suc 0" by (simp add: upn_def)
  show ?thesis
    using uvmcopy_copies[OF small_user_child(1), of "0x80002000" user_tables "0x1000"] small_user_child
    unfolding u small_user_pages
    by (fastforce simp: small_user_table(2) user_pte_facts dest: spec[of _ "0 :: u64"])
qed

text \<open>
  C9. \<^verbatim>\<open>uvmshare\<close>, by which \<^verbatim>\<open>clone\<close> makes a thread's memory: with answer 0 the new table maps the very
  frames of the old one, with their permissions, at every address the old one maps below the size;
  with answer -1 its map is unchanged. No frame leaves the free list but for table pages.
\<close>

theorem uvmshare_shares:
  assumes "pt_ok 2 s new N F" "reads_off (N \<union> F) s old No (upn siz)" "unat siz \<le> 2 ^ 38"
    "\<And>x. pn x < upn siz \<Longrightarrow> umap (mem s) new x = None"
  shows "\<exists>r s' M. uvmshare old new siz s = Ok r s' \<and> M \<subseteq> F \<and> pt_ok 2 s' new (N \<union> M) (F - M)
    \<and> kmem_frame s s' \<and> umap (mem s') old = umap (mem s) old
    \<and> (r = 0 \<and> (\<forall>x. pn x < upn siz \<longrightarrow> (case umap (mem s) old x of None \<Rightarrow> umap (mem s') new x = None
           | Some e \<Rightarrow> \<exists>e'. umap (mem s') new x = Some e' \<and> PTE2PA e' = PTE2PA e \<and> PTE_FLAGS e' = PTE_FLAGS e OR PTE_V))
      \<or> r = -1 \<and> umap (mem s') new = umap (mem s) new)"
proof -
  have G: "grown s new N F s {}" using assms(1) by (rule grown_refl)
  have "\<exists>s' M. grown s new N F s' M \<and>
    (uvmshare old new siz s = Ok 0 s' \<and> umap (mem s') new = share (umap (mem s) new) (umap (mem s) old) (upn siz)
    \<or> uvmshare old new siz s = Ok (-1) s' \<and> umap (mem s') new = umap (mem s) new)"
    unfolding uvmshare_def using assms(3,4)
    by (intro uvmshare_loop_result[OF G _ assms(1,2)]) (simp_all add: upn_def)
  then obtain s' M where s': "grown s new N F s' M"
    "uvmshare old new siz s = Ok 0 s' \<and> umap (mem s') new = share (umap (mem s) new) (umap (mem s) old) (upn siz)
    \<or> uvmshare old new siz s = Ok (-1) s' \<and> umap (mem s') new = umap (mem s) new" by blast
  have so: "same_off (N \<union> F) (mem s) (mem s')"
    using s'(1) by (auto simp: grown_def intro: same_off_mono)
  have kept: "umap (mem s') old = umap (mem s) old"
    using reads_off_same(1)[OF assms(2) so] pt_ok_aligned[OF assms(1)] by blast
  have x: "case umap (mem s) old x of None \<Rightarrow> share (umap (mem s) new) (umap (mem s) old) (upn siz) x = None
      | Some e \<Rightarrow> \<exists>e'. share (umap (mem s) new) (umap (mem s) old) (upn siz) x = Some e'
          \<and> PTE2PA e' = PTE2PA e \<and> PTE_FLAGS e' = PTE_FLAGS e OR PTE_V"
    if "pn x < upn siz" for x
    using that assms(4)[OF that] PTE2PA_make[OF page_aligned_PTE2PA PTE_FLAGS_less]
      PTE_FLAGS_make[OF PTE_FLAGS_less]
    by (auto simp: share_def split: option.split)
  have ok: "M \<subseteq> F" "pt_ok 2 s' new (N \<union> M) (F - M)" "kmem_frame s s'"
    using s'(1) by (simp_all add: grown_def)
  from s'(2) show ?thesis
  proof
    assume r: "uvmshare old new siz s = Ok 0 s' \<and> umap (mem s') new = share (umap (mem s) new) (umap (mem s) old) (upn siz)"
    then show ?thesis
      using ok kept x[folded conjunct2[OF r]]
      by (intro exI[of _ 0] exI[of _ s'] exI[of _ M] conjI disjI1) blast+
  next
    assume "uvmshare old new siz s = Ok (-1) s' \<and> umap (mem s') new = umap (mem s) new"
    then show ?thesis
      using ok kept by (intro exI[of _ "-1"] exI[of _ s'] exI[of _ M] conjI disjI2) simp_all
  qed
qed

theorem uvmshare_shares_witness:
  "\<exists>r s' M. uvmshare 0x80002000 0x80006000 0x1000 small_user = Ok r s' \<and> M \<subseteq> small_free
    \<and> (r = 0 \<and> (\<exists>e'. umap (mem s') 0x80006000 0 = Some e' \<and> PTE2PA e' = 0x80005000 \<and> PTE_FLAGS e' = 0x17)
      \<or> r = -1 \<and> umap (mem s') 0x80006000 = (\<lambda>_. None))"
proof -
  have u: "upn 0x1000 = Suc 0" by (simp add: upn_def)
  have "\<exists>r s' M. uvmshare 0x80002000 0x80006000 0x1000 small_user = Ok r s' \<and> M \<subseteq> small_free
    \<and> (r = 0 \<and> (\<forall>x. pn x < Suc 0 \<longrightarrow> (case umap (mem small_user) 0x80002000 x of None \<Rightarrow> umap (mem s') 0x80006000 x = None
           | Some e \<Rightarrow> \<exists>e'. umap (mem s') 0x80006000 x = Some e' \<and> PTE2PA e' = PTE2PA e \<and> PTE_FLAGS e' = PTE_FLAGS e OR PTE_V))
      \<or> r = -1 \<and> umap (mem s') 0x80006000 = umap (mem small_user) 0x80006000)"
    using uvmshare_shares[OF small_user_child(1), of "0x80002000" user_tables "0x1000"]
    unfolding u small_user_child(2) using small_user_child(3) by fastforce
  then show ?thesis
    by (elim ex_forward) (auto simp: small_user_child(2) small_user_table(2) user_pte_facts dest: spec[of _ 0])
qed

text \<open>
  C11. \<^verbatim>\<open>uvmfree\<close> of an address space that maps nothing beyond its size returns and leaks nothing: every
  frame it mapped and every page of its table are free afterwards, and nothing else changes hands.
\<close>

theorem uvmfree_no_leak:
  assumes "pt_ok 2 s pt N F" "unat siz \<le> 2 ^ 38" "freeable s pt (N \<union> F) 0 (upn siz)"
    "\<And>x. upn siz \<le> pn x \<Longrightarrow> umap (mem s) pt x = None" "\<forall>q \<in> N. ram_page (kend s) q"
  shows "\<exists>s'. uvmfree pt siz s = Ok () s' \<and> kmem_free s' (F \<union> N \<union> frames (umap (mem s) pt) 0 (upn siz))
    \<and> kmem_frame s s' \<and> same_off (N \<union> frames (umap (mem s) pt) 0 (upn siz)) (mem s) (mem s')"
  by (rule uvmfree_frees[OF assms])

theorem uvmfree_no_leak_witness:
  "\<exists>s'. uvmfree 0x80002000 0x1000 small_user = Ok () s'
    \<and> kmem_free s' (small_free \<union> user_tables \<union> {0x80005000})"
proof -
  have u: "upn 0x1000 = Suc 0" by (simp add: upn_def)
  have "\<forall>q \<in> user_tables. ram_page (kend small_user) q"
    using small_pages(1-3) by (simp add: small_user_table(5) ram_page_def)
  then show ?thesis
    using uvmfree_no_leak[OF small_user_table(1), of "0x1000"] small_user_freeable
    unfolding u small_user_freeable(1) by (auto simp: small_user_table(2) simp del: Un_insert_left Un_insert_right)
qed

section \<open>Copies between user and kernel\<close>

text \<open>A machine whose current process, slot 0, has the small address space of one page.\<close>

definition plain_proc :: proc where
  "plain_proc = \<lparr>state = UNUSED, chan = None, killed_flag = 0, xstate = 0, pid = 0, parent = None,
     kstack = 0, sz = 0, pagetable = 0, trapframe = 0, ctx = (\<lambda>_. 0), ofile = (\<lambda>_. None), cwd = None,
     pname = replicate 16 0, tracemask = 0, ctime = 0, rtime = 0, etime = 0, is_thread = 0\<rparr>"

definition small_proc :: kproc where
  "small_proc = \<lparr>mem = mem small_user, held = {}, kend = 0x80001000, trampoline_pa = 0x80000000,
     freelist = freelist small_user,
     procs = (\<lambda>_. plain_proc)(0 := plain_proc\<lparr>state := RUNNING, pid := 1, sz := 0x3000, pagetable := 0x80002000\<rparr>),
     cur = Some 0, nextpid = 2, initproc = Some 0, ticks = 0, tframes = (\<lambda>_ _. 0), kernel_pagetable = 0,
     syscall_count = (\<lambda>_. 0), kout = []\<rparr>"

lemma small_proc_fields:
  "mem small_proc = mem small_user" "held small_proc = {}" "kend small_proc = 0x80001000"
  "cur small_proc = Some 0" "sz (procs small_proc 0) = 0x3000"
  "pagetable (procs small_proc 0) = 0x80002000"
  by (simp_all add: small_proc_def)

lemma small_proc_table: "pt_ok 2 small_proc 0x80002000 user_tables small_free"
proof -
  have "kmem_free small_user small_free" "ptree 2 (mem small_user) 0x80002000 user_tables"
    using small_user_table(1) by (simp_all add: pt_ok_def)
  then have "kmem_free small_proc small_free"
    by (simp add: kmem_free_def kmem_inv_def small_proc_fields small_user_table)
      (simp add: small_proc_def)
  then show ?thesis using small_user_table(1) by (simp add: pt_ok_def small_proc_fields)
qed

text \<open>
  C12. What \<^verbatim>\<open>copyout\<close> stores, \<^verbatim>\<open>copyin\<close> reads back: for a writable user range, across page boundaries,
  both return 0, and nothing outside the range is changed.
\<close>

theorem copyout_copyin_roundtrip:
  assumes "ptree 2 (mem s) pt N" "0 \<notin> N" "accessible (umap (mem s) pt) True va (length src)"
    "\<And>i e. i < length src \<Longrightarrow> umap (mem s) pt (va + of_nat i) = Some e \<Longrightarrow> PTE2PA e \<notin> N"
    "inj_on (\<lambda>i. uaddr (umap (mem s) pt) (va + of_nat i)) {..<length src}"
  shows "\<exists>m. copyout pt va src s = Ok 0 (s\<lparr>mem := m\<rparr>)
    \<and> copyin pt va (length src) (s\<lparr>mem := m\<rparr>) = Ok (0, src) (s\<lparr>mem := m\<rparr>)
    \<and> (\<forall>x. (\<forall>i<length src. x \<noteq> uaddr (umap (mem s) pt) (va + of_nat i)) \<longrightarrow> m x = mem s x)"
proof -
  have "\<exists>m. copyout pt va src s = Ok 0 (s\<lparr>mem := m\<rparr>) \<and> ptree 2 m pt N \<and> umap m pt = umap (mem s) pt
    \<and> (\<forall>i<length src. m (uaddr (umap (mem s) pt) (va + of_nat i)) = src ! i)
    \<and> (\<forall>x. (\<forall>i<length src. x \<noteq> uaddr (umap (mem s) pt) (va + of_nat i)) \<longrightarrow> m x = mem s x)"
    by (rule copyout_writes[OF assms(1-3) _ assms(5)]) (erule (1) assms(4))
  then obtain m where m: "copyout pt va src s = Ok 0 (s\<lparr>mem := m\<rparr>)"
    "ptree 2 m pt N" "umap m pt = umap (mem s) pt"
    "\<And>i. i < length src \<Longrightarrow> m (uaddr (umap (mem s) pt) (va + of_nat i)) = src ! i"
    "\<forall>x. (\<forall>i<length src. x \<noteq> uaddr (umap (mem s) pt) (va + of_nat i)) \<longrightarrow> m x = mem s x"
    by blast
  have acc: "accessible (umap m pt) False va (length src)"
    using assms(3) unfolding m(3) by (auto simp: accessible_def)
  have "user_bytes m pt va (length src) = src"
    by (rule nth_equalityI) (simp_all add: user_bytes_def m(3,4))
  then have "copyin pt va (length src) (s\<lparr>mem := m\<rparr>) = Ok (0, src) (s\<lparr>mem := m\<rparr>)"
    using copyin_reads[of "s\<lparr>mem := m\<rparr>" pt N va "length src"] m(2) assms(2) acc by simp
  then show ?thesis using m(1,5) by blast
qed

theorem copyout_copyin_roundtrip_witness:
  "\<exists>m. copyout 0x80002000 0x10 [7, 8] small_proc = Ok 0 (small_proc\<lparr>mem := m\<rparr>)
    \<and> copyin 0x80002000 0x10 2 (small_proc\<lparr>mem := m\<rparr>) = Ok (0, [7, 8]) (small_proc\<lparr>mem := m\<rparr>)"
proof -
  have p: "pn (0x10 + of_nat i) = 0" if "i < 2" for i
    using that by (auto simp: pn_def less_2_cases_iff)
  have u: "uaddr (umap (mem small_proc) 0x80002000) (0x10 + of_nat i) = 0x80005010 + of_nat i" if "i < 2" for i
    using that by (auto simp: uaddr_def small_proc_fields small_user_table(2) user_pte_facts p
        less_2_cases_iff PGROUNDDOWN_def)
  have len: "length [7, 8 :: u8] = 2" by simp
  have "accessible (umap (mem small_proc) 0x80002000) True 0x10 2"
    by (auto simp: accessible_def small_proc_fields small_user_table(2) user_pte_facts p)
  moreover have "inj_on (\<lambda>i. uaddr (umap (mem small_proc) 0x80002000) (0x10 + of_nat i)) {..<2}"
    using u by (auto simp: inj_on_def less_2_cases_iff)
  ultimately show ?thesis
    using copyout_copyin_roundtrip[of small_proc "0x80002000" user_tables "0x10" "[7, 8]", unfolded len]
      small_proc_table
    by (auto simp: pt_ok_def small_proc_fields small_user_table(2) user_pte_facts p split: if_splits)
qed

text \<open>
  C13. A user range outside the process is refused: when the first page of a non-empty range is not
  mapped for the user and lies at or above the process's size, \<^verbatim>\<open>copyin\<close> and \<^verbatim>\<open>copyout\<close> answer -1
  and change nothing. (An unmapped page below the size is allocated lazily instead.)
\<close>

theorem copy_outside_process_refused:
  assumes "ptree 2 (mem s) pt N" "0 \<notin> N" "cur s = Some p" "sz (procs s p) \<le> PGROUNDDOWN va"
    "PGROUNDDOWN va \<ge> MAXVA \<or> (case umap (mem s) pt va of None \<Rightarrow> True | Some e \<Rightarrow> e AND PTE_U = 0)"
    "0 < n" "src \<noteq> []"
  shows "copyin pt va n s = Ok (-1, []) s \<and> copyout pt va src s = Ok (-1) s"
proof -
  have w: "walkaddr pt (PGROUNDDOWN va) s = Ok 0 s"
  proof (cases "PGROUNDDOWN va \<ge> MAXVA")
    case True
    then show ?thesis by (simp add: walkaddr_def)
  next
    case False
    have "umap (mem s) pt (PGROUNDDOWN va) = umap (mem s) pt va"
      by (rule umap_pn[OF PGROUNDDOWN_pn])
    then show ?thesis
      using walkaddr_eq[OF assms(1,2), of "PGROUNDDOWN va"] assms(5) False
      by (auto split: option.splits)
  qed
  have v: "vmfault pt (PGROUNDDOWN va) s = Ok 0 s"
    using assms(3,4) by (simp add: vmfault_def)
  have "copyin pt va n s = Ok (-1, []) s"
    using w v assms(6) by (subst copyin.simps) (simp add: Let_def)
  moreover have "copyout pt va src s = Ok (-1) s"
    using w v assms(7) by (subst copyout.simps) (simp add: Let_def)
  ultimately show ?thesis ..
qed

theorem copy_outside_process_refused_witness:
  "copyin 0x80002000 0x3004 10 small_proc = Ok (-1, []) small_proc
    \<and> copyout 0x80002000 0x3004 [1, 2] small_proc = Ok (-1) small_proc"
  using copy_outside_process_refused[of small_proc "0x80002000" user_tables 0 "0x3004" 10 "[1, 2]"]
    small_proc_table
  by (simp add: small_proc_fields pt_ok_def small_user_table(2) PGROUNDDOWN_def pn_def)

lemma kalloc_procs: "kalloc s = Ok pg s' \<Longrightarrow> procs s' = procs s"
  by (auto simp: kalloc_def acquire_def release_def Let_def split: if_splits)



end
