(* ===== verification/Proc.thy ===== *)
theory Proc
  imports Vm
begin

text \<open>
  \<^verbatim>\<open>kernel/proc.c\<close>: process slots and their page tables, sleeping and waking, scheduling, killing,
  and waiting for children. The operations that need the file system (\<^verbatim>\<open>kfork\<close>, \<^verbatim>\<open>kclone\<close>, \<^verbatim>\<open>kexit\<close>,
  \<^verbatim>\<open>userinit\<close>) are in the theory \<open>Proclife\<close>. A process that gives up the hart ends in \<open>Block s\<close>,
  where \<open>s\<close> is the state once the scheduler has taken over; the functions named \<open>..._loop\<close> are the
  loop heads at which a woken process goes on.
\<close>

section \<open>Slots\<close>

definition procinit :: "'z kproc_scheme \<Rightarrow> 'z kproc_scheme" where
  "procinit s = fold (\<lambda>p s. upd_proc p (\<lambda>q. q\<lparr>state := UNUSED, kstack := KSTACK p\<rparr>) s) [0..<NPROC] s"

definition allocpid :: "'z kproc_scheme \<Rightarrow> (int, 'z kproc_scheme) outcome" where
  "allocpid s =
     bind (acquire L_pid s) (\<lambda>_ s.
     let pid = nextpid s; s = s\<lparr>nextpid := nextpid s + 1\<rparr> in
     bind (release L_pid s) (\<lambda>_ s. Ok pid s))"

definition proc_pagetable :: "nat \<Rightarrow> 'z kproc_scheme \<Rightarrow> (addr, 'z kproc_scheme) outcome" where
  "proc_pagetable p s =
     bind (uvmcreate s) (\<lambda>pt s.
     if pt = 0 then Ok 0 s
     else bind (mappages pt TRAMPOLINE PGSIZE (trampoline_pa s) (PTE_R OR PTE_X) s) (\<lambda>r s.
       if r < 0 then bind (uvmfree pt 0 s) (\<lambda>_ s. Ok 0 s)
       else bind (mappages pt TRAPFRAME PGSIZE (trapframe (procs s p)) (PTE_R OR PTE_W) s) (\<lambda>r s.
         if r < 0 then
           bind (uvmunmap pt TRAMPOLINE 1 False s) (\<lambda>_ s.
           bind (uvmfree pt 0 s) (\<lambda>_ s. Ok 0 s))
         else Ok pt s)))"

definition proc_freepagetable :: "addr \<Rightarrow> u64 \<Rightarrow> 'z kproc_scheme \<Rightarrow> (unit, 'z kproc_scheme) outcome" where
  "proc_freepagetable pt siz s =
     bind (uvmunmap pt TRAMPOLINE 1 False s) (\<lambda>_ s.
     bind (uvmunmap pt TRAPFRAME 1 False s) (\<lambda>_ s.
     uvmfree pt siz s))"

definition proc_freepagetable_thread :: "addr \<Rightarrow> u64 \<Rightarrow> 'z kproc_scheme \<Rightarrow> (unit, 'z kproc_scheme) outcome" where
  "proc_freepagetable_thread pt siz s =
     bind (uvmunmap pt TRAMPOLINE 1 False s) (\<lambda>_ s.
     bind (uvmunmap pt TRAPFRAME 1 False s) (\<lambda>_ s.
     bind (if siz > 0 then uvmunmap pt 0 (PGROUNDUP siz div PGSIZE) False s else Ok () s) (\<lambda>_ s.
     freewalk 3 pt s)))"

definition freeproc :: "nat \<Rightarrow> 'z kproc_scheme \<Rightarrow> (unit, 'z kproc_scheme) outcome" where
  "freeproc p s =
     bind (if trapframe (procs s p) \<noteq> 0 then kfree (trapframe (procs s p)) s else Ok () s) (\<lambda>_ s.
     let s = upd_proc p (\<lambda>q. q\<lparr>trapframe := 0\<rparr>) s in
     bind (if pagetable (procs s p) \<noteq> 0 then
             if is_thread (procs s p) \<noteq> 0
             then proc_freepagetable_thread (pagetable (procs s p)) (sz (procs s p)) s
             else proc_freepagetable (pagetable (procs s p)) (sz (procs s p)) s
           else Ok () s) (\<lambda>_ s.
     Ok () (upd_proc p (\<lambda>q. q\<lparr>pagetable := 0, sz := 0, pid := 0, parent := None,
       pname := (pname q)[0 := 0], chan := None, killed_flag := 0, xstate := 0, is_thread := 0,
       state := UNUSED\<rparr>) s)))"

text \<open>\<open>forkret\<close> is the address of the function.\<close>

definition init_ctx :: "u64 \<Rightarrow> u64 \<Rightarrow> ctxt" where
  "init_ctx ra sp = (\<lambda>_. 0)(ctx_ra := ra, ctx_sp := sp)"

definition setup_proc :: "u64 \<Rightarrow> nat \<Rightarrow> 'z kproc_scheme \<Rightarrow> (nat option, 'z kproc_scheme) outcome" where
  "setup_proc forkret p s =
     bind (allocpid s) (\<lambda>n s.
     let s = upd_proc p (\<lambda>q. q\<lparr>pid := n, state := USED, ctime := ticks s, rtime := 0, etime := 0,
               tracemask := 0\<rparr>) s in
     bind (kalloc s) (\<lambda>tf s.
     let s = upd_proc p (\<lambda>q. q\<lparr>trapframe := tf\<rparr>) s in
     if tf = 0 then
       bind (freeproc p s) (\<lambda>_ s. bind (release (L_proc p) s) (\<lambda>_ s. Ok None s))
     else bind (proc_pagetable p s) (\<lambda>pt s.
       let s = upd_proc p (\<lambda>q. q\<lparr>pagetable := pt\<rparr>) s in
       if pt = 0 then
         bind (freeproc p s) (\<lambda>_ s. bind (release (L_proc p) s) (\<lambda>_ s. Ok None s))
       else
         let s = upd_proc p (\<lambda>q. q\<lparr>ctx := init_ctx forkret (kstack q + PGSIZE)\<rparr>) s in
         Ok (Some p) s)))"

definition allocproc :: "u64 \<Rightarrow> 'z kproc_scheme \<Rightarrow> (nat option, 'z kproc_scheme) outcome" where
  "allocproc forkret s =
     bind (scan [0..<NPROC] (\<lambda>p s.
       bind (acquire (L_proc p) s) (\<lambda>_ s.
       if state (procs s p) = UNUSED then Ok (Some p) s
       else bind (release (L_proc p) s) (\<lambda>_ s. Ok None s))) s) (\<lambda>found s.
     case found of None \<Rightarrow> Ok None s | Some p \<Rightarrow> setup_proc forkret p s)"

text \<open>\<^verbatim>\<open>sz + n\<close> is 64-bit arithmetic with the sign-extended \<^verbatim>\<open>int\<close>.\<close>

definition growproc :: "int \<Rightarrow> 'z kproc_scheme \<Rightarrow> (int, 'z kproc_scheme) outcome" where
  "growproc n s =
     bind (myproc s) (\<lambda>p s.
     let sz0 = sz (procs s p); pt = pagetable (procs s p) in
     if n > 0 then
       if sz0 + of_int n > TRAPFRAME then Ok (-1) s
       else bind (uvmalloc pt sz0 (sz0 + of_int n) PTE_W s) (\<lambda>sz1 s.
         if sz1 = 0 then Ok (-1) s
         else Ok 0 (upd_proc p (\<lambda>q. q\<lparr>sz := sz1\<rparr>) s))
     else if n < 0 then
       bind (uvmdealloc pt sz0 (sz0 + of_int n) s) (\<lambda>sz1 s.
       Ok 0 (upd_proc p (\<lambda>q. q\<lparr>sz := sz1\<rparr>) s))
     else Ok 0 (upd_proc p (\<lambda>q. q\<lparr>sz := sz0\<rparr>) s))"

section \<open>Scheduling\<close>

text \<open>
  One probe of \<^verbatim>\<open>scheduler\<close>: with the process's lock it makes a runnable process the hart's
  current one and switches to it, still holding the lock; \<open>scheduler_return\<close> is what
  \<^verbatim>\<open>scheduler\<close> does when the process switches back.
\<close>

definition scheduler_try :: "nat \<Rightarrow> 'z kproc_scheme \<Rightarrow> (bool, 'z kproc_scheme) outcome" where
  "scheduler_try p s =
     bind (acquire (L_proc p) s) (\<lambda>_ s.
     if state (procs s p) = RUNNABLE then
       Ok True ((upd_proc p (\<lambda>q. q\<lparr>state := RUNNING\<rparr>) s)\<lparr>cur := Some p\<rparr>)
     else bind (release (L_proc p) s) (\<lambda>_ s. Ok False s))"

definition scheduler_return :: "nat \<Rightarrow> 'z kproc_scheme \<Rightarrow> (unit, 'z kproc_scheme) outcome" where
  "scheduler_return p s = (let s = s\<lparr>cur := None\<rparr> in release (L_proc p) s)"

text \<open>
  The pass of \<^verbatim>\<open>scheduler\<close> over the table, up to the first process it switches to; \<open>None\<close> is
  the case in which it waits for an interrupt.
\<close>

definition scheduler_pass :: "'z kproc_scheme \<Rightarrow> (nat option, 'z kproc_scheme) outcome" where
  "scheduler_pass s = scan [0..<NPROC] (\<lambda>p s.
     bind (scheduler_try p s) (\<lambda>switched s. Ok (if switched then Some p else None) s)) (s\<lparr>cur := None\<rparr>)"

text \<open>
  \<^verbatim>\<open>mycpu()->noff != 1\<close>: the hart holds another lock besides \<^verbatim>\<open>p->lock\<close>. Interrupts are off
  while any lock is held.
\<close>

definition sched :: "'z kproc_scheme \<Rightarrow> ('a, 'z kproc_scheme) outcome" where
  "sched s =
     bind (myproc s) (\<lambda>p s.
     if L_proc p \<notin> held s then Panic ''sched p->lock''
     else if held s \<noteq> {L_proc p} then Panic ''sched locks''
     else if state (procs s p) = RUNNING then Panic ''sched RUNNING''
     else bind (scheduler_return p s) (\<lambda>_ s. Block s))"

definition yield :: "'z kproc_scheme \<Rightarrow> (unit, 'z kproc_scheme) outcome" where
  "yield s =
     bind (myproc s) (\<lambda>p s.
     bind (acquire (L_proc p) s) (\<lambda>_ s.
     let s = upd_proc p (\<lambda>q. q\<lparr>state := RUNNABLE\<rparr>) s in
     sched s))"

definition sleep :: "chan \<Rightarrow> lockid \<Rightarrow> 'z kproc_scheme \<Rightarrow> ('a, 'z kproc_scheme) outcome" where
  "sleep ch lk s =
     bind (myproc s) (\<lambda>p s.
     bind (acquire (L_proc p) s) (\<lambda>_ s.
     bind (release lk s) (\<lambda>_ s.
     let s = upd_proc p (\<lambda>q. q\<lparr>chan := Some ch, state := SLEEPING\<rparr>) s in
     sched s)))"

text \<open>The rest of \<^verbatim>\<open>sleep\<close>, once the scheduler has switched back to the process.\<close>

definition sleep_return :: "lockid \<Rightarrow> 'z kproc_scheme \<Rightarrow> (unit, 'z kproc_scheme) outcome" where
  "sleep_return lk s =
     bind (myproc s) (\<lambda>p s.
     let s = upd_proc p (\<lambda>q. q\<lparr>chan := None\<rparr>) s in
     bind (release (L_proc p) s) (\<lambda>_ s.
     acquire lk s))"

definition wakeup :: "chan \<Rightarrow> 'z kproc_scheme \<Rightarrow> (unit, 'z kproc_scheme) outcome" where
  "wakeup ch = foreach [0..<NPROC] (\<lambda>p s.
     if cur s \<noteq> Some p then
       bind (acquire (L_proc p) s) (\<lambda>_ s.
       let s = (if state (procs s p) = SLEEPING \<and> chan (procs s p) = Some ch
                then upd_proc p (\<lambda>q. q\<lparr>state := RUNNABLE\<rparr>) s else s) in
       release (L_proc p) s)
     else Ok () s)"

section \<open>Killing\<close>

definition kkill :: "int \<Rightarrow> 'z kproc_scheme \<Rightarrow> (int, 'z kproc_scheme) outcome" where
  "kkill n s =
     bind (scan [0..<NPROC] (\<lambda>p s.
       bind (acquire (L_proc p) s) (\<lambda>_ s.
       if pid (procs s p) = n then
         let s = upd_proc p (\<lambda>q. q\<lparr>killed_flag := 1\<rparr>) s;
             s = (if state (procs s p) = SLEEPING
                  then upd_proc p (\<lambda>q. q\<lparr>state := RUNNABLE\<rparr>) s else s) in
         bind (release (L_proc p) s) (\<lambda>_ s. Ok (Some 0) s)
       else bind (release (L_proc p) s) (\<lambda>_ s. Ok None s))) s) (\<lambda>r s.
     Ok (case r of None \<Rightarrow> -1 | Some x \<Rightarrow> x) s)"

definition setkilled :: "nat \<Rightarrow> 'z kproc_scheme \<Rightarrow> (unit, 'z kproc_scheme) outcome" where
  "setkilled p s =
     bind (acquire (L_proc p) s) (\<lambda>_ s.
     let s = upd_proc p (\<lambda>q. q\<lparr>killed_flag := 1\<rparr>) s in
     release (L_proc p) s)"

definition killed :: "nat \<Rightarrow> 'z kproc_scheme \<Rightarrow> (int, 'z kproc_scheme) outcome" where
  "killed p s =
     bind (acquire (L_proc p) s) (\<lambda>_ s.
     let k = killed_flag (procs s p) in
     bind (release (L_proc p) s) (\<lambda>_ s. Ok k s))"

section \<open>Waiting for children\<close>

definition reparent :: "nat \<Rightarrow> 'z kproc_scheme \<Rightarrow> (unit, 'z kproc_scheme) outcome" where
  "reparent p = foreach [0..<NPROC] (\<lambda>pp s.
     if parent (procs s pp) = Some p then
       let s = upd_proc pp (\<lambda>q. q\<lparr>parent := initproc s\<rparr>) s in
       case initproc s of None \<Rightarrow> Ok () s | Some i \<Rightarrow> wakeup (Ch_proc i) s
     else Ok () s)"

text \<open>The bytes of an \<^verbatim>\<open>int\<close>.\<close>

definition int_bytes :: "int \<Rightarrow> u8 list" where
  "int_bytes n = le_bytes 4 (of_int n :: u32)"

text \<open>
  The scan of the table that \<^verbatim>\<open>kwait\<close>, \<^verbatim>\<open>waitx\<close> and \<^verbatim>\<open>kjoin\<close> make in each round. \<open>mine\<close> selects the
  children; \<open>reaper\<close> is what is done with a zombie, its result the caller's return value. The
  flag is \<^verbatim>\<open>havekids\<close>.
\<close>

fun wait_scan :: "nat list \<Rightarrow> (proc \<Rightarrow> bool) \<Rightarrow> (nat \<Rightarrow> 'z kproc_scheme \<Rightarrow> ('r, 'z kproc_scheme) outcome) \<Rightarrow>
    bool \<Rightarrow> 'z kproc_scheme \<Rightarrow> ('r option \<times> bool, 'z kproc_scheme) outcome" where
  "wait_scan [] mine reaper havekids s = Ok (None, havekids) s"
| "wait_scan (pp # pps) mine reaper havekids s =
     (if mine (procs s pp) then
        bind (acquire (L_proc pp) s) (\<lambda>_ s.
        if state (procs s pp) = ZOMBIE then bind (reaper pp s) (\<lambda>r s. Ok (Some r, True) s)
        else bind (release (L_proc pp) s) (\<lambda>_ s. wait_scan pps mine reaper True s))
      else wait_scan pps mine reaper havekids s)"

definition wait_round :: "(nat \<Rightarrow> proc \<Rightarrow> bool) \<Rightarrow>
    (nat \<Rightarrow> nat \<Rightarrow> 'z kproc_scheme \<Rightarrow> (int, 'z kproc_scheme) outcome) \<Rightarrow>
    'z kproc_scheme \<Rightarrow> (int, 'z kproc_scheme) outcome" where
  "wait_round mine reaper s =
     bind (myproc s) (\<lambda>p s.
     bind (wait_scan [0..<NPROC] (mine p) (reaper p) False s) (\<lambda>(r, havekids) s.
     case r of Some x \<Rightarrow> Ok x s
     | None \<Rightarrow>
         if \<not> havekids then bind (release L_wait s) (\<lambda>_ s. Ok (-1) s)
         else bind (killed p s) (\<lambda>k s.
           if k \<noteq> 0 then bind (release L_wait s) (\<lambda>_ s. Ok (-1) s)
           else sleep (Ch_proc p) L_wait s)))"

text \<open>Reaping a zombie: copy the exit status out if asked to, and free the slot.\<close>

definition reap :: "u64 \<Rightarrow> nat \<Rightarrow> nat \<Rightarrow> 'z kproc_scheme \<Rightarrow> (int, 'z kproc_scheme) outcome" where
  "reap addr p pp s =
     (let n = pid (procs s pp) in
      bind (if addr \<noteq> 0 then copyout (pagetable (procs s p)) addr (int_bytes (xstate (procs s pp))) s
            else Ok 0 s) (\<lambda>r s.
      if r < 0 then
        bind (release (L_proc pp) s) (\<lambda>_ s. bind (release L_wait s) (\<lambda>_ s. Ok (-1) s))
      else
        bind (freeproc pp s) (\<lambda>_ s.
        bind (release (L_proc pp) s) (\<lambda>_ s.
        bind (release L_wait s) (\<lambda>_ s. Ok n s)))))"

definition kwait_loop :: "u64 \<Rightarrow> 'z kproc_scheme \<Rightarrow> (int, 'z kproc_scheme) outcome" where
  "kwait_loop addr s = wait_round (\<lambda>p pp. parent pp = Some p) (reap addr) s"

definition kwait :: "u64 \<Rightarrow> 'z kproc_scheme \<Rightarrow> (int, 'z kproc_scheme) outcome" where
  "kwait addr s = bind (acquire L_wait s) (\<lambda>_ s. kwait_loop addr s)"

definition kjoin_loop :: "'z kproc_scheme \<Rightarrow> (int, 'z kproc_scheme) outcome" where
  "kjoin_loop s = wait_round (\<lambda>p pp. parent pp = Some p \<and> is_thread pp \<noteq> 0) (reap 0) s"

definition kjoin :: "'z kproc_scheme \<Rightarrow> (int, 'z kproc_scheme) outcome" where
  "kjoin s = bind (acquire L_wait s) (\<lambda>_ s. kjoin_loop s)"

text \<open>
  \<^verbatim>\<open>waitx\<close> also stores the child's run time and waiting time through its pointer arguments;
  the result carries the two values it stored last, \<^verbatim>\<open>(wtime, rtime)\<close>.
\<close>

definition waitx_times :: "proc \<Rightarrow> u32 \<times> u32" where
  "waitx_times np = (etime np - ctime np - rtime np, rtime np)"

definition waitx_loop :: "u64 \<Rightarrow> 'z kproc_scheme \<Rightarrow> (int \<times> (u32 \<times> u32) option, 'z kproc_scheme) outcome" where
  "waitx_loop addr s =
     bind (myproc s) (\<lambda>p s.
     bind (wait_scan [0..<NPROC] (\<lambda>np. parent np = Some p)
        (\<lambda>np s. let t = waitx_times (procs s np) in bind (reap addr p np s) (\<lambda>r s. Ok (r, Some t) s))
        False s) (\<lambda>(r, havekids) s.
     case r of Some x \<Rightarrow> Ok x s
     | None \<Rightarrow>
         if \<not> havekids then bind (release L_wait s) (\<lambda>_ s. Ok (-1, None) s)
         else bind (killed p s) (\<lambda>k s.
           if k \<noteq> 0 then bind (release L_wait s) (\<lambda>_ s. Ok (-1, None) s)
           else sleep (Ch_proc p) L_wait s)))"

definition waitx :: "u64 \<Rightarrow> 'z kproc_scheme \<Rightarrow> (int \<times> (u32 \<times> u32) option, 'z kproc_scheme) outcome" where
  "waitx addr s = bind (acquire L_wait s) (\<lambda>_ s. waitx_loop addr s)"

section \<open>Copying to user or kernel\<close>

definition either_copyout :: "bool \<Rightarrow> u64 \<Rightarrow> u8 list \<Rightarrow> 'z kproc_scheme \<Rightarrow> (int, 'z kproc_scheme) outcome" where
  "either_copyout user_dst dst src s =
     (if user_dst then bind (myproc s) (\<lambda>p s. copyout (pagetable (procs s p)) dst src s)
      else Ok 0 (s\<lparr>mem := write_bytes (mem s) dst src\<rparr>))"

definition either_copyin :: "bool \<Rightarrow> u64 \<Rightarrow> nat \<Rightarrow> 'z kproc_scheme \<Rightarrow> (int \<times> u8 list, 'z kproc_scheme) outcome" where
  "either_copyin user_src src len s =
     (if user_src then bind (myproc s) (\<lambda>p s. copyin (pagetable (procs s p)) src len s)
      else Ok (0, read_bytes (mem s) src len) s)"

end
