(* ===== verification/Kprintf.thy ===== *)
theory Kprintf
  imports Proctab
begin

text \<open>
  \<^verbatim>\<open>kernel/printf.c\<close>: the formatted output of the kernel. The characters that \<^verbatim>\<open>consputc\<close> sends to
  the console are appended to \<open>kout\<close>. A call with fewer or other arguments than the format
  asks for reads beyond its arguments: the formatter then gives \<open>None\<close> and \<^verbatim>\<open>printf\<close> faults.
\<close>

section \<open>Numbers\<close>

definition digits :: string where
  "digits = ''0123456789abcdef''"

text \<open>The loop of \<^verbatim>\<open>printint\<close>: the content of \<^verbatim>\<open>buf\<close>, least significant digit first.\<close>

function digit_loop :: "nat \<Rightarrow> nat \<Rightarrow> string" where
  "digit_loop x base = (if base < 2 then [] else
     digits ! (x mod base) # (if x div base \<noteq> 0 then digit_loop (x div base) base else []))"
  by pat_completeness auto
termination
proof (relation "measure fst", goal_cases)
  case (2 x base)
  then have "0 < x" "1 < base" by (auto intro: ccontr)
  then show ?case by simp
qed simp

declare digit_loop.simps [simp del]

definition printint :: "u64 \<Rightarrow> nat \<Rightarrow> bool \<Rightarrow> string" where
  "printint xx base sign =
     (let neg = sign \<and> sint xx < 0;
          x = (if neg then - xx else xx);
          buf = digit_loop (unat x) base @ (if neg then ''-'' else '''')
      in rev buf)"

definition printptr :: "u64 \<Rightarrow> string" where
  "printptr x = ''0x'' @ map (\<lambda>i. digits ! unat (drop_bit 60 (push_bit (4 * i) x))) [0..<16]"

section \<open>Formats\<close>

datatype varg = VInt u64 | VStr "string option"

definition sext32 :: "u64 \<Rightarrow> u64" where
  "sext32 x = scast (ucast x :: 32 word)"

definition zext32 :: "u64 \<Rightarrow> u64" where
  "zext32 x = ucast (ucast x :: 32 word)"

definition fchar :: "string \<Rightarrow> nat \<Rightarrow> char" where
  "fchar f i = (if i < length f then f ! i else CHR 0x00)"

text \<open>
  The cascade of tests on the characters after the \<^verbatim>\<open>%\<close>: which conversion, and how many
  characters it takes.
\<close>

datatype conv = Cint | Clong | Cuint | Culong | Chex | Clhex | Cptr | Cchr | Cstr | Cpct | Cend | Cother

definition classify :: "char \<Rightarrow> char \<Rightarrow> char \<Rightarrow> conv \<times> nat" where
  "classify c0 c1 c2 =
     (if c0 = CHR ''d'' then (Cint, 1)
      else if c0 = CHR ''l'' \<and> c1 = CHR ''d'' then (Clong, 2)
      else if c0 = CHR ''l'' \<and> c1 = CHR ''l'' \<and> c2 = CHR ''d'' then (Clong, 3)
      else if c0 = CHR ''u'' then (Cuint, 1)
      else if c0 = CHR ''l'' \<and> c1 = CHR ''u'' then (Culong, 2)
      else if c0 = CHR ''l'' \<and> c1 = CHR ''l'' \<and> c2 = CHR ''u'' then (Culong, 3)
      else if c0 = CHR ''x'' then (Chex, 1)
      else if c0 = CHR ''l'' \<and> c1 = CHR ''x'' then (Clhex, 2)
      else if c0 = CHR ''l'' \<and> c1 = CHR ''l'' \<and> c2 = CHR ''x'' then (Clhex, 3)
      else if c0 = CHR ''p'' then (Cptr, 1)
      else if c0 = CHR ''c'' then (Cchr, 1)
      else if c0 = CHR ''s'' then (Cstr, 1)
      else if c0 = CHR ''%'' then (Cpct, 1)
      else if c0 = CHR 0x00 then (Cend, 0)
      else (Cother, 1))"

text \<open>What a conversion prints, and the arguments it leaves.\<close>

fun convert :: "conv \<Rightarrow> char \<Rightarrow> varg list \<Rightarrow> (string \<times> varg list) option" where
  "convert Cpct c0 as = Some (''%'', as)"
| "convert Cend c0 as = Some ([], as)"
| "convert Cother c0 as = Some ([CHR ''%'', c0], as)"
| "convert Cstr c0 (VStr t # as) = Some (case t of None \<Rightarrow> ''(null)'' | Some x \<Rightarrow> x, as)"
| "convert Cint c0 (VInt v # as) = Some (printint (sext32 v) 10 True, as)"
| "convert Clong c0 (VInt v # as) = Some (printint v 10 True, as)"
| "convert Cuint c0 (VInt v # as) = Some (printint (zext32 v) 10 False, as)"
| "convert Culong c0 (VInt v # as) = Some (printint v 10 False, as)"
| "convert Chex c0 (VInt v # as) = Some (printint (zext32 v) 16 False, as)"
| "convert Clhex c0 (VInt v # as) = Some (printint v 16 False, as)"
| "convert Cptr c0 (VInt v # as) = Some (printptr v, as)"
| "convert Cchr c0 (VInt v # as) = Some ([char_of (unat v mod 256)], as)"
| "convert _ c0 _ = None"

function format :: "string \<Rightarrow> varg list \<Rightarrow> string option" where
  "format [] as = Some []"
| "format (c # f) as =
     (if c \<noteq> CHR ''%'' then map_option ((#) c) (format f as)
      else let c0 = fchar f 0;
               c1 = (if c0 \<noteq> CHR 0x00 then fchar f 1 else CHR 0x00);
               c2 = (if c1 \<noteq> CHR 0x00 then fchar f 2 else CHR 0x00);
               (k, n) = classify c0 c1 c2 in
        case convert k c0 as of None \<Rightarrow> None
        | Some (t, as') \<Rightarrow> if k = Cend then Some t else map_option ((@) t) (format (drop n f) as'))"
  by pat_completeness auto
termination
  by (relation "measure (\<lambda>(f, as). length f)") (auto simp: less_Suc_eq_le)

definition printf :: "string \<Rightarrow> varg list \<Rightarrow> 'z kproc_scheme \<Rightarrow> (unit, 'z kproc_scheme) outcome" where
  "printf fmt as s =
     bind (acquire L_pr s) (\<lambda>_ s.
     case format fmt as of None \<Rightarrow> Fault
     | Some t \<Rightarrow> let s = s\<lparr>kout := kout s @ t\<rparr> in release L_pr s)"

abbreviation nl :: string where "nl \<equiv> [CHR 0x0A]"
abbreviation tab :: string where "tab \<equiv> [CHR 0x09]"

text \<open>A C string in an array of bytes, as \<^verbatim>\<open>%s\<close> prints it.\<close>

definition cstring :: "u8 list \<Rightarrow> string" where
  "cstring bs = map (\<lambda>b. char_of (unat b)) (takeWhile (\<lambda>b. b \<noteq> 0) bs)"

definition vint :: "int \<Rightarrow> varg" where
  "vint n = VInt (of_int n)"

section \<open>What is printed\<close>

text \<open>The value a string of digits stands for.\<close>

definition digit_val :: "char \<Rightarrow> nat" where
  "digit_val c = (let n = of_char c in if 97 \<le> n then n - 87 else n - 48)"

primrec digits_val :: "nat \<Rightarrow> string \<Rightarrow> nat" where
  "digits_val base [] = 0"
| "digits_val base (c # cs) = digit_val c + base * digits_val base cs"

lemma digit_val_digits: "d < 16 \<Longrightarrow> digit_val (digits ! d) = d"
proof -
  assume "d < 16"
  then have "d \<in> set [0..<16]" by simp
  moreover have "\<forall>d \<in> set [0..<16]. digit_val (digits ! d) = d"
    by code_simp
  ultimately show ?thesis by blast
qed

lemma digits_val_digit_loop:
  assumes "2 \<le> base" "base \<le> 16"
  shows "digits_val base (digit_loop x base) = x"
proof (induction x rule: less_induct)
  case (less x)
  have "x mod base < base" using assms by simp
  then have "x mod base < 16" using assms(2) by (rule order_less_le_trans)
  moreover have "x div base < x" if "x div base \<noteq> 0"
    using that assms by (intro div_less_dividend) (auto intro: gr0I)
  moreover have "x mod base = x" if "x div base = 0"
    using that mod_mult_div_eq[of x base] unfolding that by simp
  ultimately show ?case
    using less.IH[of "x div base"] assms
    by (subst digit_loop.simps) (auto simp: digit_val_digits)
qed

lemma length_digit_loop:
  assumes "2 \<le> base"
  shows "x < base ^ n \<Longrightarrow> 0 < n \<Longrightarrow> length (digit_loop x base) \<le> n"
proof (induction n arbitrary: x)
  case (Suc n)
  show ?case
  proof (cases "x div base = 0")
    case True
    then show ?thesis using assms by (subst digit_loop.simps) simp
  next
    case False
    have "x div base < base ^ n" using Suc.prems(1) by (simp add: less_mult_imp_div_less mult.commute)
    moreover have "0 < n" using False calculation by (cases n) auto
    ultimately show ?thesis using Suc.IH[of "x div base"] False assms by (subst digit_loop.simps) simp
  qed
qed simp

lemma digit_loop_fits:
  assumes "base = 10 \<or> base = 16 \<and> \<not> sign"
  shows "length (digit_loop (unat (if sign \<and> sint (xx :: u64) < 0 then - xx else xx)) base) + (if sign \<and> sint xx < 0 then 1 else 0) \<le> 20"
proof -
  let ?neg = "sign \<and> sint xx < 0"
  let ?x = "if ?neg then - xx else xx"
  have base: "2 \<le> base" using assms by auto
  show ?thesis
  proof (cases ?neg)
    case True
    then have "int (unat ?x) \<le> 2 ^ 63" using uint_minus_sint[of xx] sint_ge[of xx] by simp
    then have "int (unat ?x) < int (10 ^ 19)" by (rule order_le_less_trans) simp
    then have "unat ?x < 10 ^ 19" by (simp only: of_nat_less_iff)
    then show ?thesis using length_digit_loop[OF base, of "unat ?x" 19] True assms by simp
  next
    case False
    have "unat ?x < 10 ^ 20" "unat ?x < 16 ^ 16" using unat_less_64[of ?x] by simp_all
    then show ?thesis
      using length_digit_loop[OF base, of "unat ?x" 20] length_digit_loop[OF base, of "unat ?x" 16]
        False assms by auto
  qed
qed



end
