(* ===== verification/Sysproc.thy ===== *)
theory Sysproc
  imports Proc Kprintf
begin

text \<open>
  The system call arguments of \<^verbatim>\<open>kernel/syscall.c\<close> and the handlers of \<^verbatim>\<open>kernel/sysproc.c\<close> that
  need no file system. A handler's result is the 64-bit value \<^verbatim>\<open>syscall()\<close> stores in the caller's
  register a0; an \<^verbatim>\<open>int\<close> is sign-extended to it.
\<close>

section \<open>Arguments\<close>

text \<open>\<^verbatim>\<open>p->trapframe->r\<close>.\<close>

definition tf_reg :: "nat \<Rightarrow> trapframe_field \<Rightarrow> 'z kproc_scheme \<Rightarrow> (u64, 'z kproc_scheme) outcome" where
  "tf_reg p r s =
     (if trapframe (procs s p) = 0 then Fault else Ok (tframes s (trapframe (procs s p)) r) s)"

definition set_tf_reg :: "nat \<Rightarrow> trapframe_field \<Rightarrow> u64 \<Rightarrow> 'z kproc_scheme \<Rightarrow> (unit, 'z kproc_scheme) outcome" where
  "set_tf_reg p r v s =
     (let t = trapframe (procs s p) in
      if t = 0 then Fault else Ok () (s\<lparr>tframes := (tframes s)(t := (tframes s t)(r := v))\<rparr>))"

definition fetchaddr :: "u64 \<Rightarrow> 'z kproc_scheme \<Rightarrow> (int \<times> u64, 'z kproc_scheme) outcome" where
  "fetchaddr addr s =
     bind (myproc s) (\<lambda>p s.
     if addr \<ge> sz (procs s p) \<or> addr + 8 > sz (procs s p) then Ok (-1, 0) s
     else bind (copyin (pagetable (procs s p)) addr 8 s) (\<lambda>(r, bs) s.
       if r \<noteq> 0 then Ok (-1, 0) s else Ok (0, le_val bs) s))"

text \<open>The string is returned without its terminating zero.\<close>

definition fetchstr :: "u64 \<Rightarrow> nat \<Rightarrow> 'z kproc_scheme \<Rightarrow> (int \<times> u8 list, 'z kproc_scheme) outcome" where
  "fetchstr addr mx s =
     bind (myproc s) (\<lambda>p s.
     bind (copyinstr (pagetable (procs s p)) addr mx s) (\<lambda>(r, bs) s.
     if r < 0 then Ok (-1, []) s
     else let str = takeWhile (\<lambda>b. b \<noteq> 0) bs in Ok (int (length str), str) s))"

definition argraw :: "nat \<Rightarrow> 'z kproc_scheme \<Rightarrow> (u64, 'z kproc_scheme) outcome" where
  "argraw n s =
     bind (myproc s) (\<lambda>p s.
     if n = 0 then tf_reg p tf_a0 s
     else if n = 1 then tf_reg p tf_a1 s
     else if n = 2 then tf_reg p tf_a2 s
     else if n = 3 then tf_reg p tf_a3 s
     else if n = 4 then tf_reg p tf_a4 s
     else if n = 5 then tf_reg p tf_a5 s
     else Panic ''argraw'')"

definition argint :: "nat \<Rightarrow> 'z kproc_scheme \<Rightarrow> (int, 'z kproc_scheme) outcome" where
  "argint n s = bind (argraw n s) (\<lambda>v s. Ok (sint (ucast v :: 32 word)) s)"

definition argaddr :: "nat \<Rightarrow> 'z kproc_scheme \<Rightarrow> (u64, 'z kproc_scheme) outcome" where
  "argaddr n s = argraw n s"

definition argstr :: "nat \<Rightarrow> nat \<Rightarrow> 'z kproc_scheme \<Rightarrow> (int \<times> u8 list, 'z kproc_scheme) outcome" where
  "argstr n mx s = bind (argaddr n s) (\<lambda>addr s. fetchstr addr mx s)"

definition ret_int :: "(int, 's) outcome \<Rightarrow> (u64, 's) outcome" where
  "ret_int m = bind m (\<lambda>r s. Ok (of_int r) s)"

section \<open>Processes\<close>

definition sys_getpid :: "'z kproc_scheme \<Rightarrow> (u64, 'z kproc_scheme) outcome" where
  "sys_getpid s = bind (myproc s) (\<lambda>p s. Ok (of_int (pid (procs s p))) s)"

definition sys_wait :: "'z kproc_scheme \<Rightarrow> (u64, 'z kproc_scheme) outcome" where
  "sys_wait s = bind (argaddr 0 s) (\<lambda>p s. ret_int (kwait p s))"

definition sys_join :: "'z kproc_scheme \<Rightarrow> (u64, 'z kproc_scheme) outcome" where
  "sys_join s = ret_int (kjoin s)"

text \<open>The two times stay in the handler's local variables.\<close>

definition sys_waitx :: "'z kproc_scheme \<Rightarrow> (u64, 'z kproc_scheme) outcome" where
  "sys_waitx s = bind (argaddr 0 s) (\<lambda>addr s. bind (waitx addr s) (\<lambda>(r, times) s. Ok (of_int r) s))"

definition sys_kill :: "'z kproc_scheme \<Rightarrow> (u64, 'z kproc_scheme) outcome" where
  "sys_kill s = bind (argint 0 s) (\<lambda>n s. ret_int (kkill n s))"

abbreviation (input) SBRK_EAGER :: int where "SBRK_EAGER \<equiv> 1"

definition sys_sbrk :: "'z kproc_scheme \<Rightarrow> (u64, 'z kproc_scheme) outcome" where
  "sys_sbrk s =
     bind (argint 0 s) (\<lambda>n s.
     bind (argint 1 s) (\<lambda>t s.
     bind (myproc s) (\<lambda>p s.
     let addr = sz (procs s p) in
     if t = SBRK_EAGER \<or> n < 0 then
       bind (growproc n s) (\<lambda>r s. if r < 0 then Ok (-1) s else Ok addr s)
     else if addr + of_int n < addr then Ok (-1) s
     else if addr + of_int n > TRAPFRAME then Ok (-1) s
     else Ok addr (upd_proc p (\<lambda>q. q\<lparr>sz := sz q + of_int n\<rparr>) s))))"

definition sys_pause_loop :: "u32 \<Rightarrow> u32 \<Rightarrow> 'z kproc_scheme \<Rightarrow> (u64, 'z kproc_scheme) outcome" where
  "sys_pause_loop ticks0 n s =
     (if ticks s - ticks0 < n then
        bind (myproc s) (\<lambda>p s.
        bind (killed p s) (\<lambda>k s.
        if k \<noteq> 0 then bind (release L_ticks s) (\<lambda>_ s. Ok (-1) s)
        else sleep Ch_ticks L_ticks s))
      else bind (release L_ticks s) (\<lambda>_ s. Ok 0 s))"

definition sys_pause :: "'z kproc_scheme \<Rightarrow> (u64, 'z kproc_scheme) outcome" where
  "sys_pause s =
     bind (argint 0 s) (\<lambda>n s.
     let n = (if n < 0 then 0 else n) in
     bind (acquire L_ticks s) (\<lambda>_ s. sys_pause_loop (ticks s) (of_int n) s))"

definition sys_uptime :: "'z kproc_scheme \<Rightarrow> (u64, 'z kproc_scheme) outcome" where
  "sys_uptime s =
     bind (acquire L_ticks s) (\<lambda>_ s.
     let xticks = ticks s in
     bind (release L_ticks s) (\<lambda>_ s. Ok (ucast xticks) s))"

definition sys_getppid :: "'z kproc_scheme \<Rightarrow> (u64, 'z kproc_scheme) outcome" where
  "sys_getppid s =
     bind (myproc s) (\<lambda>p s.
     case parent (procs s p) of None \<Rightarrow> Fault
     | Some pp \<Rightarrow>
         bind (acquire (L_proc pp) s) (\<lambda>_ s.
         let ppid = pid (procs s pp) in
         bind (release (L_proc pp) s) (\<lambda>_ s. Ok (of_int ppid) s)))"

definition sys_trace :: "'z kproc_scheme \<Rightarrow> (u64, 'z kproc_scheme) outcome" where
  "sys_trace s =
     bind (argint 0 s) (\<lambda>mask s.
     bind (myproc s) (\<lambda>p s. Ok 0 (upd_proc p (\<lambda>q. q\<lparr>tracemask := of_int mask\<rparr>) s)))"

definition get_syscall_count :: "int \<Rightarrow> 'z kproc_scheme \<Rightarrow> int" where
  "get_syscall_count n s = (if n \<le> 0 \<or> n > 37 then -1 else syscall_count s (nat n))"

definition sys_getcount :: "'z kproc_scheme \<Rightarrow> (u64, 'z kproc_scheme) outcome" where
  "sys_getcount s = bind (argint 0 s) (\<lambda>n s. Ok (of_int (get_syscall_count n s)) s)"

section \<open>Listings\<close>

text \<open>The position of a state in its \<^verbatim>\<open>enum\<close>.\<close>

fun state_index :: "procstate \<Rightarrow> nat" where
  "state_index UNUSED = 0"
| "state_index USED = 1"
| "state_index SLEEPING = 2"
| "state_index RUNNABLE = 3"
| "state_index RUNNING = 4"
| "state_index ZOMBIE = 5"

definition ps_states :: "string list" where
  "ps_states = [''unused'', ''used  '', ''sleep '', ''runble'', ''run   '', ''zombie'']"

definition ps :: "'z kproc_scheme \<Rightarrow> (unit, 'z kproc_scheme) outcome" where
  "ps s =
     bind (printf (''PID'' @ tab @ ''STATE'' @ tab @ ''NAME'' @ nl) [] s) (\<lambda>_ s.
     foreach [0..<NPROC] (\<lambda>p s.
       bind (acquire (L_proc p) s) (\<lambda>_ s.
       if state (procs s p) = UNUSED then release (L_proc p) s
       else bind (printf (''%d'' @ tab @ ''%s'' @ tab @ ''%s'' @ nl)
           [vint (pid (procs s p)), VStr (Some (ps_states ! state_index (state (procs s p)))),
            VStr (Some (cstring (pname (procs s p))))] s) (\<lambda>_ s.
         release (L_proc p) s))) s)"

definition sys_ps :: "'z kproc_scheme \<Rightarrow> (u64, 'z kproc_scheme) outcome" where
  "sys_ps s = bind (ps s) (\<lambda>_ s. Ok 0 s)"

definition procdump_states :: "string list" where
  "procdump_states = [''unused'', ''used'', ''sleep '', ''runble'', ''run   '', ''zombie'']"

definition procdump :: "'z kproc_scheme \<Rightarrow> (unit, 'z kproc_scheme) outcome" where
  "procdump s =
     bind (printf nl [] s) (\<lambda>_ s.
     foreach [0..<NPROC] (\<lambda>p s.
       if state (procs s p) = UNUSED then Ok () s
       else bind (printf ''%d %s %s'' [vint (pid (procs s p)),
            VStr (Some (procdump_states ! state_index (state (procs s p)))),
            VStr (Some (cstring (pname (procs s p))))] s) (\<lambda>_ s.
         printf nl [] s)) s)"

text \<open>The array of names that \<^verbatim>\<open>sys_getprocessinfo\<close> indexes has no entry for \<^verbatim>\<open>USED\<close>.\<close>

definition state_names :: "string list" where
  "state_names = [''UNUSED'', ''SLEEPING'', ''RUNNABLE'', ''RUNNING'', ''ZOMBIE'']"

definition sys_getprocessinfo :: "'z kproc_scheme \<Rightarrow> (u64, 'z kproc_scheme) outcome" where
  "sys_getprocessinfo s =
     bind (myproc s) (\<lambda>p s.
     bind (printf (''PID: %d'' @ nl) [vint (pid (procs s p))] s) (\<lambda>_ s.
     case parent (procs s p) of None \<Rightarrow> Fault
     | Some pp \<Rightarrow>
         bind (printf (''Parent PID: %d'' @ nl) [vint (pid (procs s pp))] s) (\<lambda>_ s.
         let i = state_index (state (procs s p)) in
         if i \<ge> length state_names then Fault
         else bind (printf (''State: %s'' @ nl) [VStr (Some (state_names ! i))] s) (\<lambda>_ s.
           Ok 0 s))))"

end
