(* ===== verification/Userlock.thy ===== *)
theory Userlock
  imports Sysproc
begin

text \<open>
  \<^verbatim>\<open>kernel/syslock.c\<close>: the kernel-managed mutexes of user programs. A process that finds the
  lock taken sleeps on it; \<open>lock_acquire_loop\<close> is the loop head it goes on at, with the slot's
  spinlock held, when it runs again.
\<close>

section \<open>The code\<close>

record userlock =
  used :: int
  locked :: int
  owner :: int          \<comment> \<open>the field \<^verbatim>\<open>pid\<close>\<close>

record kulock = kproc +
  locks :: "nat \<Rightarrow> userlock"

definition upd_lock :: "nat \<Rightarrow> (userlock \<Rightarrow> userlock) \<Rightarrow> 'z kulock_scheme \<Rightarrow> 'z kulock_scheme" where
  "upd_lock i f s = s\<lparr>locks := (locks s)(i := f (locks s i))\<rparr>"

definition lockinit :: "'z kulock_scheme \<Rightarrow> 'z kulock_scheme" where
  "lockinit s = fold (\<lambda>i s. upd_lock i (\<lambda>l. l\<lparr>used := 0, locked := 0, owner := 0\<rparr>) s) [0..<NLOCK] s"

definition sys_lock_create :: "'z kulock_scheme \<Rightarrow> (u64, 'z kulock_scheme) outcome" where
  "sys_lock_create s =
     bind (scan [0..<NLOCK] (\<lambda>i s.
       bind (acquire (L_userlock i) s) (\<lambda>_ s.
       if used (locks s i) = 0 then
         let s = upd_lock i (\<lambda>l. l\<lparr>used := 1, locked := 0, owner := 0\<rparr>) s in
         bind (release (L_userlock i) s) (\<lambda>_ s. Ok (Some (of_nat i)) s)
       else bind (release (L_userlock i) s) (\<lambda>_ s. Ok None s))) s) (\<lambda>r s.
     Ok (case r of None \<Rightarrow> -1 | Some i \<Rightarrow> i) s)"

definition lock_acquire_loop :: "nat \<Rightarrow> 'z kulock_scheme \<Rightarrow> (u64, 'z kulock_scheme) outcome" where
  "lock_acquire_loop i s =
     (if locked (locks s i) \<noteq> 0 then sleep (Ch_userlock i) (L_userlock i) s
      else bind (myproc s) (\<lambda>p s.
        let s = upd_lock i (\<lambda>l. l\<lparr>locked := 1, owner := pid (procs s p)\<rparr>) s in
        bind (release (L_userlock i) s) (\<lambda>_ s. Ok 0 s)))"

definition sys_lock_acquire :: "'z kulock_scheme \<Rightarrow> (u64, 'z kulock_scheme) outcome" where
  "sys_lock_acquire s =
     bind (argint 0 s) (\<lambda>id s.
     if id < 0 \<or> id \<ge> int NLOCK then Ok (-1) s
     else let i = nat id in
       bind (acquire (L_userlock i) s) (\<lambda>_ s.
       if used (locks s i) = 0 then bind (release (L_userlock i) s) (\<lambda>_ s. Ok (-1) s)
       else lock_acquire_loop i s))"

definition sys_lock_release :: "'z kulock_scheme \<Rightarrow> (u64, 'z kulock_scheme) outcome" where
  "sys_lock_release s =
     bind (argint 0 s) (\<lambda>id s.
     if id < 0 \<or> id \<ge> int NLOCK then Ok (-1) s
     else let i = nat id in
       bind (acquire (L_userlock i) s) (\<lambda>_ s.
       if used (locks s i) = 0 \<or> locked (locks s i) = 0 then
         bind (release (L_userlock i) s) (\<lambda>_ s. Ok (-1) s)
       else bind (myproc s) (\<lambda>p s.
         if owner (locks s i) \<noteq> pid (procs s p) then
           bind (release (L_userlock i) s) (\<lambda>_ s. Ok (-1) s)
         else
           let s = upd_lock i (\<lambda>l. l\<lparr>locked := 0, owner := 0\<rparr>) s in
           bind (wakeup (Ch_userlock i) s) (\<lambda>_ s.
           bind (release (L_userlock i) s) (\<lambda>_ s. Ok 0 s)))))"

definition sys_lock_destroy :: "'z kulock_scheme \<Rightarrow> (u64, 'z kulock_scheme) outcome" where
  "sys_lock_destroy s =
     bind (argint 0 s) (\<lambda>id s.
     if id < 0 \<or> id \<ge> int NLOCK then Ok (-1) s
     else let i = nat id in
       bind (acquire (L_userlock i) s) (\<lambda>_ s.
       if used (locks s i) = 0 then bind (release (L_userlock i) s) (\<lambda>_ s. Ok (-1) s)
       else
         let s = upd_lock i (\<lambda>l. l\<lparr>used := 0, locked := 0, owner := 0\<rparr>) s in
         bind (release (L_userlock i) s) (\<lambda>_ s. Ok 0 s)))"

end
