(* ===== verification/Shm.thy ===== *)
theory Shm
  imports Userlock
begin

text \<open>
  \<^verbatim>\<open>kernel/sysshm.c\<close>: shared memory segments. A segment owns up to \<^verbatim>\<open>SHM_MAXPAGES\<close> frames; attaching
  maps them above the caller's heap, and the attachment is recorded in a table indexed by the
  caller's pid.
\<close>

section \<open>The code\<close>

record shmseg =
  seg_used :: int
  key :: int
  seg_npages :: int
  refcnt :: int
  pages :: "nat \<Rightarrow> u64"

record shmattach =
  shmid :: int
  att_va :: u64
  att_npages :: int

record kshm = kulock +
  segtable :: "nat \<Rightarrow> shmseg"
  attachtable :: "nat \<Rightarrow> nat \<Rightarrow> shmattach"

definition upd_seg :: "nat \<Rightarrow> (shmseg \<Rightarrow> shmseg) \<Rightarrow> 'z kshm_scheme \<Rightarrow> 'z kshm_scheme" where
  "upd_seg i f s = s\<lparr>segtable := (segtable s)(i := f (segtable s i))\<rparr>"

definition upd_att :: "nat \<Rightarrow> nat \<Rightarrow> (shmattach \<Rightarrow> shmattach) \<Rightarrow> 'z kshm_scheme \<Rightarrow> 'z kshm_scheme" where
  "upd_att p i f s = s\<lparr>attachtable := (attachtable s)(p := (attachtable s p)(i := f (attachtable s p i)))\<rparr>"

definition shminit :: "'z kshm_scheme \<Rightarrow> 'z kshm_scheme" where
  "shminit s =
     (let s = fold (\<lambda>i s. upd_seg i (\<lambda>g. g\<lparr>seg_used := 0, refcnt := 0\<rparr>) s) [0..<NSHM] s in
      fold (\<lambda>p s. fold (\<lambda>i s. upd_att p i (\<lambda>a. a\<lparr>shmid := -1\<rparr>) s) [0..<NSHM] s) [0..<NPROC] s)"

definition pidslot :: "int \<Rightarrow> int" where
  "pidslot n = (let idx = n - 1 in if idx < 0 \<or> idx \<ge> int NPROC then -1 else idx)"

text \<open>\<^verbatim>\<open>(size + PGSIZE - 1) / PGSIZE\<close> in 32-bit arithmetic; C division truncates towards zero.\<close>

definition cdiv :: "int \<Rightarrow> int \<Rightarrow> int" where
  "cdiv a b = (if a < 0 then - ((- a) div b) else a div b)"

definition shm_npages :: "int \<Rightarrow> int" where
  "shm_npages siz = cdiv (sint (of_int (siz + 4096 - 1) :: 32 word)) 4096"

fun shm_free_pages :: "nat \<Rightarrow> nat list \<Rightarrow> 'z kshm_scheme \<Rightarrow> (unit, 'z kshm_scheme) outcome" where
  "shm_free_pages i qs s = foreach qs (\<lambda>q s. kfree (pages (segtable s i) q) s) s"

fun shm_alloc_pages :: "nat \<Rightarrow> nat \<Rightarrow> nat \<Rightarrow> 'z kshm_scheme \<Rightarrow> (bool, 'z kshm_scheme) outcome" where
  "shm_alloc_pages i p 0 s = Ok True s"
| "shm_alloc_pages i p (Suc n) s =
     bind (kalloc s) (\<lambda>pg s.
     if pg = 0 then bind (shm_free_pages i [0..<p] s) (\<lambda>_ s. Ok False s)
     else
       let s = s\<lparr>mem := memset (mem s) pg 0 4096\<rparr>;
           s = upd_seg i (\<lambda>g. g\<lparr>pages := (pages g)(p := pg)\<rparr>) s in
       shm_alloc_pages i (Suc p) n s)"

definition shm_find :: "int \<Rightarrow> 'z kshm_scheme \<Rightarrow> (u64 option, 'z kshm_scheme) outcome" where
  "shm_find k = scan [0..<NSHM] (\<lambda>i s.
     bind (acquire (L_shmseg i) s) (\<lambda>_ s.
     if seg_used (segtable s i) \<noteq> 0 \<and> key (segtable s i) = k then
       bind (release (L_shmseg i) s) (\<lambda>_ s. Ok (Some (of_nat i)) s)
     else bind (release (L_shmseg i) s) (\<lambda>_ s. Ok None s)))"

definition shm_create :: "int \<Rightarrow> int \<Rightarrow> 'z kshm_scheme \<Rightarrow> (u64 option, 'z kshm_scheme) outcome" where
  "shm_create k npages = scan [0..<NSHM] (\<lambda>i s.
     bind (acquire (L_shmseg i) s) (\<lambda>_ s.
     if seg_used (segtable s i) = 0 then
       bind (shm_alloc_pages i 0 (nat npages) s) (\<lambda>ok s.
       if \<not> ok then bind (release (L_shmseg i) s) (\<lambda>_ s. Ok (Some (-1)) s)
       else
         let s = upd_seg i (\<lambda>g. g\<lparr>seg_used := 1, key := k, seg_npages := npages, refcnt := 0\<rparr>) s in
         bind (release (L_shmseg i) s) (\<lambda>_ s. Ok (Some (of_nat i)) s))
     else bind (release (L_shmseg i) s) (\<lambda>_ s. Ok None s)))"

definition sys_shmget :: "'z kshm_scheme \<Rightarrow> (u64, 'z kshm_scheme) outcome" where
  "sys_shmget s =
     bind (argint 0 s) (\<lambda>k s.
     bind (argint 1 s) (\<lambda>siz s.
     if siz \<le> 0 then Ok (-1) s
     else let npages = shm_npages siz in
       if npages > int SHM_MAXPAGES then Ok (-1) s
       else bind (shm_find k s) (\<lambda>r s.
         case r of Some i \<Rightarrow> Ok i s
         | None \<Rightarrow> bind (shm_create k npages s) (\<lambda>r s.
             Ok (case r of None \<Rightarrow> -1 | Some i \<Rightarrow> i) s))))"

fun shm_map_pages :: "nat \<Rightarrow> addr \<Rightarrow> u64 \<Rightarrow> nat \<Rightarrow> nat \<Rightarrow> 'z kshm_scheme \<Rightarrow> (bool, 'z kshm_scheme) outcome" where
  "shm_map_pages i pt va pg 0 s = Ok True s"
| "shm_map_pages i pt va pg (Suc n) s =
     bind (mappages pt (va + of_nat pg * PGSIZE) PGSIZE (pages (segtable s i) pg)
        (PTE_R OR PTE_W OR PTE_U) s) (\<lambda>r s.
     if r \<noteq> 0 then bind (uvmunmap pt va (of_nat pg) False s) (\<lambda>_ s. Ok False s)
     else shm_map_pages i pt va (Suc pg) n s)"

text \<open>Recording the attachment in the first free slot of the caller's row.\<close>

definition shm_record :: "nat \<Rightarrow> nat \<Rightarrow> u64 \<Rightarrow> int \<Rightarrow> 'z kshm_scheme \<Rightarrow> 'z kshm_scheme" where
  "shm_record row i va npages s =
     (case find (\<lambda>k. shmid (attachtable s row k) = -1) [0..<NSHM] of
        None \<Rightarrow> s
      | Some k \<Rightarrow> upd_att row k (\<lambda>a. a\<lparr>shmid := int i, att_va := va, att_npages := npages\<rparr>) s)"

definition sys_shmattach :: "'z kshm_scheme \<Rightarrow> (u64, 'z kshm_scheme) outcome" where
  "sys_shmattach s =
     bind (argint 0 s) (\<lambda>id s.
     if id < 0 \<or> id \<ge> int NSHM then Ok (-1) s
     else bind (myproc s) (\<lambda>p s.
       let pslot = pidslot (pid (procs s p)); i = nat id in
       if pslot < 0 then Ok (-1) s
       else bind (acquire (L_shmseg i) s) (\<lambda>_ s.
         if seg_used (segtable s i) = 0 then bind (release (L_shmseg i) s) (\<lambda>_ s. Ok (-1) s)
         else let npages = seg_npages (segtable s i) in
           bind (release (L_shmseg i) s) (\<lambda>_ s.
           let va = PGROUNDUP (sz (procs s p)) + PGSIZE in
           if va + of_int npages * PGSIZE > TRAPFRAME then Ok (-1) s
           else bind (acquire (L_shmseg i) s) (\<lambda>_ s.
             bind (shm_map_pages i (pagetable (procs s p)) va 0 (nat npages) s) (\<lambda>ok s.
             if \<not> ok then bind (release (L_shmseg i) s) (\<lambda>_ s. Ok (-1) s)
             else
               let s = upd_seg i (\<lambda>g. g\<lparr>refcnt := refcnt g + 1\<rparr>) s in
               bind (release (L_shmseg i) s) (\<lambda>_ s.
               bind (acquire L_attach s) (\<lambda>_ s.
               let s = shm_record (nat pslot) i va npages s in
               bind (release L_attach s) (\<lambda>_ s. Ok va s)))))))))"

definition sys_shmdetach :: "'z kshm_scheme \<Rightarrow> (u64, 'z kshm_scheme) outcome" where
  "sys_shmdetach s =
     bind (argaddr 0 s) (\<lambda>addr s.
     bind (myproc s) (\<lambda>p s.
     let pslot = pidslot (pid (procs s p)) in
     if pslot < 0 then Ok (-1) s
     else let row = nat pslot in
       bind (acquire L_attach s) (\<lambda>_ s.
       case find (\<lambda>k. shmid (attachtable s row k) \<noteq> -1 \<and> att_va (attachtable s row k) = addr) [0..<NSHM] of
         None \<Rightarrow> bind (release L_attach s) (\<lambda>_ s. Ok (-1) s)
       | Some k \<Rightarrow>
           let i = shmid (attachtable s row k); npages = att_npages (attachtable s row k);
               s = upd_att row k (\<lambda>a. a\<lparr>shmid := -1, att_va := 0\<rparr>) s in
           bind (release L_attach s) (\<lambda>_ s.
           bind (uvmunmap (pagetable (procs s p)) addr (of_int npages) False s) (\<lambda>_ s.
           bind (acquire (L_shmseg (nat i)) s) (\<lambda>_ s.
           let s = upd_seg (nat i) (\<lambda>g. g\<lparr>refcnt := refcnt g - 1\<rparr>) s in
           bind (release (L_shmseg (nat i)) s) (\<lambda>_ s. Ok 0 s)))))))"

end
