(* ===== verification/Bio.thy ===== *)
theory Bio
  imports Shm
begin

text \<open>
  \<^verbatim>\<open>kernel/sleeplock.c\<close> and \<^verbatim>\<open>kernel/bio.c\<close>: sleep locks and the buffer cache. Buffers are the indices
  below \<^verbatim>\<open>NBUF\<close> of \<open>bufs\<close>; the index \<^verbatim>\<open>NBUF\<close> is \<^verbatim>\<open>bcache.head\<close>. The recency list is kept in the
  \<^verbatim>\<open>prev\<close> and \<^verbatim>\<open>next\<close> fields as in the source. The disk is a map from block numbers to blocks of
  \<^verbatim>\<open>BSIZE\<close> bytes; \<open>diskw\<close> is the sequence of writes it has completed, newest last.
\<close>

section \<open>Sleep locks\<close>

record sleeplock =
  sl_locked :: int
  sl_pid :: int

record kslp = kshm +
  slocks :: "nat \<Rightarrow> sleeplock"

definition upd_slock :: "nat \<Rightarrow> (sleeplock \<Rightarrow> sleeplock) \<Rightarrow> 'z kslp_scheme \<Rightarrow> 'z kslp_scheme" where
  "upd_slock l f s = s\<lparr>slocks := (slocks s)(l := f (slocks s l))\<rparr>"

definition initsleeplock :: "nat \<Rightarrow> 'z kslp_scheme \<Rightarrow> 'z kslp_scheme" where
  "initsleeplock l s = upd_slock l (\<lambda>k. k\<lparr>sl_locked := 0, sl_pid := 0\<rparr>) s"

definition acquiresleep_loop :: "nat \<Rightarrow> 'z kslp_scheme \<Rightarrow> (unit, 'z kslp_scheme) outcome" where
  "acquiresleep_loop l s =
     (if sl_locked (slocks s l) \<noteq> 0 then sleep (Ch_sleeplock l) (L_sleep l) s
      else
        let s = upd_slock l (\<lambda>k. k\<lparr>sl_locked := 1\<rparr>) s in
        bind (myproc s) (\<lambda>p s.
        let s = upd_slock l (\<lambda>k. k\<lparr>sl_pid := pid (procs s p)\<rparr>) s in
        release (L_sleep l) s))"

definition acquiresleep :: "nat \<Rightarrow> 'z kslp_scheme \<Rightarrow> (unit, 'z kslp_scheme) outcome" where
  "acquiresleep l s = bind (acquire (L_sleep l) s) (\<lambda>_ s. acquiresleep_loop l s)"

definition releasesleep :: "nat \<Rightarrow> 'z kslp_scheme \<Rightarrow> (unit, 'z kslp_scheme) outcome" where
  "releasesleep l s =
     bind (acquire (L_sleep l) s) (\<lambda>_ s.
     let s = upd_slock l (\<lambda>k. k\<lparr>sl_locked := 0, sl_pid := 0\<rparr>) s in
     bind (wakeup (Ch_sleeplock l) s) (\<lambda>_ s.
     release (L_sleep l) s))"

definition holdingsleep :: "nat \<Rightarrow> 'z kslp_scheme \<Rightarrow> (bool, 'z kslp_scheme) outcome" where
  "holdingsleep l s =
     bind (acquire (L_sleep l) s) (\<lambda>_ s.
     bind (if sl_locked (slocks s l) = 0 then Ok False s
           else bind (myproc s) (\<lambda>p s. Ok (sl_pid (slocks s l) = pid (procs s p)) s)) (\<lambda>r s.
     bind (release (L_sleep l) s) (\<lambda>_ s. Ok r s)))"

section \<open>The buffer cache\<close>

abbreviation (input) BSIZE :: nat where "BSIZE \<equiv> 1024"

record buf =
  valid :: int
  dev :: u32
  blockno :: u32
  b_refcnt :: u32
  prev :: nat
  nxt :: nat              \<comment> \<open>the field \<^verbatim>\<open>next\<close>\<close>
  data :: "u8 list"

abbreviation (input) head :: nat where "head \<equiv> NBUF"

record kbio = kslp +
  bufs :: "nat \<Rightarrow> buf"
  disk :: "u32 \<Rightarrow> u8 list"
  diskw :: "(u32 \<times> u8 list) list"

text \<open>The sleep lock of buffer \<open>b\<close>.\<close>

definition buf_lock :: "nat \<Rightarrow> nat" where
  "buf_lock b = b"

definition upd_buf :: "nat \<Rightarrow> (buf \<Rightarrow> buf) \<Rightarrow> 'z kbio_scheme \<Rightarrow> 'z kbio_scheme" where
  "upd_buf b f s = s\<lparr>bufs := (bufs s)(b := f (bufs s b))\<rparr>"

text \<open>\<open>b\<close> becomes the first element of the list after \<^verbatim>\<open>head\<close>.\<close>

definition link_front :: "nat \<Rightarrow> (nat \<Rightarrow> buf) \<Rightarrow> (nat \<Rightarrow> buf)" where
  "link_front b bs =
     (let bs = bs(b := (bs b)\<lparr>nxt := nxt (bs head), prev := head\<rparr>);
          n = nxt (bs head);
          bs = bs(n := (bs n)\<lparr>prev := b\<rparr>)
      in bs(head := (bs head)\<lparr>nxt := b\<rparr>))"

definition unlink_buf :: "nat \<Rightarrow> (nat \<Rightarrow> buf) \<Rightarrow> (nat \<Rightarrow> buf)" where
  "unlink_buf b bs =
     (let n = nxt (bs b); bs = bs(n := (bs n)\<lparr>prev := prev (bs b)\<rparr>);
          p = prev (bs b)
      in bs(p := (bs p)\<lparr>nxt := nxt (bs b)\<rparr>))"

definition binit :: "'z kbio_scheme \<Rightarrow> 'z kbio_scheme" where
  "binit s =
     (let s = upd_buf head (\<lambda>b. b\<lparr>prev := head, nxt := head\<rparr>) s in
      fold (\<lambda>b s. let s = initsleeplock (buf_lock b) s in s\<lparr>bufs := link_front b (bufs s)\<rparr>) [0..<NBUF] s)"

text \<open>
  A walk along the list from \<open>b\<close> to \<^verbatim>\<open>head\<close>: \<open>Some (Some b)\<close> is the first buffer the test accepts,
  \<open>Some None\<close> a walk that reached \<^verbatim>\<open>head\<close>, \<open>None\<close> a walk that did not within the fuel.
\<close>

fun search :: "nat \<Rightarrow> (buf \<Rightarrow> nat) \<Rightarrow> (buf \<Rightarrow> bool) \<Rightarrow> (nat \<Rightarrow> buf) \<Rightarrow> nat \<Rightarrow> nat option option" where
  "search 0 step test bs b = None"
| "search (Suc n) step test bs b =
     (if b = head then Some None
      else if test (bs b) then Some (Some b)
      else search n step test bs (step (bs b)))"

definition bget :: "u32 \<Rightarrow> u32 \<Rightarrow> 'z kbio_scheme \<Rightarrow> (nat, 'z kbio_scheme) outcome" where
  "bget d n s =
     bind (acquire L_bcache s) (\<lambda>_ s.
     case search (NBUF + 1) nxt (\<lambda>b. dev b = d \<and> blockno b = n) (bufs s) (nxt (bufs s head)) of
       None \<Rightarrow> Fault
     | Some (Some b) \<Rightarrow>
         let s = upd_buf b (\<lambda>b. b\<lparr>b_refcnt := b_refcnt b + 1\<rparr>) s in
         bind (release L_bcache s) (\<lambda>_ s.
         bind (acquiresleep (buf_lock b) s) (\<lambda>_ s. Ok b s))
     | Some None \<Rightarrow>
         (case search (NBUF + 1) prev (\<lambda>b. b_refcnt b = 0) (bufs s) (prev (bufs s head)) of
           None \<Rightarrow> Fault
         | Some (Some b) \<Rightarrow>
             let s = upd_buf b (\<lambda>b. b\<lparr>dev := d, blockno := n, valid := 0, b_refcnt := 1\<rparr>) s in
             bind (release L_bcache s) (\<lambda>_ s.
             bind (acquiresleep (buf_lock b) s) (\<lambda>_ s. Ok b s))
         | Some None \<Rightarrow> Panic ''bget: no buffers''))"

text \<open>
  The transfer that has taken place when \<^verbatim>\<open>virtio_disk_rw\<close> returns: the process waits in it, holding
  the buffer's sleep lock, until the device has completed the request.
\<close>

definition disk_transfer :: "nat \<Rightarrow> bool \<Rightarrow> 'z kbio_scheme \<Rightarrow> (unit, 'z kbio_scheme) outcome" where
  "disk_transfer b write s =
     (let n = blockno (bufs s b) in
      if write then
        Ok () (s\<lparr>disk := (disk s)(n := data (bufs s b)), diskw := diskw s @ [(n, data (bufs s b))]\<rparr>)
      else Ok () (upd_buf b (\<lambda>b. b\<lparr>data := disk s n\<rparr>) s))"

definition bread :: "u32 \<Rightarrow> u32 \<Rightarrow> 'z kbio_scheme \<Rightarrow> (nat, 'z kbio_scheme) outcome" where
  "bread d n s =
     bind (bget d n s) (\<lambda>b s.
     if valid (bufs s b) = 0 then
       bind (disk_transfer b False s) (\<lambda>_ s. Ok b (upd_buf b (\<lambda>b. b\<lparr>valid := 1\<rparr>) s))
     else Ok b s)"

definition bwrite :: "nat \<Rightarrow> 'z kbio_scheme \<Rightarrow> (unit, 'z kbio_scheme) outcome" where
  "bwrite b s =
     bind (holdingsleep (buf_lock b) s) (\<lambda>h s.
     if \<not> h then Panic ''bwrite'' else disk_transfer b True s)"

definition brelse :: "nat \<Rightarrow> 'z kbio_scheme \<Rightarrow> (unit, 'z kbio_scheme) outcome" where
  "brelse b s =
     bind (holdingsleep (buf_lock b) s) (\<lambda>h s.
     if \<not> h then Panic ''brelse''
     else bind (releasesleep (buf_lock b) s) (\<lambda>_ s.
       bind (acquire L_bcache s) (\<lambda>_ s.
       let s = upd_buf b (\<lambda>b. b\<lparr>b_refcnt := b_refcnt b - 1\<rparr>) s;
           s = (if b_refcnt (bufs s b) = 0
                then s\<lparr>bufs := link_front b (unlink_buf b (bufs s))\<rparr> else s) in
       release L_bcache s)))"

definition bpin :: "nat \<Rightarrow> 'z kbio_scheme \<Rightarrow> (unit, 'z kbio_scheme) outcome" where
  "bpin b s =
     bind (acquire L_bcache s) (\<lambda>_ s.
     let s = upd_buf b (\<lambda>b. b\<lparr>b_refcnt := b_refcnt b + 1\<rparr>) s in
     release L_bcache s)"

definition bunpin :: "nat \<Rightarrow> 'z kbio_scheme \<Rightarrow> (unit, 'z kbio_scheme) outcome" where
  "bunpin b s =
     bind (acquire L_bcache s) (\<lambda>_ s.
     let s = upd_buf b (\<lambda>b. b\<lparr>b_refcnt := b_refcnt b - 1\<rparr>) s in
     release L_bcache s)"

end
