(* ===== verification/Log.thy ===== *)
theory Log
  imports Bio
begin

text \<open>
  \<^verbatim>\<open>kernel/log.c\<close>: the write-ahead log. The header lists the home block numbers of the logged
  blocks; it is on disk at block \<^verbatim>\<open>log.start\<close> as 32-bit integers, the number of entries first.
\<close>

section \<open>The code\<close>

record logheader =
  lh_n :: int
  lh_block :: "nat \<Rightarrow> int"

record klog = kbio +
  log_start :: int
  outstanding :: int
  committing :: int
  log_dev :: u32
  lh :: logheader

text \<open>The \<open>i\<close>-th 32-bit integer of a block.\<close>

definition get32 :: "u8 list \<Rightarrow> nat \<Rightarrow> u32" where
  "get32 bs i = le_val (take 4 (drop (4 * i) bs))"

definition put_bytes :: "nat \<Rightarrow> u8 list \<Rightarrow> u8 list \<Rightarrow> u8 list" where
  "put_bytes off xs bs = take off bs @ xs @ drop (off + length xs) bs"

definition put32 :: "u8 list \<Rightarrow> nat \<Rightarrow> u32 \<Rightarrow> u8 list" where
  "put32 bs i v = put_bytes (4 * i) (le_bytes 4 v) bs"

definition set_data :: "nat \<Rightarrow> u8 list \<Rightarrow> 'z kbio_scheme \<Rightarrow> 'z kbio_scheme" where
  "set_data b d s = upd_buf b (\<lambda>b. b\<lparr>data := d\<rparr>) s"

definition install_trans :: "bool \<Rightarrow> 'z klog_scheme \<Rightarrow> (unit, 'z klog_scheme) outcome" where
  "install_trans recovering s =
     foreach [0..<nat (lh_n (lh s))] (\<lambda>tail s.
       bind (if recovering
             then printf (''recovering tail %d dst %d'' @ nl) [vint (int tail), vint (lh_block (lh s) tail)] s
             else Ok () s) (\<lambda>_ s.
       bind (bread (log_dev s) (of_int (log_start s + int tail + 1)) s) (\<lambda>lbuf s.
       bind (bread (log_dev s) (of_int (lh_block (lh s) tail)) s) (\<lambda>dbuf s.
       let s = set_data dbuf (data (bufs s lbuf)) s in
       bind (bwrite dbuf s) (\<lambda>_ s.
       bind (if \<not> recovering then bunpin dbuf s else Ok () s) (\<lambda>_ s.
       bind (brelse lbuf s) (\<lambda>_ s.
       brelse dbuf s))))))) s"

text \<open>A header whose count exceeds \<^verbatim>\<open>LOGBLOCKS\<close> would be read past the end of \<^verbatim>\<open>log.lh.block\<close>.\<close>

definition read_head :: "'z klog_scheme \<Rightarrow> (unit, 'z klog_scheme) outcome" where
  "read_head s =
     bind (bread (log_dev s) (of_int (log_start s)) s) (\<lambda>b s.
     let d = data (bufs s b); n = sint (get32 d 0) in
     if n > int LOGBLOCKS then Fault
     else
       let s = s\<lparr>lh := \<lparr>lh_n = n, lh_block = (\<lambda>i. if i < nat n then sint (get32 d (i + 1)) else lh_block (lh s) i)\<rparr>\<rparr> in
       brelse b s)"

definition header_data :: "logheader \<Rightarrow> u8 list \<Rightarrow> u8 list" where
  "header_data h d =
     fold (\<lambda>i d. put32 d (i + 1) (of_int (lh_block h i))) [0..<nat (lh_n h)] (put32 d 0 (of_int (lh_n h)))"

definition write_head :: "'z klog_scheme \<Rightarrow> (unit, 'z klog_scheme) outcome" where
  "write_head s =
     bind (bread (log_dev s) (of_int (log_start s)) s) (\<lambda>b s.
     let s = set_data b (header_data (lh s) (data (bufs s b))) s in
     bind (bwrite b s) (\<lambda>_ s.
     brelse b s))"

definition set_lh_n :: "int \<Rightarrow> 'z klog_scheme \<Rightarrow> 'z klog_scheme" where
  "set_lh_n n s = s\<lparr>lh := (lh s)\<lparr>lh_n := n\<rparr>\<rparr>"

definition recover_from_log :: "'z klog_scheme \<Rightarrow> (unit, 'z klog_scheme) outcome" where
  "recover_from_log s =
     bind (read_head s) (\<lambda>_ s.
     bind (install_trans True s) (\<lambda>_ s.
     write_head (set_lh_n 0 s)))"

definition initlog :: "u32 \<Rightarrow> int \<Rightarrow> 'z klog_scheme \<Rightarrow> (unit, 'z klog_scheme) outcome" where
  "initlog d start s = recover_from_log (s\<lparr>log_start := start, log_dev := d\<rparr>)"

definition begin_op_loop :: "'z klog_scheme \<Rightarrow> (unit, 'z klog_scheme) outcome" where
  "begin_op_loop s =
     (if committing s \<noteq> 0 then sleep Ch_log L_log s
      else if lh_n (lh s) + (outstanding s + 1) * int MAXOPBLOCKS > int LOGBLOCKS then sleep Ch_log L_log s
      else release L_log (s\<lparr>outstanding := outstanding s + 1\<rparr>))"

definition begin_op :: "'z klog_scheme \<Rightarrow> (unit, 'z klog_scheme) outcome" where
  "begin_op s = bind (acquire L_log s) (\<lambda>_ s. begin_op_loop s)"

definition write_log :: "'z klog_scheme \<Rightarrow> (unit, 'z klog_scheme) outcome" where
  "write_log s =
     foreach [0..<nat (lh_n (lh s))] (\<lambda>tail s.
       bind (bread (log_dev s) (of_int (log_start s + int tail + 1)) s) (\<lambda>to s.
       bind (bread (log_dev s) (of_int (lh_block (lh s) tail)) s) (\<lambda>from s.
       let s = set_data to (data (bufs s from)) s in
       bind (bwrite to s) (\<lambda>_ s.
       bind (brelse from s) (\<lambda>_ s.
       brelse to s))))) s"

definition commit :: "'z klog_scheme \<Rightarrow> (unit, 'z klog_scheme) outcome" where
  "commit s =
     (if lh_n (lh s) > 0 then
        bind (write_log s) (\<lambda>_ s.
        bind (write_head s) (\<lambda>_ s.
        bind (install_trans False s) (\<lambda>_ s.
        write_head (set_lh_n 0 s))))
      else Ok () s)"

definition end_op :: "'z klog_scheme \<Rightarrow> (unit, 'z klog_scheme) outcome" where
  "end_op s =
     bind (acquire L_log s) (\<lambda>_ s.
     let s = s\<lparr>outstanding := outstanding s - 1\<rparr> in
     if committing s \<noteq> 0 then Panic ''log.committing''
     else if outstanding s = 0 then
       let s = s\<lparr>committing := 1\<rparr> in
       bind (release L_log s) (\<lambda>_ s.
       bind (commit s) (\<lambda>_ s.
       bind (acquire L_log s) (\<lambda>_ s.
       let s = s\<lparr>committing := 0\<rparr> in
       bind (wakeup Ch_log s) (\<lambda>_ s.
       release L_log s))))
     else
       bind (wakeup Ch_log s) (\<lambda>_ s.
       release L_log s))"

definition log_write :: "nat \<Rightarrow> 'z klog_scheme \<Rightarrow> (unit, 'z klog_scheme) outcome" where
  "log_write b s =
     bind (acquire L_log s) (\<lambda>_ s.
     if lh_n (lh s) \<ge> int LOGBLOCKS then Panic ''too big a transaction''
     else if outstanding s < 1 then Panic ''log_write outside of trans''
     else
       let n = nat (lh_n (lh s)); bno = blockno (bufs s b);
           i = (case find (\<lambda>i. of_int (lh_block (lh s) i) = bno) [0..<n] of None \<Rightarrow> n | Some i \<Rightarrow> i);
           s = s\<lparr>lh := (lh s)\<lparr>lh_block := (lh_block (lh s))(i := sint bno)\<rparr>\<rparr> in
       if i = n then
         bind (bpin b s) (\<lambda>_ s.
         release L_log (set_lh_n (lh_n (lh s) + 1) s))
       else release L_log s)"

end
