(* ===== verification/Fs.thy ===== *)
theory Fs
  imports Log
begin

text \<open>
  \<^verbatim>\<open>kernel/fs.c\<close>: block allocation, inodes, file contents, directories and path names. On-disk
  structures are byte ranges of blocks (\<^verbatim>\<open>struct dinode\<close>: 64 bytes, \<^verbatim>\<open>struct dirent\<close>: 16 bytes). An
  in-memory inode is an index below \<^verbatim>\<open>NINODE\<close>; \<open>None\<close> is the null pointer. Path names and
  directory names are byte lists without their terminating NUL.
\<close>

section \<open>On-disk format\<close>

record superblock =
  magic :: u32
  sb_size :: u32
  nblocks :: u32
  ninodes :: u32
  nlog :: u32
  logstart :: u32
  inodestart :: u32
  bmapstart :: u32

abbreviation (input) FSMAGIC :: u32 where "FSMAGIC \<equiv> 0x10203040"
abbreviation (input) ROOTINO :: u32 where "ROOTINO \<equiv> 1"
abbreviation (input) ROOTDEV :: u32 where "ROOTDEV \<equiv> 1"
abbreviation (input) NDIRECT :: nat where "NDIRECT \<equiv> 12"
abbreviation (input) NINDIRECT :: nat where "NINDIRECT \<equiv> 256"
abbreviation (input) IPB :: nat where "IPB \<equiv> 16"
abbreviation (input) BPB :: nat where "BPB \<equiv> 8192"
abbreviation (input) DIRSIZ :: nat where "DIRSIZ \<equiv> 14"
abbreviation (input) T_DIR :: int where "T_DIR \<equiv> 1"
abbreviation (input) T_FILE :: int where "T_FILE \<equiv> 2"
abbreviation (input) T_DEVICE :: int where "T_DEVICE \<equiv> 3"

record inode =
  i_dev :: u32
  inum :: u32
  ref :: int
  i_valid :: int
  i_type :: int           \<comment> \<open>the \<^verbatim>\<open>short\<close> fields are integers\<close>
  major :: int
  minor :: int
  nlink :: int
  isize :: u32
  addrs :: "nat \<Rightarrow> u32"

record kfs = klog +
  sb :: superblock
  itable :: "nat \<Rightarrow> inode"

definition IBLOCK :: "u32 \<Rightarrow> superblock \<Rightarrow> u32" where
  "IBLOCK i u = i div 16 + inodestart u"

definition BBLOCK :: "u32 \<Rightarrow> superblock \<Rightarrow> u32" where
  "BBLOCK b u = b div 8192 + bmapstart u"

text \<open>The conversion to \<^verbatim>\<open>short\<close>, and 16-bit fields in a block.\<close>

definition short :: "int \<Rightarrow> int" where
  "short n = sint (of_int n :: u16)"

definition get16 :: "u8 list \<Rightarrow> nat \<Rightarrow> u16" where
  "get16 d off = le_val (take 2 (drop off d))"

definition put16 :: "u8 list \<Rightarrow> nat \<Rightarrow> u16 \<Rightarrow> u8 list" where
  "put16 d off v = put_bytes off (le_bytes 2 v) d"

text \<open>The bytes of the inode fields at offset \<open>o\<close> of a block, and back.\<close>

definition dinode_bytes :: "inode \<Rightarrow> u8 list" where
  "dinode_bytes ip =
     le_bytes 2 (of_int (i_type ip) :: u16) @ le_bytes 2 (of_int (major ip) :: u16) @
     le_bytes 2 (of_int (minor ip) :: u16) @ le_bytes 2 (of_int (nlink ip) :: u16) @
     le_bytes 4 (isize ip) @ concat (map (\<lambda>i. le_bytes 4 (addrs ip i)) [0..<NDIRECT + 1])"

definition read_dinode :: "u8 list \<Rightarrow> inode \<Rightarrow> inode" where
  "read_dinode d ip = ip\<lparr>i_type := sint (get16 d 0), major := sint (get16 d 2), minor := sint (get16 d 4),
     nlink := sint (get16 d 6), isize := get32 d 2,
     addrs := (\<lambda>i. if i \<le> NDIRECT then get32 d (3 + i) else addrs ip i)\<rparr>"

definition dinode_off :: "u32 \<Rightarrow> nat" where
  "dinode_off i = 64 * (unat i mod IPB)"

definition upd_inode :: "nat \<Rightarrow> (inode \<Rightarrow> inode) \<Rightarrow> 'z kfs_scheme \<Rightarrow> 'z kfs_scheme" where
  "upd_inode i f s = s\<lparr>itable := (itable s)(i := f (itable s i))\<rparr>"

text \<open>The sleep lock of inode \<open>i\<close>; the numbers below \<^verbatim>\<open>NBUF\<close> are the buffers'.\<close>

definition inode_lock :: "nat \<Rightarrow> nat" where
  "inode_lock i = NBUF + i"

section \<open>Blocks\<close>

definition readsb :: "u32 \<Rightarrow> 'z kfs_scheme \<Rightarrow> (unit, 'z kfs_scheme) outcome" where
  "readsb d s =
     bind (bread d 1 s) (\<lambda>b s.
     let bs = data (bufs s b);
         s = s\<lparr>sb := \<lparr>magic = get32 bs 0, sb_size = get32 bs 1, nblocks = get32 bs 2, ninodes = get32 bs 3,
           nlog = get32 bs 4, logstart = get32 bs 5, inodestart = get32 bs 6, bmapstart = get32 bs 7\<rparr>\<rparr> in
     brelse b s)"

definition bzero :: "u32 \<Rightarrow> u32 \<Rightarrow> 'z kfs_scheme \<Rightarrow> (unit, 'z kfs_scheme) outcome" where
  "bzero d bno s =
     bind (bread d bno s) (\<lambda>b s.
     let s = set_data b (replicate BSIZE 0) s in
     bind (log_write b s) (\<lambda>_ s.
     brelse b s))"

definition bit_clear :: "u8 list \<Rightarrow> nat \<Rightarrow> bool" where
  "bit_clear d bi \<longleftrightarrow> d ! (bi div 8) AND push_bit (bi mod 8) 1 = 0"

definition set_bit8 :: "nat \<Rightarrow> u8 list \<Rightarrow> u8 list" where
  "set_bit8 bi d = d[bi div 8 := d ! (bi div 8) OR push_bit (bi mod 8) 1]"

definition clear_bit8 :: "nat \<Rightarrow> u8 list \<Rightarrow> u8 list" where
  "clear_bit8 bi d = d[bi div 8 := d ! (bi div 8) AND NOT (push_bit (bi mod 8) 1)]"

definition balloc :: "u32 \<Rightarrow> 'z kfs_scheme \<Rightarrow> (u32, 'z kfs_scheme) outcome" where
  "balloc d s =
     (let siz = unat (sb_size (sb s)) in
      bind (scan (map (\<lambda>k. k * BPB) [0..<(siz + BPB - 1) div BPB]) (\<lambda>b s.
        bind (bread d (BBLOCK (of_nat b) (sb s)) s) (\<lambda>bp s.
        case find (bit_clear (data (bufs s bp))) [0..<min BPB (siz - b)] of
          Some bi \<Rightarrow>
            let s = set_data bp (set_bit8 bi (data (bufs s bp))) s in
            bind (log_write bp s) (\<lambda>_ s.
            bind (brelse bp s) (\<lambda>_ s.
            bind (bzero d (of_nat (b + bi)) s) (\<lambda>_ s.
            Ok (Some (of_nat (b + bi))) s)))
        | None \<Rightarrow> bind (brelse bp s) (\<lambda>_ s. Ok None s))) s) (\<lambda>r s.
      case r of Some a \<Rightarrow> Ok a s
      | None \<Rightarrow> bind (printf (''balloc: out of blocks'' @ nl) [] s) (\<lambda>_ s. Ok 0 s)))"

definition bfree :: "u32 \<Rightarrow> u32 \<Rightarrow> 'z kfs_scheme \<Rightarrow> (unit, 'z kfs_scheme) outcome" where
  "bfree d b s =
     bind (bread d (BBLOCK b (sb s)) s) (\<lambda>bp s.
     let bi = unat b mod BPB in
     if bit_clear (data (bufs s bp)) bi then Panic ''freeing free block''
     else
       let s = set_data bp (clear_bit8 bi (data (bufs s bp))) s in
       bind (log_write bp s) (\<lambda>_ s.
       brelse bp s))"

section \<open>Inodes\<close>

definition iinit :: "'z kfs_scheme \<Rightarrow> 'z kfs_scheme" where
  "iinit s = fold (\<lambda>i s. initsleeplock (inode_lock i) s) [0..<NINODE] s"

text \<open>
  The scan of \<^verbatim>\<open>iget\<close> finds the first entry for the inode; only if there is none does it use the
  first entry without references.
\<close>

definition iget :: "u32 \<Rightarrow> u32 \<Rightarrow> 'z kfs_scheme \<Rightarrow> (nat, 'z kfs_scheme) outcome" where
  "iget d n s =
     bind (acquire L_itable s) (\<lambda>_ s.
     case find (\<lambda>i. ref (itable s i) > 0 \<and> i_dev (itable s i) = d \<and> inum (itable s i) = n) [0..<NINODE] of
       Some i \<Rightarrow>
         let s = upd_inode i (\<lambda>ip. ip\<lparr>ref := ref ip + 1\<rparr>) s in
         bind (release L_itable s) (\<lambda>_ s. Ok i s)
     | None \<Rightarrow>
         (case find (\<lambda>i. ref (itable s i) = 0) [0..<NINODE] of
            None \<Rightarrow> Panic ''iget: no inodes''
          | Some i \<Rightarrow>
              let s = upd_inode i (\<lambda>ip. ip\<lparr>i_dev := d, inum := n, ref := 1, i_valid := 0\<rparr>) s in
              bind (release L_itable s) (\<lambda>_ s. Ok i s)))"

definition idup :: "nat \<Rightarrow> 'z kfs_scheme \<Rightarrow> (nat, 'z kfs_scheme) outcome" where
  "idup i s =
     bind (acquire L_itable s) (\<lambda>_ s.
     let s = upd_inode i (\<lambda>ip. ip\<lparr>ref := ref ip + 1\<rparr>) s in
     bind (release L_itable s) (\<lambda>_ s. Ok i s))"

definition ialloc :: "u32 \<Rightarrow> int \<Rightarrow> 'z kfs_scheme \<Rightarrow> (nat option, 'z kfs_scheme) outcome" where
  "ialloc d typ s =
     bind (scan [1..<unat (ninodes (sb s))] (\<lambda>n s.
       bind (bread d (IBLOCK (of_nat n) (sb s)) s) (\<lambda>bp s.
       let off = dinode_off (of_nat n) in
       if get16 (data (bufs s bp)) off = 0 then
         let s = set_data bp (put_bytes off (le_bytes 2 (of_int typ :: u16) @ replicate 62 0) (data (bufs s bp))) s in
         bind (log_write bp s) (\<lambda>_ s.
         bind (brelse bp s) (\<lambda>_ s.
         bind (iget d (of_nat n) s) (\<lambda>i s. Ok (Some i) s)))
       else bind (brelse bp s) (\<lambda>_ s. Ok None s))) s) (\<lambda>r s.
     case r of Some i \<Rightarrow> Ok (Some i) s
     | None \<Rightarrow> bind (printf (''ialloc: no inodes'' @ nl) [] s) (\<lambda>_ s. Ok None s))"

definition iupdate :: "nat \<Rightarrow> 'z kfs_scheme \<Rightarrow> (unit, 'z kfs_scheme) outcome" where
  "iupdate i s =
     bind (bread (i_dev (itable s i)) (IBLOCK (inum (itable s i)) (sb s)) s) (\<lambda>bp s.
     let s = set_data bp (put_bytes (dinode_off (inum (itable s i))) (dinode_bytes (itable s i)) (data (bufs s bp))) s in
     bind (log_write bp s) (\<lambda>_ s.
     brelse bp s))"

definition ilock :: "nat \<Rightarrow> 'z kfs_scheme \<Rightarrow> (unit, 'z kfs_scheme) outcome" where
  "ilock i s =
     (if ref (itable s i) < 1 then Panic ''ilock''
      else bind (acquiresleep (inode_lock i) s) (\<lambda>_ s.
        if i_valid (itable s i) = 0 then
          bind (bread (i_dev (itable s i)) (IBLOCK (inum (itable s i)) (sb s)) s) (\<lambda>bp s.
          let d = drop (dinode_off (inum (itable s i))) (data (bufs s bp));
              s = upd_inode i (read_dinode d) s in
          bind (brelse bp s) (\<lambda>_ s.
          let s = upd_inode i (\<lambda>ip. ip\<lparr>i_valid := 1\<rparr>) s in
          if i_type (itable s i) = 0 then Panic ''ilock: no type'' else Ok () s))
        else Ok () s))"

definition iunlock :: "nat \<Rightarrow> 'z kfs_scheme \<Rightarrow> (unit, 'z kfs_scheme) outcome" where
  "iunlock i s =
     bind (holdingsleep (inode_lock i) s) (\<lambda>h s.
     if \<not> h \<or> ref (itable s i) < 1 then Panic ''iunlock'' else releasesleep (inode_lock i) s)"

definition itrunc :: "nat \<Rightarrow> 'z kfs_scheme \<Rightarrow> (unit, 'z kfs_scheme) outcome" where
  "itrunc i s =
     bind (foreach [0..<NDIRECT] (\<lambda>k s.
       if addrs (itable s i) k \<noteq> 0 then
         bind (bfree (i_dev (itable s i)) (addrs (itable s i) k) s) (\<lambda>_ s.
         Ok () (upd_inode i (\<lambda>ip. ip\<lparr>addrs := (addrs ip)(k := 0)\<rparr>) s))
       else Ok () s) s) (\<lambda>_ s.
     bind (if addrs (itable s i) NDIRECT \<noteq> 0 then
         bind (bread (i_dev (itable s i)) (addrs (itable s i) NDIRECT) s) (\<lambda>bp s.
         bind (foreach [0..<NINDIRECT] (\<lambda>j s.
           if get32 (data (bufs s bp)) j \<noteq> 0
           then bfree (i_dev (itable s i)) (get32 (data (bufs s bp)) j) s else Ok () s) s) (\<lambda>_ s.
         bind (brelse bp s) (\<lambda>_ s.
         bind (bfree (i_dev (itable s i)) (addrs (itable s i) NDIRECT) s) (\<lambda>_ s.
         Ok () (upd_inode i (\<lambda>ip. ip\<lparr>addrs := (addrs ip)(NDIRECT := 0)\<rparr>) s)))))
       else Ok () s) (\<lambda>_ s.
     let s = upd_inode i (\<lambda>ip. ip\<lparr>isize := 0\<rparr>) s in
     iupdate i s))"

definition iput :: "nat \<Rightarrow> 'z kfs_scheme \<Rightarrow> (unit, 'z kfs_scheme) outcome" where
  "iput i s =
     bind (acquire L_itable s) (\<lambda>_ s.
     bind (if ref (itable s i) = 1 \<and> i_valid (itable s i) \<noteq> 0 \<and> nlink (itable s i) = 0 then
         bind (acquiresleep (inode_lock i) s) (\<lambda>_ s.
         bind (release L_itable s) (\<lambda>_ s.
         bind (itrunc i s) (\<lambda>_ s.
         let s = upd_inode i (\<lambda>ip. ip\<lparr>i_type := 0\<rparr>) s in
         bind (iupdate i s) (\<lambda>_ s.
         let s = upd_inode i (\<lambda>ip. ip\<lparr>i_valid := 0\<rparr>) s in
         bind (releasesleep (inode_lock i) s) (\<lambda>_ s.
         acquire L_itable s)))))
       else Ok () s) (\<lambda>_ s.
     let s = upd_inode i (\<lambda>ip. ip\<lparr>ref := ref ip - 1\<rparr>) s in
     release L_itable s))"

definition iunlockput :: "nat \<Rightarrow> 'z kfs_scheme \<Rightarrow> (unit, 'z kfs_scheme) outcome" where
  "iunlockput i s = bind (iunlock i s) (\<lambda>_ s. iput i s)"

definition ireclaim :: "u32 \<Rightarrow> 'z kfs_scheme \<Rightarrow> (unit, 'z kfs_scheme) outcome" where
  "ireclaim d s = foreach [1..<unat (ninodes (sb s))] (\<lambda>n s.
     bind (bread d (IBLOCK (of_nat n) (sb s)) s) (\<lambda>bp s.
     let dip = drop (dinode_off (of_nat n)) (data (bufs s bp)) in
     bind (if get16 dip 0 \<noteq> 0 \<and> get16 dip 6 = 0 then
         bind (printf (''ireclaim: orphaned inode %d'' @ nl) [vint (int n)] s) (\<lambda>_ s.
         bind (iget d (of_nat n) s) (\<lambda>i s. Ok (Some i) s))
       else Ok None s) (\<lambda>ip s.
     bind (brelse bp s) (\<lambda>_ s.
     case ip of None \<Rightarrow> Ok () s
     | Some i \<Rightarrow>
         bind (begin_op s) (\<lambda>_ s.
         bind (ilock i s) (\<lambda>_ s.
         bind (iunlock i s) (\<lambda>_ s.
         bind (iput i s) (\<lambda>_ s.
         end_op s)))))))) s"

definition fsinit :: "u32 \<Rightarrow> 'z kfs_scheme \<Rightarrow> (unit, 'z kfs_scheme) outcome" where
  "fsinit d s =
     bind (readsb d s) (\<lambda>_ s.
     if magic (sb s) \<noteq> FSMAGIC then Panic ''invalid file system''
     else bind (initlog d (sint (logstart (sb s))) s) (\<lambda>_ s. ireclaim d s))"

end
