(* ===== verification/Fsdata.thy ===== *)
theory Fsdata
  imports Fs
begin

text \<open>
  \<^verbatim>\<open>kernel/fs.c\<close>, second half: the contents of inodes, directories and path names. \<open>readi\<close> returns
  its count together with the bytes it has delivered; where they go is a \<open>dest\<close>: a user address,
  a kernel address, or a local variable of the caller. \<open>writei\<close> takes its bytes from the user or
  from a local variable.
\<close>

section \<open>Contents\<close>

definition bmap :: "nat \<Rightarrow> u32 \<Rightarrow> 'z kfs_scheme \<Rightarrow> (u32, 'z kfs_scheme) outcome" where
  "bmap i bn s =
     (if unat bn < NDIRECT then
        let addr = addrs (itable s i) (unat bn) in
        if addr = 0 then
          bind (balloc (i_dev (itable s i)) s) (\<lambda>addr s.
          if addr = 0 then Ok 0 s
          else Ok addr (upd_inode i (\<lambda>ip. ip\<lparr>addrs := (addrs ip)(unat bn := addr)\<rparr>) s))
        else Ok addr s
      else let bn = unat bn - NDIRECT in
        if bn < NINDIRECT then
          bind (let addr = addrs (itable s i) NDIRECT in
            if addr = 0 then
              bind (balloc (i_dev (itable s i)) s) (\<lambda>addr s.
              if addr = 0 then Ok 0 s
              else Ok addr (upd_inode i (\<lambda>ip. ip\<lparr>addrs := (addrs ip)(NDIRECT := addr)\<rparr>) s))
            else Ok addr s) (\<lambda>addr s.
          if addr = 0 then Ok 0 s
          else bind (bread (i_dev (itable s i)) addr s) (\<lambda>bp s.
            bind (let addr = get32 (data (bufs s bp)) bn in
              if addr = 0 then
                bind (balloc (i_dev (itable s i)) s) (\<lambda>addr s.
                if addr \<noteq> 0 then
                  let s = set_data bp (put32 (data (bufs s bp)) bn addr) s in
                  bind (log_write bp s) (\<lambda>_ s. Ok addr s)
                else Ok addr s)
              else Ok addr s) (\<lambda>addr s.
            bind (brelse bp s) (\<lambda>_ s. Ok addr s))))
        else Panic ''bmap: out of range'')"

record stat =
  st_dev :: u32
  st_ino :: u32
  st_type :: int
  st_nlink :: int
  st_size :: u64

definition stati :: "nat \<Rightarrow> 'z kfs_scheme \<Rightarrow> stat" where
  "stati i s = (let ip = itable s i in
     \<lparr>st_dev = i_dev ip, st_ino = inum ip, st_type = i_type ip, st_nlink = nlink ip, st_size = ucast (isize ip)\<rparr>)"

datatype dest = User_dst u64 | Kernel_dst u64 | Local_dst
datatype source = User_src u64 | Local_src "u8 list"

fun copy_to :: "dest \<Rightarrow> u8 list \<Rightarrow> 'z kproc_scheme \<Rightarrow> (int, 'z kproc_scheme) outcome" where
  "copy_to (User_dst a) bs s = either_copyout True a bs s"
| "copy_to (Kernel_dst a) bs s = either_copyout False a bs s"
| "copy_to Local_dst bs s = Ok 0 s"

fun advance_dst :: "nat \<Rightarrow> dest \<Rightarrow> dest" where
  "advance_dst m (User_dst a) = User_dst (a + of_nat m)"
| "advance_dst m (Kernel_dst a) = Kernel_dst (a + of_nat m)"
| "advance_dst m Local_dst = Local_dst"

fun copy_from :: "source \<Rightarrow> nat \<Rightarrow> 'z kproc_scheme \<Rightarrow> (int \<times> u8 list, 'z kproc_scheme) outcome" where
  "copy_from (User_src a) m s = either_copyin True a m s"
| "copy_from (Local_src bs) m s = Ok (0, take m bs) s"

fun advance_src :: "nat \<Rightarrow> source \<Rightarrow> source" where
  "advance_src m (User_src a) = User_src (a + of_nat m)"
| "advance_src m (Local_src bs) = Local_src (drop m bs)"

text \<open>The bytes one round of the loops can move: to the end of the block or of the request.\<close>

definition chunk :: "u32 \<Rightarrow> nat \<Rightarrow> nat" where
  "chunk off left = min left (BSIZE - unat off mod BSIZE)"

lemma chunk_pos: "0 < left \<Longrightarrow> 0 < chunk off left"
  by (simp add: chunk_def)

function readi_loop :: "nat \<Rightarrow> dest \<Rightarrow> u32 \<Rightarrow> nat \<Rightarrow> nat \<Rightarrow> 'z kfs_scheme \<Rightarrow>
    (int \<times> u8 list, 'z kfs_scheme) outcome" where
  "readi_loop i dst off tot n s =
     (if tot < n then
        bind (bmap i (off div 1024) s) (\<lambda>addr s.
        if addr = 0 then Ok (int tot, []) s
        else bind (bread (i_dev (itable s i)) addr s) (\<lambda>bp s.
          let m = chunk off (n - tot); bs = take m (drop (unat off mod BSIZE) (data (bufs s bp))) in
          bind (copy_to dst bs s) (\<lambda>r s.
          if r = -1 then bind (brelse bp s) (\<lambda>_ s. Ok (-1, []) s)
          else bind (brelse bp s) (\<lambda>_ s.
            bind (readi_loop i (advance_dst m dst) (off + of_nat m) (tot + m) n s) (\<lambda>(r, bs') s.
            Ok (r, bs @ bs') s)))))
      else Ok (int tot, []) s)"
  by pat_completeness auto
termination
  by (relation "measure (\<lambda>(i, dst, off, tot, n, s). n - tot)")
    (auto simp: chunk_def min_def)

declare readi_loop.simps [simp del]

definition readi :: "nat \<Rightarrow> dest \<Rightarrow> u32 \<Rightarrow> u32 \<Rightarrow> 'z kfs_scheme \<Rightarrow> (int \<times> u8 list, 'z kfs_scheme) outcome" where
  "readi i dst off n s =
     (if off > isize (itable s i) \<or> off + n < off then Ok (0, []) s
      else
        let n = (if off + n > isize (itable s i) then isize (itable s i) - off else n) in
        readi_loop i dst off 0 (unat n) s)"

text \<open>
  The loop of \<^verbatim>\<open>writei\<close> returns the count and the offset it has reached. When a copy from the user
  fails, the bytes copied before the failure are already in the buffer.
\<close>

function writei_loop :: "nat \<Rightarrow> source \<Rightarrow> u32 \<Rightarrow> nat \<Rightarrow> nat \<Rightarrow> 'z kfs_scheme \<Rightarrow>
    (int \<times> u32, 'z kfs_scheme) outcome" where
  "writei_loop i src off tot n s =
     (if tot < n then
        bind (bmap i (off div 1024) s) (\<lambda>addr s.
        if addr = 0 then Ok (int tot, off) s
        else bind (bread (i_dev (itable s i)) addr s) (\<lambda>bp s.
          let m = chunk off (n - tot) in
          bind (copy_from src m s) (\<lambda>(r, bs) s.
          let s = set_data bp (put_bytes (unat off mod BSIZE) bs (data (bufs s bp))) s in
          if r = -1 then bind (brelse bp s) (\<lambda>_ s. Ok (int tot, off) s)
          else bind (log_write bp s) (\<lambda>_ s.
            bind (brelse bp s) (\<lambda>_ s.
            writei_loop i (advance_src m src) (off + of_nat m) (tot + m) n s)))))
      else Ok (int tot, off) s)"
  by pat_completeness auto
termination
  by (relation "measure (\<lambda>(i, src, off, tot, n, s). n - tot)")
    (auto simp: chunk_def min_def)

declare writei_loop.simps [simp del]

definition writei :: "nat \<Rightarrow> source \<Rightarrow> u32 \<Rightarrow> u32 \<Rightarrow> 'z kfs_scheme \<Rightarrow> (int, 'z kfs_scheme) outcome" where
  "writei i src off n s =
     (if off > isize (itable s i) \<or> off + n < off then Ok (-1) s
      else if unat (off + n) > (NDIRECT + NINDIRECT) * BSIZE then Ok (-1) s
      else bind (writei_loop i src off 0 (unat n) s) (\<lambda>(tot, off) s.
        let s = (if off > isize (itable s i) then upd_inode i (\<lambda>ip. ip\<lparr>isize := off\<rparr>) s else s) in
        bind (iupdate i s) (\<lambda>_ s. Ok tot s)))"

section \<open>Directories\<close>

text \<open>\<^verbatim>\<open>strncmp\<close> on byte lists; the end of a list reads as NUL.\<close>

fun char_at :: "u8 list \<Rightarrow> u8" where
  "char_at [] = 0"
| "char_at (c # cs) = c"

fun strncmp_list :: "u8 list \<Rightarrow> u8 list \<Rightarrow> nat \<Rightarrow> int" where
  "strncmp_list p q 0 = 0"
| "strncmp_list p q (Suc n) =
     (if char_at p \<noteq> 0 \<and> char_at p = char_at q then strncmp_list (tl p) (tl q) n
      else uint (char_at p) - uint (char_at q))"

definition namecmp :: "u8 list \<Rightarrow> u8 list \<Rightarrow> int" where
  "namecmp s t = strncmp_list s t DIRSIZ"

text \<open>\<^verbatim>\<open>struct dirent\<close>: a 16-bit inode number and \<^verbatim>\<open>DIRSIZ\<close> bytes of name.\<close>

definition de_inum :: "u8 list \<Rightarrow> u16" where
  "de_inum de = get16 de 0"

definition de_name :: "u8 list \<Rightarrow> u8 list" where
  "de_name de = take DIRSIZ (drop 2 de)"

text \<open>\<^verbatim>\<open>strncpy(de.name, name, DIRSIZ); de.inum = inum\<close>.\<close>

definition mk_dirent :: "u8 list \<Rightarrow> u32 \<Rightarrow> u8 list" where
  "mk_dirent name n = le_bytes 2 (ucast n :: u16) @ take DIRSIZ (name @ replicate DIRSIZ 0)"

text \<open>The offsets of the loops over a directory's entries.\<close>

definition dir_offsets :: "u32 \<Rightarrow> nat list" where
  "dir_offsets siz = map (\<lambda>k. 16 * k) [0..<(unat siz + 15) div 16]"

definition dirlookup :: "nat \<Rightarrow> u8 list \<Rightarrow> 'z kfs_scheme \<Rightarrow> ((nat \<times> u32) option, 'z kfs_scheme) outcome" where
  "dirlookup dp name s =
     (if i_type (itable s dp) \<noteq> T_DIR then Panic ''dirlookup not DIR''
      else scan (dir_offsets (isize (itable s dp))) (\<lambda>off s.
        bind (readi dp Local_dst (of_nat off) 16 s) (\<lambda>(r, de) s.
        if r \<noteq> 16 then Panic ''dirlookup read''
        else if de_inum de = 0 then Ok None s
        else if namecmp name (de_name de) = 0 then
          bind (iget (i_dev (itable s dp)) (ucast (de_inum de)) s) (\<lambda>i s.
          Ok (Some (i, of_nat off)) s)
        else Ok None s)) s)"

text \<open>The search for a free entry: its offset, or the size of the directory.\<close>

definition dirlink_slot :: "nat \<Rightarrow> 'z kfs_scheme \<Rightarrow> (nat, 'z kfs_scheme) outcome" where
  "dirlink_slot dp s =
     bind (scan (dir_offsets (isize (itable s dp))) (\<lambda>off s.
       bind (readi dp Local_dst (of_nat off) 16 s) (\<lambda>(r, de) s.
       if r \<noteq> 16 then Panic ''dirlink read''
       else Ok (if de_inum de = 0 then Some off else None) s)) s) (\<lambda>r s.
     Ok (case r of Some off \<Rightarrow> off | None \<Rightarrow> 16 * ((unat (isize (itable s dp)) + 15) div 16)) s)"

definition dirlink :: "nat \<Rightarrow> u8 list \<Rightarrow> u32 \<Rightarrow> 'z kfs_scheme \<Rightarrow> (int, 'z kfs_scheme) outcome" where
  "dirlink dp name n s =
     bind (dirlookup dp name s) (\<lambda>found s.
     case found of
       Some (i, _) \<Rightarrow> bind (iput i s) (\<lambda>_ s. Ok (-1) s)
     | None \<Rightarrow>
         bind (dirlink_slot dp s) (\<lambda>off s.
         bind (writei dp (Local_src (mk_dirent name n)) (of_nat off) 16 s) (\<lambda>r s.
         if r \<noteq> 16 then Ok (-1) s else Ok 0 s)))"

section \<open>Paths\<close>

abbreviation (input) slash :: u8 where "slash \<equiv> 47"

text \<open>\<open>None\<close> is the null pointer; otherwise the element and the rest of the path.\<close>

definition skipelem :: "u8 list \<Rightarrow> (u8 list \<times> u8 list) option" where
  "skipelem path =
     (let path = dropWhile (\<lambda>c. c = slash) path in
      if path = [] then None
      else
        let s = takeWhile (\<lambda>c. c \<noteq> slash) path; path = dropWhile (\<lambda>c. c \<noteq> slash) path;
            name = (if length s \<ge> DIRSIZ then take DIRSIZ s else s) in
        Some (name, dropWhile (\<lambda>c. c = slash) path))"

lemma skipelem_shorter: "skipelem path = Some (name, rest) \<Longrightarrow> length rest < length path"
proof -
  assume *: "skipelem path = Some (name, rest)"
  define p where "p = dropWhile (\<lambda>c. c = slash) path"
  have p: "p \<noteq> []" "rest = dropWhile (\<lambda>c. c = slash) (dropWhile (\<lambda>c. c \<noteq> slash) p)"
    using * by (auto simp: skipelem_def p_def Let_def split: if_splits)
  then obtain c cs where c: "p = c # cs" "c \<noteq> slash"
    using hd_dropWhile[of "\<lambda>c. c = slash" path] by (cases p) (auto simp: p_def)
  have "length rest \<le> length (dropWhile (\<lambda>c. c \<noteq> slash) cs)"
    using p(2) c by (simp add: length_dropWhile_le)
  also have "\<dots> < length p" using c length_dropWhile_le[of _ cs] by (simp add: le_imp_less_Suc)
  also have "\<dots> \<le> length path" by (simp add: p_def length_dropWhile_le)
  finally show ?thesis .
qed

text \<open>The inode, if any, and the last element \<^verbatim>\<open>namex\<close> has left in \<^verbatim>\<open>name\<close>.\<close>

function namex_loop :: "u8 list \<Rightarrow> bool \<Rightarrow> u8 list \<Rightarrow> nat \<Rightarrow> 'z kfs_scheme \<Rightarrow>
    (nat option \<times> u8 list, 'z kfs_scheme) outcome" where
  "namex_loop path nameiparent name ip s =
     (case skipelem path of
        None \<Rightarrow>
          if nameiparent then bind (iput ip s) (\<lambda>_ s. Ok (None, name) s)
          else Ok (Some ip, name) s
      | Some (name, path) \<Rightarrow>
          bind (ilock ip s) (\<lambda>_ s.
          if i_type (itable s ip) \<noteq> T_DIR then bind (iunlockput ip s) (\<lambda>_ s. Ok (None, name) s)
          else if nameiparent \<and> path = [] then bind (iunlock ip s) (\<lambda>_ s. Ok (Some ip, name) s)
          else bind (dirlookup ip name s) (\<lambda>nx s.
            case nx of
              None \<Rightarrow> bind (iunlockput ip s) (\<lambda>_ s. Ok (None, name) s)
            | Some (i, _) \<Rightarrow> bind (iunlockput ip s) (\<lambda>_ s. namex_loop path nameiparent name i s))))"
  by pat_completeness auto
termination
  by (relation "measure (\<lambda>(path, np, name, ip, s). length path)") (auto dest: skipelem_shorter)

declare namex_loop.simps [simp del]

definition namex :: "u8 list \<Rightarrow> bool \<Rightarrow> 'z kfs_scheme \<Rightarrow> (nat option \<times> u8 list, 'z kfs_scheme) outcome" where
  "namex path nameiparent s =
     bind (if char_at path = slash then iget ROOTDEV ROOTINO s
           else bind (myproc s) (\<lambda>p s. case cwd (procs s p) of None \<Rightarrow> Fault | Some c \<Rightarrow> idup c s)) (\<lambda>ip s.
     namex_loop path nameiparent [] ip s)"

definition namei :: "u8 list \<Rightarrow> 'z kfs_scheme \<Rightarrow> (nat option, 'z kfs_scheme) outcome" where
  "namei path s = bind (namex path False s) (\<lambda>(ip, name) s. Ok ip s)"

definition nameiparent :: "u8 list \<Rightarrow> 'z kfs_scheme \<Rightarrow> (nat option \<times> u8 list, 'z kfs_scheme) outcome" where
  "nameiparent path s = namex path True s"

end
