(* ===== verification/Console.thy ===== *)
theory Console
  imports Fsdata
begin

text \<open>
  \<^verbatim>\<open>kernel/console.c\<close> and \<^verbatim>\<open>kernel/uart.c\<close>: the console line discipline and the interrupt side of the
  serial driver. The bytes written to the transmit register are appended to \<open>kout\<close>; the line status
  and the received bytes are the device's and enter as arguments. A reader or writer that sleeps
  goes on at the function of its loop (\<open>consoleread_loop\<close>, \<open>uartwrite_loop\<close>) with the arguments it had.
\<close>

section \<open>The code\<close>

abbreviation (input) INPUT_BUF_SIZE :: nat where "INPUT_BUF_SIZE \<equiv> 128"
abbreviation (input) BACKSPACE :: int where "BACKSPACE \<equiv> 0x100"

record kcons = kfs +
  cons_buf :: "nat \<Rightarrow> u8"
  cons_r :: u32
  cons_w :: u32
  cons_e :: u32
  tx_busy :: int

definition consputc :: "int \<Rightarrow> 'z kproc_scheme \<Rightarrow> 'z kproc_scheme" where
  "consputc c s =
     (if c = BACKSPACE then s\<lparr>kout := kout s @ [CHR 0x08, CHR 0x20, CHR 0x08]\<rparr>
      else s\<lparr>kout := kout s @ [char_of (nat (c mod 256))]\<rparr>)"

fun uartwrite_loop :: "u8 list \<Rightarrow> 'z kcons_scheme \<Rightarrow> (unit, 'z kcons_scheme) outcome" where
  "uartwrite_loop [] s = release L_tx s"
| "uartwrite_loop (b # bs) s =
     (if tx_busy s \<noteq> 0 then sleep Ch_tx L_tx s
      else uartwrite_loop bs (s\<lparr>kout := kout s @ [char_of (unat b)], tx_busy := 1\<rparr>))"

definition uartwrite :: "u8 list \<Rightarrow> 'z kcons_scheme \<Rightarrow> (unit, 'z kcons_scheme) outcome" where
  "uartwrite buf s = bind (acquire L_tx s) (\<lambda>_ s. uartwrite_loop buf s)"

text \<open>\<open>left\<close> is the number of bytes still to write, \<open>i\<close> the number written.\<close>

function consolewrite_loop :: "bool \<Rightarrow> u64 \<Rightarrow> nat \<Rightarrow> nat \<Rightarrow> 'z kcons_scheme \<Rightarrow> (int, 'z kcons_scheme) outcome" where
  "consolewrite_loop user_src src i left s =
     (if left = 0 then Ok (int i) s
      else
        let nn = min 32 left in
        bind (either_copyin user_src (src + of_nat i) nn s) (\<lambda>(r, buf) s.
        if r = -1 then Ok (int i) s
        else bind (uartwrite buf s) (\<lambda>_ s. consolewrite_loop user_src src (i + nn) (left - nn) s)))"
  by pat_completeness auto
termination
  by (relation "measure (\<lambda>(u, src, i, left, s). left)") auto

declare consolewrite_loop.simps [simp del]

definition consolewrite :: "bool \<Rightarrow> u64 \<Rightarrow> int \<Rightarrow> 'z kcons_scheme \<Rightarrow> (int, 'z kcons_scheme) outcome" where
  "consolewrite user_src src n s = consolewrite_loop user_src src 0 (nat n) s"

text \<open>\<open>n\<close> counts down from \<open>target\<close>; the result is the number of bytes read, -1 if killed.\<close>

fun consoleread_loop :: "bool \<Rightarrow> u64 \<Rightarrow> nat \<Rightarrow> nat \<Rightarrow> 'z kcons_scheme \<Rightarrow> (int, 'z kcons_scheme) outcome" where
  "consoleread_loop user_dst dst target 0 s =
     bind (release L_cons s) (\<lambda>_ s. Ok (int target) s)"
| "consoleread_loop user_dst dst target (Suc n) s =
     (if cons_r s = cons_w s then
        bind (myproc s) (\<lambda>p s.
        bind (killed p s) (\<lambda>k s.
        if k \<noteq> 0 then bind (release L_cons s) (\<lambda>_ s. Ok (-1) s)
        else sleep Ch_cons_r L_cons s))
      else
        let c = cons_buf s (unat (cons_r s) mod INPUT_BUF_SIZE); s = s\<lparr>cons_r := cons_r s + 1\<rparr> in
        if c = 4 then
          let s = (if Suc n < target then s\<lparr>cons_r := cons_r s - 1\<rparr> else s) in
          bind (release L_cons s) (\<lambda>_ s. Ok (int target - int (Suc n)) s)
        else bind (either_copyout user_dst dst [c] s) (\<lambda>r s.
          if r = -1 then bind (release L_cons s) (\<lambda>_ s. Ok (int target - int (Suc n)) s)
          else if c = 10 then bind (release L_cons s) (\<lambda>_ s. Ok (int target - int n) s)
          else consoleread_loop user_dst (dst + 1) target n s))"

definition consoleread :: "bool \<Rightarrow> u64 \<Rightarrow> int \<Rightarrow> 'z kcons_scheme \<Rightarrow> (int, 'z kcons_scheme) outcome" where
  "consoleread user_dst dst n s =
     bind (acquire L_cons s) (\<lambda>_ s.
     if n > 0 then consoleread_loop user_dst dst (nat n) (nat n) s
     else bind (release L_cons s) (\<lambda>_ s. Ok 0 s))"

text \<open>Kill line: back to the last newline or to \<^verbatim>\<open>cons.w\<close>; the buffer holds at most its size.\<close>

fun kill_line :: "nat \<Rightarrow> 'z kcons_scheme \<Rightarrow> 'z kcons_scheme" where
  "kill_line 0 s = s"
| "kill_line (Suc fuel) s =
     (if cons_e s \<noteq> cons_w s \<and> cons_buf s (unat (cons_e s - 1) mod INPUT_BUF_SIZE) \<noteq> 10
      then kill_line fuel (consputc BACKSPACE (s\<lparr>cons_e := cons_e s - 1\<rparr>))
      else s)"

definition cons_store :: "u8 \<Rightarrow> 'z kcons_scheme \<Rightarrow> (unit, 'z kcons_scheme) outcome" where
  "cons_store c s =
     (if c \<noteq> 0 \<and> cons_e s - cons_r s < of_nat INPUT_BUF_SIZE then
        let c = (if c = 13 then 10 else c);
            s = consputc (uint c) s;
            s = s\<lparr>cons_buf := (cons_buf s)(unat (cons_e s) mod INPUT_BUF_SIZE := c), cons_e := cons_e s + 1\<rparr> in
        if c = 10 \<or> c = 4 \<or> cons_e s - cons_r s = of_nat INPUT_BUF_SIZE
        then wakeup Ch_cons_r (s\<lparr>cons_w := cons_e s\<rparr>)
        else Ok () s
      else Ok () s)"

definition consoleintr :: "u8 \<Rightarrow> 'z kcons_scheme \<Rightarrow> (unit, 'z kcons_scheme) outcome" where
  "consoleintr c s =
     bind (acquire L_cons s) (\<lambda>_ s.
     bind (if c = 16 then procdump s
           else if c = 21 then Ok () (kill_line INPUT_BUF_SIZE s)
           else if c = 8 \<or> c = 0x7f then
             (if cons_e s \<noteq> cons_w s then Ok () (consputc BACKSPACE (s\<lparr>cons_e := cons_e s - 1\<rparr>)) else Ok () s)
           else cons_store c s) (\<lambda>_ s.
     release L_cons s))"

text \<open>\<open>idle\<close>: the transmit bit of the line status; \<open>input\<close>: the bytes waiting to be read.\<close>

definition uartintr :: "bool \<Rightarrow> u8 list \<Rightarrow> 'z kcons_scheme \<Rightarrow> (unit, 'z kcons_scheme) outcome" where
  "uartintr idle input s =
     bind (acquire L_tx s) (\<lambda>_ s.
     bind (if idle then wakeup Ch_tx (s\<lparr>tx_busy := 0\<rparr>) else Ok () s) (\<lambda>_ s.
     bind (release L_tx s) (\<lambda>_ s.
     foreach input consoleintr s)))"

end
