(* ===== verification/Pipe.thy ===== *)
theory Pipe
  imports Console
begin

text \<open>
  \<^verbatim>\<open>kernel/pipe.c\<close>: a ring of \<^verbatim>\<open>PIPESIZE\<close> bytes with two counters of 32 bits that run freely and wrap
  around. A pipe lives in a page of its own; \<open>pipes\<close> is the view of those pages as structures. A
  writer that finds the ring full sleeps and goes on at \<open>pipewrite_loop\<close> with the count it has
  reached; \<open>piperead_loop\<close> is the reader's loop head.
\<close>

section \<open>The code\<close>

abbreviation (input) PIPESIZE :: nat where "PIPESIZE \<equiv> 512"

record pipe =
  pdata :: "nat \<Rightarrow> u8"
  nread :: u32
  nwrite :: u32
  readopen :: int
  writeopen :: int

record kpipe = kcons +
  pipes :: "addr \<Rightarrow> pipe"

definition upd_pipe :: "addr \<Rightarrow> (pipe \<Rightarrow> pipe) \<Rightarrow> 'z kpipe_scheme \<Rightarrow> 'z kpipe_scheme" where
  "upd_pipe pi f s = s\<lparr>pipes := (pipes s)(pi := f (pipes s pi))\<rparr>"

definition pipeclose :: "addr \<Rightarrow> bool \<Rightarrow> 'z kpipe_scheme \<Rightarrow> (unit, 'z kpipe_scheme) outcome" where
  "pipeclose pi writable s =
     bind (acquire (L_pipe pi) s) (\<lambda>_ s.
     bind (if writable then wakeup (Ch_nread pi) (upd_pipe pi (\<lambda>q. q\<lparr>writeopen := 0\<rparr>) s)
           else wakeup (Ch_nwrite pi) (upd_pipe pi (\<lambda>q. q\<lparr>readopen := 0\<rparr>) s)) (\<lambda>_ s.
     if readopen (pipes s pi) = 0 \<and> writeopen (pipes s pi) = 0 then
       bind (release (L_pipe pi) s) (\<lambda>_ s. kfree pi s)
     else release (L_pipe pi) s))"

text \<open>\<^verbatim>\<open>pi->data[pi->nwrite++ % PIPESIZE] = ch\<close>, and the byte at the reader's end.\<close>

definition pipe_put :: "u8 \<Rightarrow> pipe \<Rightarrow> pipe" where
  "pipe_put ch q = q\<lparr>pdata := (pdata q)(unat (nwrite q) mod PIPESIZE := ch), nwrite := nwrite q + 1\<rparr>"

definition pipe_peek :: "pipe \<Rightarrow> u8" where
  "pipe_peek q = pdata q (unat (nread q) mod PIPESIZE)"

definition pipe_full :: "pipe \<Rightarrow> bool" where
  "pipe_full q \<longleftrightarrow> nwrite q = nread q + of_nat PIPESIZE"

text \<open>\<open>i\<close> bytes have been written and \<open>left\<close> are to come.\<close>

fun pipewrite_loop :: "addr \<Rightarrow> u64 \<Rightarrow> nat \<Rightarrow> nat \<Rightarrow> nat \<Rightarrow> 'z kpipe_scheme \<Rightarrow> (int, 'z kpipe_scheme) outcome" where
  "pipewrite_loop pi addr pr i 0 s =
     bind (wakeup (Ch_nread pi) s) (\<lambda>_ s.
     bind (release (L_pipe pi) s) (\<lambda>_ s. Ok (int i) s))"
| "pipewrite_loop pi addr pr i (Suc left) s =
     bind (if readopen (pipes s pi) = 0 then Ok 1 s else killed pr s) (\<lambda>stop s.
     if stop \<noteq> 0 then bind (release (L_pipe pi) s) (\<lambda>_ s. Ok (-1) s)
     else if pipe_full (pipes s pi) then
       bind (wakeup (Ch_nread pi) s) (\<lambda>_ s. sleep (Ch_nwrite pi) (L_pipe pi) s)
     else
       bind (copyin (pagetable (procs s pr)) (addr + of_nat i) 1 s) (\<lambda>(r, bs) s.
       if r = -1 then
         bind (wakeup (Ch_nread pi) s) (\<lambda>_ s.
         bind (release (L_pipe pi) s) (\<lambda>_ s. Ok (int i) s))
       else pipewrite_loop pi addr pr (Suc i) left (upd_pipe pi (pipe_put (hd bs)) s)))"

definition pipewrite :: "addr \<Rightarrow> u64 \<Rightarrow> int \<Rightarrow> 'z kpipe_scheme \<Rightarrow> (int, 'z kpipe_scheme) outcome" where
  "pipewrite pi addr n s =
     bind (myproc s) (\<lambda>pr s.
     bind (acquire (L_pipe pi) s) (\<lambda>_ s.
     pipewrite_loop pi addr pr 0 (nat n) s))"

text \<open>The copying part of \<^verbatim>\<open>piperead\<close>.\<close>

fun piperead_copy :: "addr \<Rightarrow> u64 \<Rightarrow> nat \<Rightarrow> nat \<Rightarrow> nat \<Rightarrow> 'z kpipe_scheme \<Rightarrow> (int, 'z kpipe_scheme) outcome" where
  "piperead_copy pi addr pr i 0 s = Ok (int i) s"
| "piperead_copy pi addr pr i (Suc left) s =
     (if nread (pipes s pi) = nwrite (pipes s pi) then Ok (int i) s
      else
        bind (copyout (pagetable (procs s pr)) (addr + of_nat i) [pipe_peek (pipes s pi)] s) (\<lambda>r s.
        if r = -1 then Ok (if i = 0 then -1 else int i) s
        else piperead_copy pi addr pr (Suc i) left (upd_pipe pi (\<lambda>q. q\<lparr>nread := nread q + 1\<rparr>) s)))"

definition piperead_loop :: "addr \<Rightarrow> u64 \<Rightarrow> int \<Rightarrow> nat \<Rightarrow> 'z kpipe_scheme \<Rightarrow> (int, 'z kpipe_scheme) outcome" where
  "piperead_loop pi addr n pr s =
     (if nread (pipes s pi) = nwrite (pipes s pi) \<and> writeopen (pipes s pi) \<noteq> 0 then
        bind (killed pr s) (\<lambda>k s.
        if k \<noteq> 0 then bind (release (L_pipe pi) s) (\<lambda>_ s. Ok (-1) s)
        else sleep (Ch_nread pi) (L_pipe pi) s)
      else
        bind (piperead_copy pi addr pr 0 (nat n) s) (\<lambda>r s.
        bind (wakeup (Ch_nwrite pi) s) (\<lambda>_ s.
        bind (release (L_pipe pi) s) (\<lambda>_ s. Ok r s))))"

definition piperead :: "addr \<Rightarrow> u64 \<Rightarrow> int \<Rightarrow> 'z kpipe_scheme \<Rightarrow> (int, 'z kpipe_scheme) outcome" where
  "piperead pi addr n s =
     bind (myproc s) (\<lambda>pr s.
     bind (acquire (L_pipe pi) s) (\<lambda>_ s.
     piperead_loop pi addr n pr s))"

end
