(* ===== verification/File.thy ===== *)
theory File
  imports Pipe
begin

text \<open>
  \<^verbatim>\<open>kernel/file.c\<close> and \<^verbatim>\<open>pipealloc\<close> of \<^verbatim>\<open>kernel/pipe.c\<close>: open files with reference counts, shared by the
  descriptors that name them, and the dispatch of reads and writes to pipes, devices and inodes. A
  \<^verbatim>\<open>struct file *\<close> is an index below \<^verbatim>\<open>NFILE\<close>. The console is the only device that registers itself
  in \<^verbatim>\<open>devsw\<close>.
\<close>

section \<open>The code\<close>

datatype file_type = FD_NONE | FD_PIPE | FD_INODE | FD_DEVICE

datatype device = Dev_console

abbreviation (input) NDEV :: int where "NDEV \<equiv> 10"

record openfile =
  f_type :: file_type
  f_ref :: int
  readable :: bool
  writable :: bool
  f_pipe :: addr
  f_ip :: nat
  f_off :: u32
  f_major :: int

record kfile = kpipe +
  files :: "nat \<Rightarrow> openfile"
  devsw :: "nat \<Rightarrow> device option"

definition upd_file :: "nat \<Rightarrow> (openfile \<Rightarrow> openfile) \<Rightarrow> 'z kfile_scheme \<Rightarrow> 'z kfile_scheme" where
  "upd_file f g s = s\<lparr>files := (files s)(f := g (files s f))\<rparr>"

definition consoleinit :: "'z kfile_scheme \<Rightarrow> 'z kfile_scheme" where
  "consoleinit s = s\<lparr>devsw := (devsw s)(1 := Some Dev_console)\<rparr>"

definition filealloc :: "'z kfile_scheme \<Rightarrow> (nat option, 'z kfile_scheme) outcome" where
  "filealloc s =
     bind (acquire L_ftable s) (\<lambda>_ s.
     case find (\<lambda>f. f_ref (files s f) = 0) [0..<NFILE] of
       Some f \<Rightarrow>
         let s = upd_file f (\<lambda>x. x\<lparr>f_ref := 1\<rparr>) s in
         bind (release L_ftable s) (\<lambda>_ s. Ok (Some f) s)
     | None \<Rightarrow> bind (release L_ftable s) (\<lambda>_ s. Ok None s))"

definition filedup :: "nat \<Rightarrow> 'z kfile_scheme \<Rightarrow> (nat, 'z kfile_scheme) outcome" where
  "filedup f s =
     bind (acquire L_ftable s) (\<lambda>_ s.
     if f_ref (files s f) < 1 then Panic ''filedup''
     else
       let s = upd_file f (\<lambda>x. x\<lparr>f_ref := f_ref x + 1\<rparr>) s in
       bind (release L_ftable s) (\<lambda>_ s. Ok f s))"

definition fileclose :: "nat \<Rightarrow> 'z kfile_scheme \<Rightarrow> (unit, 'z kfile_scheme) outcome" where
  "fileclose f s =
     bind (acquire L_ftable s) (\<lambda>_ s.
     if f_ref (files s f) < 1 then Panic ''fileclose''
     else
       let s = upd_file f (\<lambda>x. x\<lparr>f_ref := f_ref x - 1\<rparr>) s in
       if f_ref (files s f) > 0 then release L_ftable s
       else
         let ff = files s f; s = upd_file f (\<lambda>x. x\<lparr>f_ref := 0, f_type := FD_NONE\<rparr>) s in
         bind (release L_ftable s) (\<lambda>_ s.
         if f_type ff = FD_PIPE then pipeclose (f_pipe ff) (writable ff) s
         else if f_type ff = FD_INODE \<or> f_type ff = FD_DEVICE then
           bind (begin_op s) (\<lambda>_ s.
           bind (iput (f_ip ff) s) (\<lambda>_ s.
           end_op s))
         else Ok () s))"

text \<open>
  The bytes of \<^verbatim>\<open>struct stat\<close>; \<open>pad\<close> are the four bytes of padding before \<^verbatim>\<open>size\<close>, which the kernel
  copies out as its stack holds them.
\<close>

definition stat_bytes :: "u8 list \<Rightarrow> stat \<Rightarrow> u8 list" where
  "stat_bytes pad st = le_bytes 4 (st_dev st) @ le_bytes 4 (st_ino st) @ le_bytes 2 (of_int (st_type st) :: u16) @
     le_bytes 2 (of_int (st_nlink st) :: u16) @ pad @ le_bytes 8 (st_size st)"

definition filestat :: "u8 list \<Rightarrow> nat \<Rightarrow> u64 \<Rightarrow> 'z kfile_scheme \<Rightarrow> (int, 'z kfile_scheme) outcome" where
  "filestat pad f addr s =
     bind (myproc s) (\<lambda>p s.
     if f_type (files s f) = FD_INODE \<or> f_type (files s f) = FD_DEVICE then
       bind (ilock (f_ip (files s f)) s) (\<lambda>_ s.
       let st = stati (f_ip (files s f)) s in
       bind (iunlock (f_ip (files s f)) s) (\<lambda>_ s.
       bind (copyout (pagetable (procs s p)) addr (stat_bytes pad st) s) (\<lambda>r s.
       if r < 0 then Ok (-1) s else Ok 0 s)))
     else Ok (-1) s)"

definition fileread :: "nat \<Rightarrow> u64 \<Rightarrow> int \<Rightarrow> 'z kfile_scheme \<Rightarrow> (int, 'z kfile_scheme) outcome" where
  "fileread f addr n s =
     (if \<not> readable (files s f) then Ok (-1) s
      else case f_type (files s f) of
        FD_PIPE \<Rightarrow> piperead (f_pipe (files s f)) addr n s
      | FD_DEVICE \<Rightarrow>
          let mj = f_major (files s f) in
          if mj < 0 \<or> mj \<ge> NDEV then Ok (-1) s
          else (case devsw s (nat mj) of None \<Rightarrow> Ok (-1) s
                | Some Dev_console \<Rightarrow> consoleread True addr n s)
      | FD_INODE \<Rightarrow>
          bind (ilock (f_ip (files s f)) s) (\<lambda>_ s.
          bind (readi (f_ip (files s f)) (User_dst addr) (f_off (files s f)) (of_int n) s) (\<lambda>(r, bs) s.
          let s = (if r > 0 then upd_file f (\<lambda>x. x\<lparr>f_off := f_off x + of_int r\<rparr>) s else s) in
          bind (iunlock (f_ip (files s f)) s) (\<lambda>_ s. Ok r s)))
      | FD_NONE \<Rightarrow> Panic ''fileread'')"

text \<open>
  One transaction of a write to an inode, \<^verbatim>\<open>max = ((MAXOPBLOCKS-1-1-2) / 2) * BSIZE\<close> bytes at most,
  and the loop over the transactions: \<open>i\<close> bytes are written and \<open>left\<close> to come.
\<close>

definition write_max :: nat where
  "write_max = ((MAXOPBLOCKS - 1 - 1 - 2) div 2) * BSIZE"

definition filewrite_op :: "nat \<Rightarrow> u64 \<Rightarrow> nat \<Rightarrow> 'z kfile_scheme \<Rightarrow> (int, 'z kfile_scheme) outcome" where
  "filewrite_op f addr n1 s =
     bind (begin_op s) (\<lambda>_ s.
     bind (ilock (f_ip (files s f)) s) (\<lambda>_ s.
     bind (writei (f_ip (files s f)) (User_src addr) (f_off (files s f)) (of_nat n1) s) (\<lambda>r s.
     let s = (if r > 0 then upd_file f (\<lambda>x. x\<lparr>f_off := f_off x + of_int r\<rparr>) s else s) in
     bind (iunlock (f_ip (files s f)) s) (\<lambda>_ s.
     bind (end_op s) (\<lambda>_ s. Ok r s)))))"

function filewrite_loop :: "nat \<Rightarrow> u64 \<Rightarrow> nat \<Rightarrow> nat \<Rightarrow> 'z kfile_scheme \<Rightarrow> (nat, 'z kfile_scheme) outcome" where
  "filewrite_loop f addr i left s =
     (if left = 0 then Ok i s
      else
        let n1 = min left write_max in
        bind (filewrite_op f (addr + of_nat i) n1 s) (\<lambda>r s.
        if r \<noteq> int n1 then Ok i s
        else filewrite_loop f addr (i + n1) (left - n1) s))"
  by pat_completeness auto
termination
  by (relation "measure (\<lambda>(f, addr, i, left, s). left)") (auto simp: write_max_def)

declare filewrite_loop.simps [simp del]

definition filewrite :: "nat \<Rightarrow> u64 \<Rightarrow> int \<Rightarrow> 'z kfile_scheme \<Rightarrow> (int, 'z kfile_scheme) outcome" where
  "filewrite f addr n s =
     (if \<not> writable (files s f) then Ok (-1) s
      else case f_type (files s f) of
        FD_PIPE \<Rightarrow> pipewrite (f_pipe (files s f)) addr n s
      | FD_DEVICE \<Rightarrow>
          let mj = f_major (files s f) in
          if mj < 0 \<or> mj \<ge> NDEV then Ok (-1) s
          else (case devsw s (nat mj) of None \<Rightarrow> Ok (-1) s
                | Some Dev_console \<Rightarrow> consolewrite True addr n s)
      | FD_INODE \<Rightarrow>
          bind (filewrite_loop f addr 0 (nat n) s) (\<lambda>i s.
          Ok (if int i = n then n else -1) s)
      | FD_NONE \<Rightarrow> Panic ''filewrite'')"

text \<open>The two files of the new pipe, or \<open>None\<close> for the answer -1.\<close>

definition pipealloc :: "'z kfile_scheme \<Rightarrow> ((nat \<times> nat) option, 'z kfile_scheme) outcome" where
  "pipealloc s =
     bind (filealloc s) (\<lambda>f0 s.
     case f0 of None \<Rightarrow> Ok None s
     | Some f0 \<Rightarrow>
         bind (filealloc s) (\<lambda>f1 s.
         case f1 of None \<Rightarrow> bind (fileclose f0 s) (\<lambda>_ s. Ok None s)
         | Some f1 \<Rightarrow>
             bind (kalloc s) (\<lambda>pi s.
             if pi = 0 then
               bind (fileclose f0 s) (\<lambda>_ s. bind (fileclose f1 s) (\<lambda>_ s. Ok None s))
             else
               let s = upd_pipe pi (\<lambda>q. q\<lparr>readopen := 1, writeopen := 1, nwrite := 0, nread := 0\<rparr>) s;
                   s = upd_file f0 (\<lambda>x. x\<lparr>f_type := FD_PIPE, readable := True, writable := False, f_pipe := pi\<rparr>) s;
                   s = upd_file f1 (\<lambda>x. x\<lparr>f_type := FD_PIPE, readable := False, writable := True, f_pipe := pi\<rparr>) s in
               Ok (Some (f0, f1)) s)))"

end
