(* ===== verification/Sysfile.thy ===== *)
theory Sysfile
  imports File
begin

text \<open>
  \<^verbatim>\<open>kernel/sysfile.c\<close>: the system calls on descriptors, links, directories and pipes. (\<^verbatim>\<open>sys_exec\<close> is in
  the theory \<open>Exec\<close>.) The handlers return the value for the caller's register a0.
\<close>

section \<open>Descriptors\<close>

text \<open>\<open>None\<close> is the answer -1.\<close>

definition argfd :: "nat \<Rightarrow> 'z kfile_scheme \<Rightarrow> ((nat \<times> nat) option, 'z kfile_scheme) outcome" where
  "argfd n s =
     bind (argint n s) (\<lambda>fd s.
     if fd < 0 \<or> fd \<ge> int NOFILE then Ok None s
     else bind (myproc s) (\<lambda>p s.
       Ok (map_option (\<lambda>f. (nat fd, f)) (ofile (procs s p) (nat fd))) s))"

definition set_ofile :: "nat \<Rightarrow> nat \<Rightarrow> nat option \<Rightarrow> 'z kproc_scheme \<Rightarrow> 'z kproc_scheme" where
  "set_ofile p fd v s = upd_proc p (\<lambda>q. q\<lparr>ofile := (ofile q)(fd := v)\<rparr>) s"

definition fdalloc :: "nat \<Rightarrow> 'z kfile_scheme \<Rightarrow> (int, 'z kfile_scheme) outcome" where
  "fdalloc f s =
     bind (myproc s) (\<lambda>p s.
     case find (\<lambda>fd. ofile (procs s p) fd = None) [0..<NOFILE] of
       None \<Rightarrow> Ok (-1) s
     | Some fd \<Rightarrow> Ok (int fd) (set_ofile p fd (Some f) s))"

definition sys_dup :: "'z kfile_scheme \<Rightarrow> (u64, 'z kfile_scheme) outcome" where
  "sys_dup s =
     bind (argfd 0 s) (\<lambda>a s.
     case a of None \<Rightarrow> Ok (-1) s
     | Some (_, f) \<Rightarrow>
         bind (fdalloc f s) (\<lambda>fd s.
         if fd < 0 then Ok (-1) s
         else bind (filedup f s) (\<lambda>_ s. Ok (of_int fd) s)))"

definition sys_read :: "'z kfile_scheme \<Rightarrow> (u64, 'z kfile_scheme) outcome" where
  "sys_read s =
     bind (argaddr 1 s) (\<lambda>p s.
     bind (argint 2 s) (\<lambda>n s.
     bind (argfd 0 s) (\<lambda>a s.
     case a of None \<Rightarrow> Ok (-1) s | Some (_, f) \<Rightarrow> ret_int (fileread f p n s))))"

definition sys_write :: "'z kfile_scheme \<Rightarrow> (u64, 'z kfile_scheme) outcome" where
  "sys_write s =
     bind (argaddr 1 s) (\<lambda>p s.
     bind (argint 2 s) (\<lambda>n s.
     bind (argfd 0 s) (\<lambda>a s.
     case a of None \<Rightarrow> Ok (-1) s | Some (_, f) \<Rightarrow> ret_int (filewrite f p n s))))"

definition sys_close :: "'z kfile_scheme \<Rightarrow> (u64, 'z kfile_scheme) outcome" where
  "sys_close s =
     bind (argfd 0 s) (\<lambda>a s.
     case a of None \<Rightarrow> Ok (-1) s
     | Some (fd, f) \<Rightarrow>
         bind (myproc s) (\<lambda>p s.
         let s = set_ofile p fd None s in
         bind (fileclose f s) (\<lambda>_ s. Ok 0 s)))"

definition sys_fstat :: "u8 list \<Rightarrow> 'z kfile_scheme \<Rightarrow> (u64, 'z kfile_scheme) outcome" where
  "sys_fstat pad s =
     bind (argaddr 1 s) (\<lambda>st s.
     bind (argfd 0 s) (\<lambda>a s.
     case a of None \<Rightarrow> Ok (-1) s | Some (_, f) \<Rightarrow> ret_int (filestat pad f st s)))"

section \<open>Links and directories\<close>

text \<open>Leaving a system call inside its transaction: \<^verbatim>\<open>end_op(); return r\<close>.\<close>

definition finish_op :: "u64 \<Rightarrow> 'z klog_scheme \<Rightarrow> (u64, 'z klog_scheme) outcome" where
  "finish_op r s = bind (end_op s) (\<lambda>_ s. Ok r s)"

text \<open>\<^verbatim>\<open>ip->nlink += d\<close>, kept in a \<^verbatim>\<open>short\<close>.\<close>

definition add_nlink :: "nat \<Rightarrow> int \<Rightarrow> 'z kfs_scheme \<Rightarrow> 'z kfs_scheme" where
  "add_nlink i d s = upd_inode i (\<lambda>ip. ip\<lparr>nlink := short (nlink ip + d)\<rparr>) s"

definition link_bad :: "nat \<Rightarrow> 'z kfs_scheme \<Rightarrow> (u64, 'z kfs_scheme) outcome" where
  "link_bad ip s =
     bind (ilock ip s) (\<lambda>_ s.
     let s = add_nlink ip (-1) s in
     bind (iupdate ip s) (\<lambda>_ s.
     bind (iunlockput ip s) (\<lambda>_ s.
     finish_op (-1) s)))"

definition sys_link :: "'z kfs_scheme \<Rightarrow> (u64, 'z kfs_scheme) outcome" where
  "sys_link s =
     bind (argstr 0 MAXPATH s) (\<lambda>(r0, old) s.
     if r0 < 0 then Ok (-1) s
     else bind (argstr 1 MAXPATH s) (\<lambda>(r1, new) s.
     if r1 < 0 then Ok (-1) s
     else bind (begin_op s) (\<lambda>_ s.
       bind (namei old s) (\<lambda>ip s.
       case ip of None \<Rightarrow> finish_op (-1) s
       | Some ip \<Rightarrow>
           bind (ilock ip s) (\<lambda>_ s.
           if i_type (itable s ip) = T_DIR then
             bind (iunlockput ip s) (\<lambda>_ s. finish_op (-1) s)
           else
             let s = add_nlink ip 1 s in
             bind (iupdate ip s) (\<lambda>_ s.
             bind (iunlock ip s) (\<lambda>_ s.
             bind (nameiparent new s) (\<lambda>(dp, name) s.
             case dp of None \<Rightarrow> link_bad ip s
             | Some dp \<Rightarrow>
                 bind (ilock dp s) (\<lambda>_ s.
                 bind (if i_dev (itable s dp) \<noteq> i_dev (itable s ip) then Ok (-1) s
                       else dirlink dp name (inum (itable s ip)) s) (\<lambda>r s.
                 if r < 0 then bind (iunlockput dp s) (\<lambda>_ s. link_bad ip s)
                 else bind (iunlockput dp s) (\<lambda>_ s.
                   bind (iput ip s) (\<lambda>_ s.
                   finish_op 0 s))))))))))))"

definition isdirempty :: "nat \<Rightarrow> 'z kfs_scheme \<Rightarrow> (bool, 'z kfs_scheme) outcome" where
  "isdirempty dp s =
     bind (scan (drop 2 (dir_offsets (isize (itable s dp)))) (\<lambda>off s.
       bind (readi dp Local_dst (of_nat off) 16 s) (\<lambda>(r, de) s.
       if r \<noteq> 16 then Panic ''isdirempty: readi''
       else Ok (if de_inum de \<noteq> 0 then Some () else None) s)) s) (\<lambda>r s.
     Ok (r = None) s)"

definition unlink_bad :: "nat \<Rightarrow> 'z kfs_scheme \<Rightarrow> (u64, 'z kfs_scheme) outcome" where
  "unlink_bad dp s = bind (iunlockput dp s) (\<lambda>_ s. finish_op (-1) s)"

abbreviation (input) dot :: "u8 list" where "dot \<equiv> [46]"
abbreviation (input) dotdot :: "u8 list" where "dotdot \<equiv> [46, 46]"

definition sys_unlink :: "'z kfs_scheme \<Rightarrow> (u64, 'z kfs_scheme) outcome" where
  "sys_unlink s =
     bind (argstr 0 MAXPATH s) (\<lambda>(r, path) s.
     if r < 0 then Ok (-1) s
     else bind (begin_op s) (\<lambda>_ s.
       bind (nameiparent path s) (\<lambda>(dp, name) s.
       case dp of None \<Rightarrow> finish_op (-1) s
       | Some dp \<Rightarrow>
           bind (ilock dp s) (\<lambda>_ s.
           if namecmp name dot = 0 \<or> namecmp name dotdot = 0 then unlink_bad dp s
           else bind (dirlookup dp name s) (\<lambda>found s.
             case found of None \<Rightarrow> unlink_bad dp s
             | Some (ip, off) \<Rightarrow>
                 bind (ilock ip s) (\<lambda>_ s.
                 if nlink (itable s ip) < 1 then Panic ''unlink: nlink < 1''
                 else bind (if i_type (itable s ip) = T_DIR then isdirempty ip s else Ok True s) (\<lambda>ok s.
                   if \<not> ok then bind (iunlockput ip s) (\<lambda>_ s. unlink_bad dp s)
                   else bind (writei dp (Local_src (replicate 16 0)) off 16 s) (\<lambda>r s.
                     if r \<noteq> 16 then Panic ''unlink: writei''
                     else bind (if i_type (itable s ip) = T_DIR then iupdate dp (add_nlink dp (-1) s) else Ok () s) (\<lambda>_ s.
                       bind (iunlockput dp s) (\<lambda>_ s.
                       let s = add_nlink ip (-1) s in
                       bind (iupdate ip s) (\<lambda>_ s.
                       bind (iunlockput ip s) (\<lambda>_ s.
                       finish_op 0 s))))))))))))"

definition create_fail :: "nat \<Rightarrow> nat \<Rightarrow> 'z kfs_scheme \<Rightarrow> (nat option, 'z kfs_scheme) outcome" where
  "create_fail dp ip s =
     (let s = upd_inode ip (\<lambda>x. x\<lparr>nlink := 0\<rparr>) s in
      bind (iupdate ip s) (\<lambda>_ s.
      bind (iunlockput ip s) (\<lambda>_ s.
      bind (iunlockput dp s) (\<lambda>_ s. Ok None s))))"

definition create_new :: "nat \<Rightarrow> u8 list \<Rightarrow> int \<Rightarrow> int \<Rightarrow> int \<Rightarrow> 'z kfs_scheme \<Rightarrow> (nat option, 'z kfs_scheme) outcome" where
  "create_new dp name typ mj mn s =
     bind (ialloc (i_dev (itable s dp)) typ s) (\<lambda>ip s.
     case ip of None \<Rightarrow> bind (iunlockput dp s) (\<lambda>_ s. Ok None s)
     | Some ip \<Rightarrow>
         bind (ilock ip s) (\<lambda>_ s.
         let s = upd_inode ip (\<lambda>x. x\<lparr>major := mj, minor := mn, nlink := 1\<rparr>) s in
         bind (iupdate ip s) (\<lambda>_ s.
         bind (if typ = T_DIR then
             bind (dirlink ip dot (inum (itable s ip)) s) (\<lambda>r s.
             if r < 0 then Ok (-1) s else dirlink ip dotdot (inum (itable s dp)) s)
           else Ok 0 s) (\<lambda>r s.
         if r < 0 then create_fail dp ip s
         else bind (dirlink dp name (inum (itable s ip)) s) (\<lambda>r s.
           if r < 0 then create_fail dp ip s
           else bind (if typ = T_DIR then iupdate dp (add_nlink dp 1 s) else Ok () s) (\<lambda>_ s.
             bind (iunlockput dp s) (\<lambda>_ s. Ok (Some ip) s)))))))"

definition create :: "u8 list \<Rightarrow> int \<Rightarrow> int \<Rightarrow> int \<Rightarrow> 'z kfs_scheme \<Rightarrow> (nat option, 'z kfs_scheme) outcome" where
  "create path typ mj mn s =
     bind (nameiparent path s) (\<lambda>(dp, name) s.
     case dp of None \<Rightarrow> Ok None s
     | Some dp \<Rightarrow>
         bind (ilock dp s) (\<lambda>_ s.
         bind (dirlookup dp name s) (\<lambda>found s.
         case found of
           Some (ip, _) \<Rightarrow>
             bind (iunlockput dp s) (\<lambda>_ s.
             bind (ilock ip s) (\<lambda>_ s.
             if typ = T_FILE \<and> (i_type (itable s ip) = T_FILE \<or> i_type (itable s ip) = T_DEVICE)
             then Ok (Some ip) s
             else bind (iunlockput ip s) (\<lambda>_ s. Ok None s)))
         | None \<Rightarrow> create_new dp name typ mj mn s)))"

section \<open>Opening files\<close>

abbreviation (input) O_RDONLY :: int where "O_RDONLY \<equiv> 0"
abbreviation (input) O_WRONLY :: int where "O_WRONLY \<equiv> 1"
abbreviation (input) O_RDWR :: int where "O_RDWR \<equiv> 2"
abbreviation (input) O_CREATE :: int where "O_CREATE \<equiv> 0x200"
abbreviation (input) O_TRUNC :: int where "O_TRUNC \<equiv> 0x400"

text \<open>The inode to open, locked, or \<open>None\<close>.\<close>

definition open_inode :: "u8 list \<Rightarrow> int \<Rightarrow> 'z kfs_scheme \<Rightarrow> (nat option, 'z kfs_scheme) outcome" where
  "open_inode path omode s =
     (if omode AND O_CREATE \<noteq> 0 then create path T_FILE 0 0 s
      else bind (namei path s) (\<lambda>ip s.
        case ip of None \<Rightarrow> Ok None s
        | Some ip \<Rightarrow>
            bind (ilock ip s) (\<lambda>_ s.
            if i_type (itable s ip) = T_DIR \<and> omode \<noteq> O_RDONLY
            then bind (iunlockput ip s) (\<lambda>_ s. Ok None s)
            else Ok (Some ip) s)))"

definition sys_open :: "'z kfile_scheme \<Rightarrow> (u64, 'z kfile_scheme) outcome" where
  "sys_open s =
     bind (argint 1 s) (\<lambda>omode s.
     bind (argstr 0 MAXPATH s) (\<lambda>(n, path) s.
     if n < 0 then Ok (-1) s
     else bind (begin_op s) (\<lambda>_ s.
       bind (open_inode path omode s) (\<lambda>ip s.
       case ip of None \<Rightarrow> finish_op (-1) s
       | Some ip \<Rightarrow>
           if i_type (itable s ip) = T_DEVICE \<and> (major (itable s ip) < 0 \<or> major (itable s ip) \<ge> NDEV) then
             bind (iunlockput ip s) (\<lambda>_ s. finish_op (-1) s)
           else bind (filealloc s) (\<lambda>f s.
             case f of None \<Rightarrow> bind (iunlockput ip s) (\<lambda>_ s. finish_op (-1) s)
             | Some f \<Rightarrow>
                 bind (fdalloc f s) (\<lambda>fd s.
                 if fd < 0 then
                   bind (fileclose f s) (\<lambda>_ s. bind (iunlockput ip s) (\<lambda>_ s. finish_op (-1) s))
                 else
                   let s = (if i_type (itable s ip) = T_DEVICE
                            then upd_file f (\<lambda>x. x\<lparr>f_type := FD_DEVICE, f_major := major (itable s ip)\<rparr>) s
                            else upd_file f (\<lambda>x. x\<lparr>f_type := FD_INODE, f_off := 0\<rparr>) s);
                       s = upd_file f (\<lambda>x. x\<lparr>f_ip := ip, readable := (omode AND O_WRONLY = 0),
                             writable := (omode AND O_WRONLY \<noteq> 0 \<or> omode AND O_RDWR \<noteq> 0)\<rparr>) s in
                   bind (if omode AND O_TRUNC \<noteq> 0 \<and> i_type (itable s ip) = T_FILE then itrunc ip s else Ok () s) (\<lambda>_ s.
                   bind (iunlock ip s) (\<lambda>_ s.
                   finish_op (of_int fd) s))))))))"

definition sys_mkdir :: "'z kfs_scheme \<Rightarrow> (u64, 'z kfs_scheme) outcome" where
  "sys_mkdir s =
     bind (begin_op s) (\<lambda>_ s.
     bind (argstr 0 MAXPATH s) (\<lambda>(r, path) s.
     bind (if r < 0 then Ok None s else create path T_DIR 0 0 s) (\<lambda>ip s.
     case ip of None \<Rightarrow> finish_op (-1) s
     | Some ip \<Rightarrow> bind (iunlockput ip s) (\<lambda>_ s. finish_op 0 s))))"

text \<open>The device numbers are converted to \<^verbatim>\<open>short\<close> in the call of \<^verbatim>\<open>create\<close>.\<close>

definition sys_mknod :: "'z kfs_scheme \<Rightarrow> (u64, 'z kfs_scheme) outcome" where
  "sys_mknod s =
     bind (begin_op s) (\<lambda>_ s.
     bind (argint 1 s) (\<lambda>mj s.
     bind (argint 2 s) (\<lambda>mn s.
     bind (argstr 0 MAXPATH s) (\<lambda>(r, path) s.
     bind (if r < 0 then Ok None s else create path T_DEVICE (short mj) (short mn) s) (\<lambda>ip s.
     case ip of None \<Rightarrow> finish_op (-1) s
     | Some ip \<Rightarrow> bind (iunlockput ip s) (\<lambda>_ s. finish_op 0 s))))))"

definition sys_chdir :: "'z kfs_scheme \<Rightarrow> (u64, 'z kfs_scheme) outcome" where
  "sys_chdir s =
     bind (myproc s) (\<lambda>p s.
     bind (begin_op s) (\<lambda>_ s.
     bind (argstr 0 MAXPATH s) (\<lambda>(r, path) s.
     bind (if r < 0 then Ok None s else namei path s) (\<lambda>ip s.
     case ip of None \<Rightarrow> finish_op (-1) s
     | Some ip \<Rightarrow>
         bind (ilock ip s) (\<lambda>_ s.
         if i_type (itable s ip) \<noteq> T_DIR then bind (iunlockput ip s) (\<lambda>_ s. finish_op (-1) s)
         else bind (iunlock ip s) (\<lambda>_ s.
           case cwd (procs s p) of None \<Rightarrow> Fault
           | Some c \<Rightarrow>
               bind (iput c s) (\<lambda>_ s.
               bind (end_op s) (\<lambda>_ s.
               Ok 0 (upd_proc p (\<lambda>q. q\<lparr>cwd := Some ip\<rparr>) s)))))))))"

section \<open>The working directory\<close>

text \<open>The name of the entry of \<open>dp\<close> for inode number \<open>n\<close>: \<open>None\<close> after a short read.\<close>

definition getcwd_name :: "nat \<Rightarrow> u32 \<Rightarrow> 'z kfs_scheme \<Rightarrow> (u8 list option option, 'z kfs_scheme) outcome" where
  "getcwd_name dp n s =
     bind (scan (dir_offsets (isize (itable s dp))) (\<lambda>off s.
       bind (readi dp Local_dst (of_nat off) 16 s) (\<lambda>(r, de) s.
       if r \<noteq> 16 then Ok (Some None) s
       else if ucast (de_inum de) = n then Ok (Some (Some (takeWhile (\<lambda>c. c \<noteq> 0) (de_name de)))) s
       else Ok None s)) s) (\<lambda>r s.
     Ok (case r of None \<Rightarrow> Some None | Some None \<Rightarrow> None | Some (Some nm) \<Rightarrow> Some (Some nm)) s)"

text \<open>
  One step up: \<open>pos\<close> bytes of the buffer are free and \<open>path\<close> is what it holds. The answer is the
  path, or \<open>None\<close> for -1. Every step uses up at least one byte of the buffer.
\<close>

function getcwd_loop :: "nat \<Rightarrow> nat \<Rightarrow> u8 list \<Rightarrow> 'z kfs_scheme \<Rightarrow> (u8 list option, 'z kfs_scheme) outcome" where
  "getcwd_loop ip pos path s =
     bind (ilock ip s) (\<lambda>_ s.
     let cur_inum = inum (itable s ip); cur_dev = i_dev (itable s ip) in
     bind (iunlock ip s) (\<lambda>_ s.
     if cur_inum = ROOTINO \<and> cur_dev = ROOTDEV then bind (iput ip s) (\<lambda>_ s. Ok (Some path) s)
     else
       bind (ilock ip s) (\<lambda>_ s.
       bind (dirlookup ip dotdot s) (\<lambda>par s.
       bind (iunlock ip s) (\<lambda>_ s.
       case par of None \<Rightarrow> bind (iput ip s) (\<lambda>_ s. Ok None s)
       | Some (par, _) \<Rightarrow>
           bind (ilock par s) (\<lambda>_ s.
           bind (getcwd_name par cur_inum s) (\<lambda>r s.
           case r of None \<Rightarrow> bind (iunlockput par s) (\<lambda>_ s. bind (iput ip s) (\<lambda>_ s. Ok None s))
           | Some found \<Rightarrow>
               bind (iunlock par s) (\<lambda>_ s.
               case found of None \<Rightarrow> bind (iput par s) (\<lambda>_ s. bind (iput ip s) (\<lambda>_ s. Ok None s))
               | Some name \<Rightarrow>
                   if pos < length name + 1 then
                     bind (iput par s) (\<lambda>_ s. bind (iput ip s) (\<lambda>_ s. Ok None s))
                   else bind (iput ip s) (\<lambda>_ s.
                     getcwd_loop par (pos - length name - 1) (slash # name @ path) s)))))))))"
  by pat_completeness auto
termination
  by (relation "measure (\<lambda>(ip, pos, path, s). pos)") auto

declare getcwd_loop.simps [simp del]

definition sys_getcwd :: "'z kfs_scheme \<Rightarrow> (u64, 'z kfs_scheme) outcome" where
  "sys_getcwd s =
     bind (myproc s) (\<lambda>p s.
     bind (argaddr 0 s) (\<lambda>buf_user s.
     bind (argint 1 s) (\<lambda>usize s.
     if usize \<le> 0 then Ok (-1) s
     else
       let usize = (if usize > int MAXPATH then int MAXPATH else usize) in
       case cwd (procs s p) of None \<Rightarrow> Fault
       | Some c \<Rightarrow>
           bind (idup c s) (\<lambda>ip s.
           bind (getcwd_loop ip (MAXPATH - 1) [] s) (\<lambda>r s.
           case r of None \<Rightarrow> Ok (-1) s
           | Some path \<Rightarrow>
               let path = (if path = [] then [slash] else path) in
               if char_at path \<noteq> slash then Ok (-1) s
               else if int (length path + 1) > usize then Ok (-1) s
               else bind (copyout (pagetable (procs s p)) buf_user (path @ [0]) s) (\<lambda>r s.
                 if r < 0 then Ok (-1) s else Ok 0 s))))))"

section \<open>Pipes\<close>

definition close_both :: "nat \<Rightarrow> nat \<Rightarrow> 'z kfile_scheme \<Rightarrow> (u64, 'z kfile_scheme) outcome" where
  "close_both rfile wfile s = bind (fileclose rfile s) (\<lambda>_ s. bind (fileclose wfile s) (\<lambda>_ s. Ok (-1) s))"

definition sys_pipe :: "'z kfile_scheme \<Rightarrow> (u64, 'z kfile_scheme) outcome" where
  "sys_pipe s =
     bind (myproc s) (\<lambda>p s.
     bind (argaddr 0 s) (\<lambda>fdarray s.
     bind (pipealloc s) (\<lambda>a s.
     case a of None \<Rightarrow> Ok (-1) s
     | Some (rfile, wfile) \<Rightarrow>
         bind (fdalloc rfile s) (\<lambda>fd0 s.
         if fd0 < 0 then close_both rfile wfile s
         else bind (fdalloc wfile s) (\<lambda>fd1 s.
           if fd1 < 0 then close_both rfile wfile (set_ofile p (nat fd0) None s)
           else bind (copyout (pagetable (procs s p)) fdarray (int_bytes fd0) s) (\<lambda>r s.
             bind (if r < 0 then Ok r s
                   else copyout (pagetable (procs s p)) (fdarray + 4) (int_bytes fd1) s) (\<lambda>r s.
             if r < 0 then close_both rfile wfile (set_ofile p (nat fd1) None (set_ofile p (nat fd0) None s))
             else Ok 0 s)))))))"

end
