(* ===== verification/Exec.thy ===== *)
theory Exec
  imports Sysfile
begin

text \<open>
  \<^verbatim>\<open>kernel/exec.c\<close> and \<^verbatim>\<open>sys_exec\<close>: replacing the caller's image by the program in a file. The ELF
  headers are read at their byte offsets. Argument strings are byte lists; the pages that hold
  them in the kernel are listed beside them.
\<close>

section \<open>Executables\<close>

abbreviation (input) ELF_MAGIC :: u32 where "ELF_MAGIC \<equiv> 0x464C457F"
abbreviation (input) USERSTACK :: u64 where "USERSTACK \<equiv> 1"

definition get_le :: "nat \<Rightarrow> nat \<Rightarrow> u8 list \<Rightarrow> u64" where
  "get_le n off bs = le_val (take n (drop off bs))"

record elfhdr =
  elf_magic :: u32
  entry :: u64
  phoff :: u64
  phnum :: nat

definition parse_elfhdr :: "u8 list \<Rightarrow> elfhdr" where
  "parse_elfhdr bs = \<lparr>elf_magic = ucast (get_le 4 0 bs), entry = get_le 8 24 bs, phoff = get_le 8 32 bs,
     phnum = unat (get_le 2 56 bs)\<rparr>"

record proghdr =
  ph_type :: u64
  ph_flags :: u64
  ph_off :: u64
  ph_vaddr :: u64
  ph_filesz :: u64
  ph_memsz :: u64

definition parse_proghdr :: "u8 list \<Rightarrow> proghdr" where
  "parse_proghdr bs = \<lparr>ph_type = get_le 4 0 bs, ph_flags = get_le 4 4 bs, ph_off = get_le 8 8 bs,
     ph_vaddr = get_le 8 16 bs, ph_filesz = get_le 8 32 bs, ph_memsz = get_le 8 40 bs\<rparr>"

definition flags2perm :: "u64 \<Rightarrow> u64" where
  "flags2perm flags =
     (let perm = (if flags AND 1 \<noteq> 0 then PTE_X else 0) in
      if flags AND 2 \<noteq> 0 then perm OR PTE_W else perm)"

definition loadseg :: "addr \<Rightarrow> u64 \<Rightarrow> nat \<Rightarrow> u32 \<Rightarrow> u32 \<Rightarrow> 'z kfs_scheme \<Rightarrow> (int, 'z kfs_scheme) outcome" where
  "loadseg pt va ip offset siz s =
     bind (scan [0..<(unat siz + 4095) div 4096] (\<lambda>k s.
       let i = 4096 * k in
       bind (walkaddr pt (va + of_nat i) s) (\<lambda>pa s.
       if pa = 0 then Panic ''loadseg: address should exist''
       else
         let n = min (unat siz - i) 4096 in
         bind (readi ip (Kernel_dst pa) (offset + of_nat i) (of_nat n) s) (\<lambda>(r, bs) s.
         Ok (if r \<noteq> int n then Some (-1) else None) s))) s) (\<lambda>r s.
     Ok (case r of None \<Rightarrow> 0 | Some x \<Rightarrow> x) s)"

text \<open>
  The loop over the program headers: \<open>n\<close> of them are left, the next one at \<open>off\<close>. The flag is
  false for \<^verbatim>\<open>goto bad\<close>; the size is what has been allocated so far.
\<close>

fun load_program :: "nat \<Rightarrow> addr \<Rightarrow> nat \<Rightarrow> u32 \<Rightarrow> u64 \<Rightarrow> 'z kfs_scheme \<Rightarrow> (bool \<times> u64, 'z kfs_scheme) outcome" where
  "load_program 0 pt ip off siz s = Ok (True, siz) s"
| "load_program (Suc n) pt ip off siz s =
     bind (readi ip Local_dst off 56 s) (\<lambda>(r, bs) s.
     let ph = parse_proghdr bs in
     if r \<noteq> 56 then Ok (False, siz) s
     else if ph_type ph \<noteq> 1 then load_program n pt ip (off + 56) siz s
     else if ph_memsz ph < ph_filesz ph then Ok (False, siz) s
     else if ph_vaddr ph + ph_memsz ph < ph_vaddr ph then Ok (False, siz) s
     else if ph_vaddr ph mod PGSIZE \<noteq> 0 then Ok (False, siz) s
     else bind (uvmalloc pt siz (ph_vaddr ph + ph_memsz ph) (flags2perm (ph_flags ph)) s) (\<lambda>sz1 s.
       if sz1 = 0 then Ok (False, siz) s
       else bind (loadseg pt (ph_vaddr ph) ip (ucast (ph_off ph)) (ucast (ph_filesz ph)) s) (\<lambda>r s.
         if r < 0 then Ok (False, sz1) s
         else load_program n pt ip (off + 56) sz1 s)))"

text \<open>Room for \<open>n\<close> more bytes on a stack, 16-byte aligned.\<close>

definition stack_push :: "u64 \<Rightarrow> nat \<Rightarrow> u64" where
  "stack_push sp n = (let sp = sp - of_nat n in sp - sp mod 16)"

text \<open>The strings go onto the stack one below the other; \<open>ustack\<close> collects their addresses.\<close>

fun push_args :: "addr \<Rightarrow> u64 \<Rightarrow> u8 list list \<Rightarrow> u64 \<Rightarrow> u64 list \<Rightarrow> 'z kproc_scheme \<Rightarrow>
    ((u64 \<times> u64 list) option, 'z kproc_scheme) outcome" where
  "push_args pt stackbase [] sp ustack s = Ok (Some (sp, ustack)) s"
| "push_args pt stackbase (arg # argv) sp ustack s =
     (if length ustack \<ge> MAXARG then Ok None s
      else
        let sp = stack_push sp (length arg + 1) in
        if sp < stackbase then Ok None s
        else bind (copyout pt sp (arg @ [0]) s) (\<lambda>r s.
          if r < 0 then Ok None s
          else push_args pt stackbase argv sp (ustack @ [sp]) s))"

text \<open>\<^verbatim>\<open>argv\<close> itself below the strings; the result is its address.\<close>

definition push_argv :: "addr \<Rightarrow> u64 \<Rightarrow> u8 list list \<Rightarrow> u64 \<Rightarrow> 'z kproc_scheme \<Rightarrow> (u64 option, 'z kproc_scheme) outcome" where
  "push_argv pt stackbase argv sp s =
     bind (push_args pt stackbase argv sp [] s) (\<lambda>r s.
     case r of None \<Rightarrow> Ok None s
     | Some (sp, ustack) \<Rightarrow>
         let sp = stack_push sp ((length ustack + 1) * 8) in
         if sp < stackbase then Ok None s
         else bind (copyout pt sp (concat (map (le_bytes 8) (ustack @ [0]))) s) (\<lambda>r s.
           Ok (if r < 0 then None else Some sp) s))"

text \<open>\<^verbatim>\<open>safestrcpy\<close> into an array of bytes from a string.\<close>

definition safestrcpy_array :: "u8 list \<Rightarrow> u8 list \<Rightarrow> nat \<Rightarrow> u8 list" where
  "safestrcpy_array old t n =
     put_bytes 0 (take (n - 1) t @ (if length t < n - 1 then [0, 0] else [0])) old"

definition basename :: "u8 list \<Rightarrow> u8 list" where
  "basename path = rev (takeWhile (\<lambda>c. c \<noteq> slash) (rev path))"

section \<open>The system call\<close>

definition kexec_commit :: "nat \<Rightarrow> u8 list \<Rightarrow> addr \<Rightarrow> u64 \<Rightarrow> u64 \<Rightarrow> u64 \<Rightarrow> u64 \<Rightarrow> 'z kfs_scheme \<Rightarrow>
    (unit, 'z kfs_scheme) outcome" where
  "kexec_commit p path pt siz sp entr oldsz s =
     bind (set_tf_reg p tf_a1 sp s) (\<lambda>_ s.
     let s = upd_proc p (\<lambda>q. q\<lparr>pname := safestrcpy_array (pname q) (basename path) 16\<rparr>) s;
         oldpagetable = pagetable (procs s p);
         s = upd_proc p (\<lambda>q. q\<lparr>pagetable := pt, sz := siz\<rparr>) s in
     bind (set_tf_reg p epc entr s) (\<lambda>_ s.
     bind (set_tf_reg p tf_sp sp s) (\<lambda>_ s.
     proc_freepagetable oldpagetable oldsz s)))"

text \<open>The part of \<^verbatim>\<open>kexec\<close> after the file is closed: stack, arguments, and the new image.\<close>

definition kexec_stack :: "nat \<Rightarrow> u8 list \<Rightarrow> u8 list list \<Rightarrow> addr \<Rightarrow> u64 \<Rightarrow> u64 \<Rightarrow> 'z kfs_scheme \<Rightarrow>
    (int, 'z kfs_scheme) outcome" where
  "kexec_stack p path argv pt siz entr s =
     (let oldsz = sz (procs s p); siz = PGROUNDUP siz in
      bind (uvmalloc pt siz (siz + (USERSTACK + 1) * PGSIZE) PTE_W s) (\<lambda>sz1 s.
      if sz1 = 0 then bind (proc_freepagetable pt siz s) (\<lambda>_ s. Ok (-1) s)
      else
        bind (uvmclear pt (sz1 - (USERSTACK + 1) * PGSIZE) s) (\<lambda>_ s.
        bind (push_argv pt (sz1 - USERSTACK * PGSIZE) argv sz1 s) (\<lambda>r s.
        case r of None \<Rightarrow> bind (proc_freepagetable pt sz1 s) (\<lambda>_ s. Ok (-1) s)
        | Some sp \<Rightarrow>
            bind (kexec_commit p path pt sz1 sp entr oldsz s) (\<lambda>_ s.
            Ok (int (length argv)) s)))))"

definition kexec_bad :: "nat \<Rightarrow> 'z kfs_scheme \<Rightarrow> (int, 'z kfs_scheme) outcome" where
  "kexec_bad ip s = bind (iunlockput ip s) (\<lambda>_ s. bind (end_op s) (\<lambda>_ s. Ok (-1) s))"

definition kexec :: "u8 list \<Rightarrow> u8 list list \<Rightarrow> 'z kfs_scheme \<Rightarrow> (int, 'z kfs_scheme) outcome" where
  "kexec path argv s =
     bind (myproc s) (\<lambda>p s.
     bind (begin_op s) (\<lambda>_ s.
     bind (namei path s) (\<lambda>ip s.
     case ip of None \<Rightarrow> bind (end_op s) (\<lambda>_ s. Ok (-1) s)
     | Some ip \<Rightarrow>
         bind (ilock ip s) (\<lambda>_ s.
         bind (readi ip Local_dst 0 64 s) (\<lambda>(r, bs) s.
         let elf = parse_elfhdr bs in
         if r \<noteq> 64 then kexec_bad ip s
         else if elf_magic elf \<noteq> ELF_MAGIC then kexec_bad ip s
         else bind (proc_pagetable p s) (\<lambda>pt s.
           if pt = 0 then kexec_bad ip s
           else bind (load_program (phnum elf) pt ip (ucast (phoff elf)) 0 s) (\<lambda>(ok, siz) s.
             if \<not> ok then bind (proc_freepagetable pt siz s) (\<lambda>_ s. kexec_bad ip s)
             else bind (iunlockput ip s) (\<lambda>_ s.
               bind (end_op s) (\<lambda>_ s.
               kexec_stack p path argv pt siz (entry elf) s)))))))))"

text \<open>Fetching the arguments: the pages allocated so far and the strings, \<open>None\<close> for \<^verbatim>\<open>goto bad\<close>.\<close>

fun fetch_args :: "nat \<Rightarrow> nat \<Rightarrow> u64 \<Rightarrow> addr list \<Rightarrow> u8 list list \<Rightarrow> 'z kproc_scheme \<Rightarrow>
    (addr list \<times> u8 list list option, 'z kproc_scheme) outcome" where
  "fetch_args 0 i uargv pgs argv s = Ok (pgs, None) s"
| "fetch_args (Suc n) i uargv pgs argv s =
     bind (fetchaddr (uargv + 8 * of_nat i) s) (\<lambda>(r, uarg) s.
     if r < 0 then Ok (pgs, None) s
     else if uarg = 0 then Ok (pgs, Some argv) s
     else bind (kalloc s) (\<lambda>pg s.
       if pg = 0 then Ok (pgs, None) s
       else bind (fetchstr uarg 4096 s) (\<lambda>(r, str) s.
         if r < 0 then Ok (pgs @ [pg], None) s
         else
           let s = s\<lparr>mem := write_bytes (mem s) pg (str @ [0])\<rparr> in
           fetch_args n (Suc i) uargv (pgs @ [pg]) (argv @ [str]) s)))"

definition sys_exec :: "'z kfs_scheme \<Rightarrow> (u64, 'z kfs_scheme) outcome" where
  "sys_exec s =
     bind (argaddr 1 s) (\<lambda>uargv s.
     bind (argstr 0 MAXPATH s) (\<lambda>(r, path) s.
     if r < 0 then Ok (-1) s
     else bind (fetch_args MAXARG 0 uargv [] [] s) (\<lambda>(pgs, argv) s.
       bind (case argv of None \<Rightarrow> Ok (-1) s | Some argv \<Rightarrow> kexec path argv s) (\<lambda>ret s.
       bind (foreach pgs kfree s) (\<lambda>_ s. Ok (of_int ret) s)))))"

end
