(* ===== verification/Proclife.thy ===== *)
theory Proclife
  imports Exec
begin

text \<open>
  The life cycle operations of \<^verbatim>\<open>kernel/proc.c\<close> that need the file system: \<^verbatim>\<open>userinit\<close>, \<^verbatim>\<open>kfork\<close>, \<^verbatim>\<open>kclone\<close>
  and \<^verbatim>\<open>kexit\<close>, with their system calls. \<open>forkret\<close> is the address of the function a new process
  starts in.
\<close>

section \<open>Creating processes\<close>

text \<open>A failed \<^verbatim>\<open>allocproc\<close> would be dereferenced.\<close>

definition userinit :: "u64 \<Rightarrow> 'z kfs_scheme \<Rightarrow> (unit, 'z kfs_scheme) outcome" where
  "userinit forkret s =
     bind (allocproc forkret s) (\<lambda>r s.
     case r of None \<Rightarrow> Fault
     | Some p \<Rightarrow>
         let s = s\<lparr>initproc := Some p\<rparr> in
         bind (namei [slash] s) (\<lambda>c s.
         let s = upd_proc p (\<lambda>q. q\<lparr>cwd := c, state := RUNNABLE\<rparr>) s in
         release (L_proc p) s))"

text \<open>\<^verbatim>\<open>np->ofile[i] = filedup(p->ofile[i])\<close> for the open descriptors.\<close>

definition dup_files :: "nat \<Rightarrow> nat \<Rightarrow> 'z kfile_scheme \<Rightarrow> (unit, 'z kfile_scheme) outcome" where
  "dup_files p np = foreach [0..<NOFILE] (\<lambda>i s.
     case ofile (procs s p) i of None \<Rightarrow> Ok () s
     | Some f \<Rightarrow> bind (filedup f s) (\<lambda>f s. Ok () (set_ofile np i (Some f) s)))"

text \<open>
  What \<^verbatim>\<open>kfork\<close> and \<^verbatim>\<open>kclone\<close> both do once the child has its memory and registers: files, working
  directory, name, parent, and the state that lets the scheduler run it. \<open>mark\<close> is what
  \<^verbatim>\<open>kclone\<close> adds before the lock is released.
\<close>

definition start_child :: "nat \<Rightarrow> nat \<Rightarrow> (proc \<Rightarrow> proc) \<Rightarrow> 'z kfile_scheme \<Rightarrow> (int, 'z kfile_scheme) outcome" where
  "start_child p np mark s =
     bind (dup_files p np s) (\<lambda>_ s.
     case cwd (procs s p) of None \<Rightarrow> Fault
     | Some c \<Rightarrow>
         bind (idup c s) (\<lambda>c s.
         let s = upd_proc np (\<lambda>q. q\<lparr>cwd := Some c,
               pname := safestrcpy_array (pname q) (takeWhile (\<lambda>c. c \<noteq> 0) (pname (procs s p))) 16\<rparr>) s;
             s = upd_proc np mark s;
             n = pid (procs s np) in
         bind (release (L_proc np) s) (\<lambda>_ s.
         bind (acquire L_wait s) (\<lambda>_ s.
         let s = upd_proc np (\<lambda>q. q\<lparr>parent := Some p\<rparr>) s in
         bind (release L_wait s) (\<lambda>_ s.
         bind (acquire (L_proc np) s) (\<lambda>_ s.
         let s = upd_proc np (\<lambda>q. q\<lparr>state := RUNNABLE\<rparr>) s in
         bind (release (L_proc np) s) (\<lambda>_ s. Ok n s)))))))"

text \<open>\<^verbatim>\<open>*(np->trapframe) = *(p->trapframe)\<close>, followed by changes to single registers.\<close>

definition copy_trapframe :: "nat \<Rightarrow> nat \<Rightarrow> (trapframe \<Rightarrow> trapframe) \<Rightarrow> 'z kproc_scheme \<Rightarrow> (unit, 'z kproc_scheme) outcome" where
  "copy_trapframe p np upd s =
     (let t = trapframe (procs s p); nt = trapframe (procs s np) in
      if t = 0 \<or> nt = 0 then Fault
      else Ok () (s\<lparr>tframes := (tframes s)(nt := upd (tframes s t))\<rparr>))"

definition kfork :: "u64 \<Rightarrow> 'z kfile_scheme \<Rightarrow> (int, 'z kfile_scheme) outcome" where
  "kfork forkret s =
     bind (myproc s) (\<lambda>p s.
     bind (allocproc forkret s) (\<lambda>r s.
     case r of None \<Rightarrow> Ok (-1) s
     | Some np \<Rightarrow>
         bind (uvmcopy (pagetable (procs s p)) (pagetable (procs s np)) (sz (procs s p)) s) (\<lambda>r s.
         if r < 0 then
           bind (freeproc np s) (\<lambda>_ s. bind (release (L_proc np) s) (\<lambda>_ s. Ok (-1) s))
         else
           let s = upd_proc np (\<lambda>q. q\<lparr>sz := sz (procs s p)\<rparr>) s in
           bind (copy_trapframe p np (\<lambda>t. t(tf_a0 := 0)) s) (\<lambda>_ s.
           start_child p np (\<lambda>q. q) s))))"

definition kclone :: "u64 \<Rightarrow> u64 \<Rightarrow> u64 \<Rightarrow> u64 \<Rightarrow> 'z kfile_scheme \<Rightarrow> (int, 'z kfile_scheme) outcome" where
  "kclone forkret fn arg stack s =
     bind (myproc s) (\<lambda>p s.
     bind (allocproc forkret s) (\<lambda>r s.
     case r of None \<Rightarrow> Ok (-1) s
     | Some nt \<Rightarrow>
         bind (uvmshare (pagetable (procs s p)) (pagetable (procs s nt)) (sz (procs s p)) s) (\<lambda>r s.
         if r < 0 then
           bind (freeproc nt s) (\<lambda>_ s. bind (release (L_proc nt) s) (\<lambda>_ s. Ok (-1) s))
         else
           let s = upd_proc nt (\<lambda>q. q\<lparr>sz := sz (procs s p)\<rparr>) s in
           bind (copy_trapframe p nt (\<lambda>t. t(epc := fn, tf_a0 := arg, tf_sp := stack)) s) (\<lambda>_ s.
           start_child p nt (\<lambda>q. q\<lparr>is_thread := 1\<rparr>) s))))"

section \<open>Exit\<close>

definition close_files :: "nat \<Rightarrow> 'z kfile_scheme \<Rightarrow> (unit, 'z kfile_scheme) outcome" where
  "close_files p = foreach [0..<NOFILE] (\<lambda>fd s.
     case ofile (procs s p) fd of None \<Rightarrow> Ok () s
     | Some f \<Rightarrow> bind (fileclose f s) (\<lambda>_ s. Ok () (set_ofile p fd None s)))"

definition kexit :: "int \<Rightarrow> 'z kfile_scheme \<Rightarrow> ('a, 'z kfile_scheme) outcome" where
  "kexit status s =
     bind (myproc s) (\<lambda>p s.
     if initproc s = Some p then Panic ''init exiting''
     else bind (close_files p s) (\<lambda>_ s.
       bind (begin_op s) (\<lambda>_ s.
       case cwd (procs s p) of None \<Rightarrow> Fault
       | Some c \<Rightarrow>
           bind (iput c s) (\<lambda>_ s.
           bind (end_op s) (\<lambda>_ s.
           let s = upd_proc p (\<lambda>q. q\<lparr>cwd := None\<rparr>) s in
           bind (acquire L_wait s) (\<lambda>_ s.
           bind (reparent p s) (\<lambda>_ s.
           bind (case parent (procs s p) of None \<Rightarrow> Ok () s | Some pp \<Rightarrow> wakeup (Ch_proc pp) s) (\<lambda>_ s.
           bind (acquire (L_proc p) s) (\<lambda>_ s.
           let s = upd_proc p (\<lambda>q. q\<lparr>xstate := status, etime := ticks s, state := ZOMBIE\<rparr>) s in
           bind (release L_wait s) (\<lambda>_ s.
           sched s))))))))))"

section \<open>System calls\<close>

definition sys_exit :: "'z kfile_scheme \<Rightarrow> (u64, 'z kfile_scheme) outcome" where
  "sys_exit s = bind (argint 0 s) (\<lambda>n s. kexit n s)"

definition sys_fork :: "u64 \<Rightarrow> 'z kfile_scheme \<Rightarrow> (u64, 'z kfile_scheme) outcome" where
  "sys_fork forkret s = ret_int (kfork forkret s)"

definition sys_clone :: "u64 \<Rightarrow> 'z kfile_scheme \<Rightarrow> (u64, 'z kfile_scheme) outcome" where
  "sys_clone forkret s =
     bind (argaddr 0 s) (\<lambda>fn s.
     bind (argaddr 1 s) (\<lambda>arg s.
     bind (argaddr 2 s) (\<lambda>stack s.
     ret_int (kclone forkret fn arg stack s))))"

end
