(* ===== verification/Virtio.thy ===== *)
theory Virtio
  imports Proclife
begin

text \<open>
  \<^verbatim>\<open>kernel/virtio_disk.c\<close>: the driver's side of the virtio queue. A request takes three descriptors, is
  published in the avail ring, and is answered by an entry of the used ring that the device
  writes together with the status byte. \<open>virtio_disk_rw\<close> runs up to the sleep in which the
  process waits; \<open>virtio_disk_wait\<close> is the loop head at which it goes on. The device itself, the
  memory barriers and the handshake of \<^verbatim>\<open>virtio_disk_init\<close> with the device registers are not part
  of the model. (The theory \<open>Bio\<close> abstracts a completed request to one transfer.)
\<close>

section \<open>The code\<close>

abbreviation (input) NUM :: nat where "NUM \<equiv> 8"
abbreviation (input) VRING_DESC_F_NEXT :: u16 where "VRING_DESC_F_NEXT \<equiv> 1"
abbreviation (input) VRING_DESC_F_WRITE :: u16 where "VRING_DESC_F_WRITE \<equiv> 2"

text \<open>What a descriptor points to: a request header, a buffer's data, or a status byte.\<close>

datatype dma = Dma_none | Dma_op nat | Dma_buf nat | Dma_status nat

record virtq_desc =
  d_addr :: dma
  d_len :: u32
  d_flags :: u16
  d_next :: u16

record virtio_blk_req =
  req_type :: u32
  req_sector :: u64

record vinfo =
  info_b :: "nat option"
  info_status :: u8

record kvirtio = kfile +
  desc :: "nat \<Rightarrow> virtq_desc"
  avail_idx :: u16
  avail_ring :: "nat \<Rightarrow> u16"
  used_dev_idx :: u16             \<comment> \<open>\<^verbatim>\<open>disk.used->idx\<close>, advanced by the device\<close>
  used_ring :: "nat \<Rightarrow> u32"      \<comment> \<open>the \<^verbatim>\<open>id\<close> fields of \<^verbatim>\<open>disk.used->ring\<close>\<close>
  vfree :: "nat \<Rightarrow> bool"
  used_idx :: u16
  info :: "nat \<Rightarrow> vinfo"
  ops :: "nat \<Rightarrow> virtio_blk_req"
  b_disk :: "nat \<Rightarrow> int"          \<comment> \<open>the field \<^verbatim>\<open>disk\<close> of the buffers\<close>

definition upd_desc :: "nat \<Rightarrow> virtq_desc \<Rightarrow> 'z kvirtio_scheme \<Rightarrow> 'z kvirtio_scheme" where
  "upd_desc i d s = s\<lparr>desc := (desc s)(i := d)\<rparr>"

definition alloc_desc :: "'z kvirtio_scheme \<Rightarrow> nat option \<times> 'z kvirtio_scheme" where
  "alloc_desc s =
     (case find (vfree s) [0..<NUM] of
        None \<Rightarrow> (None, s)
      | Some i \<Rightarrow> (Some i, s\<lparr>vfree := (vfree s)(i := False)\<rparr>))"

definition free_desc :: "nat \<Rightarrow> 'z kvirtio_scheme \<Rightarrow> (unit, 'z kvirtio_scheme) outcome" where
  "free_desc i s =
     (if i \<ge> NUM then Panic ''free_desc 1''
      else if vfree s i then Panic ''free_desc 2''
      else
        let s = upd_desc i \<lparr>d_addr = Dma_none, d_len = 0, d_flags = 0, d_next = 0\<rparr> s;
            s = s\<lparr>vfree := (vfree s)(i := True)\<rparr> in
        wakeup Ch_disk_free s)"

text \<open>A chain is freed once per descriptor, so its length is at most \<^verbatim>\<open>NUM\<close>: freeing one twice panics.\<close>

fun free_chain :: "nat \<Rightarrow> nat \<Rightarrow> 'z kvirtio_scheme \<Rightarrow> (unit, 'z kvirtio_scheme) outcome" where
  "free_chain 0 i s = Fault"
| "free_chain (Suc fuel) i s =
     (let flag = d_flags (desc s i); nx = d_next (desc s i) in
      bind (free_desc i s) (\<lambda>_ s.
      if flag AND VRING_DESC_F_NEXT \<noteq> 0 then free_chain fuel (unat nx) s else Ok () s))"

definition alloc3_desc :: "'z kvirtio_scheme \<Rightarrow> ((nat \<times> nat \<times> nat) option, 'z kvirtio_scheme) outcome" where
  "alloc3_desc s =
     (case alloc_desc s of (None, s) \<Rightarrow> Ok None s
      | (Some i0, s) \<Rightarrow>
        (case alloc_desc s of (None, s) \<Rightarrow> bind (free_desc i0 s) (\<lambda>_ s. Ok None s)
         | (Some i1, s) \<Rightarrow>
           (case alloc_desc s of
              (None, s) \<Rightarrow> bind (free_desc i0 s) (\<lambda>_ s. bind (free_desc i1 s) (\<lambda>_ s. Ok None s))
            | (Some i2, s) \<Rightarrow> Ok (Some (i0, i1, i2)) s)))"

text \<open>Formatting the three descriptors and publishing the request.\<close>

definition virtio_submit :: "nat \<Rightarrow> bool \<Rightarrow> nat \<Rightarrow> nat \<Rightarrow> nat \<Rightarrow> 'z kvirtio_scheme \<Rightarrow> 'z kvirtio_scheme" where
  "virtio_submit b write i0 i1 i2 s =
     (let sector = ucast (blockno (bufs s b) * 2) :: u64;
          s = s\<lparr>ops := (ops s)(i0 := \<lparr>req_type = (if write then 1 else 0), req_sector = sector\<rparr>)\<rparr>;
          s = upd_desc i0 \<lparr>d_addr = Dma_op i0, d_len = 16, d_flags = VRING_DESC_F_NEXT, d_next = of_nat i1\<rparr> s;
          s = upd_desc i1 \<lparr>d_addr = Dma_buf b, d_len = of_nat BSIZE,
                d_flags = (if write then 0 else VRING_DESC_F_WRITE) OR VRING_DESC_F_NEXT, d_next = of_nat i2\<rparr> s;
          s = s\<lparr>info := (info s)(i0 := (info s i0)\<lparr>info_status := 0xff\<rparr>)\<rparr>;
          s = upd_desc i2 \<lparr>d_addr = Dma_status i0, d_len = 1, d_flags = VRING_DESC_F_WRITE, d_next = 0\<rparr> s;
          s = s\<lparr>b_disk := (b_disk s)(b := 1), info := (info s)(i0 := (info s i0)\<lparr>info_b := Some b\<rparr>)\<rparr>;
          s = s\<lparr>avail_ring := (avail_ring s)(unat (avail_idx s) mod NUM := of_nat i0)\<rparr>
      in s\<lparr>avail_idx := avail_idx s + 1\<rparr>)"

definition virtio_disk_wait :: "nat \<Rightarrow> nat \<Rightarrow> 'z kvirtio_scheme \<Rightarrow> (unit, 'z kvirtio_scheme) outcome" where
  "virtio_disk_wait b i0 s =
     (if b_disk s b = 1 then sleep (Ch_buf b) L_vdisk s
      else
        let s = s\<lparr>info := (info s)(i0 := (info s i0)\<lparr>info_b := None\<rparr>)\<rparr> in
        bind (free_chain NUM i0 s) (\<lambda>_ s.
        release L_vdisk s))"

definition virtio_disk_rw_loop :: "nat \<Rightarrow> bool \<Rightarrow> 'z kvirtio_scheme \<Rightarrow> (unit, 'z kvirtio_scheme) outcome" where
  "virtio_disk_rw_loop b write s =
     bind (alloc3_desc s) (\<lambda>r s.
     case r of None \<Rightarrow> sleep Ch_disk_free L_vdisk s
     | Some (i0, i1, i2) \<Rightarrow> virtio_disk_wait b i0 (virtio_submit b write i0 i1 i2 s))"

definition virtio_disk_rw :: "nat \<Rightarrow> bool \<Rightarrow> 'z kvirtio_scheme \<Rightarrow> (unit, 'z kvirtio_scheme) outcome" where
  "virtio_disk_rw b write s =
     bind (acquire L_vdisk s) (\<lambda>_ s. virtio_disk_rw_loop b write s)"

text \<open>The loop over the used ring; at most 65535 entries separate two 16-bit indices.\<close>

fun virtio_intr_loop :: "nat \<Rightarrow> 'z kvirtio_scheme \<Rightarrow> (unit, 'z kvirtio_scheme) outcome" where
  "virtio_intr_loop 0 s = (if used_idx s \<noteq> used_dev_idx s then Fault else Ok () s)"
| "virtio_intr_loop (Suc fuel) s =
     (if used_idx s \<noteq> used_dev_idx s then
        let id = unat (used_ring s (unat (used_idx s) mod NUM)) in
        if id \<ge> NUM then Fault
        else if info_status (info s id) \<noteq> 0 then Panic ''virtio_disk_intr status''
        else (case info_b (info s id) of None \<Rightarrow> Fault
          | Some b \<Rightarrow>
              let s = s\<lparr>b_disk := (b_disk s)(b := 0)\<rparr> in
              bind (wakeup (Ch_buf b) s) (\<lambda>_ s.
              virtio_intr_loop fuel (s\<lparr>used_idx := used_idx s + 1\<rparr>)))
      else Ok () s)"

definition virtio_disk_intr :: "'z kvirtio_scheme \<Rightarrow> (unit, 'z kvirtio_scheme) outcome" where
  "virtio_disk_intr s =
     bind (acquire L_vdisk s) (\<lambda>_ s.
     bind (virtio_intr_loop (unat (used_dev_idx s - used_idx s)) s) (\<lambda>_ s.
     release L_vdisk s))"

end
