(* ===== verification/Trap.thy ===== *)
theory Trap
  imports Virtio
begin

text \<open>
  \<^verbatim>\<open>kernel/syscall.c\<close> (dispatch) and \<^verbatim>\<open>kernel/trap.c\<close>: entering and leaving the kernel. The supervisor
  registers are \<open>csr\<close>. Addresses of code (\<open>kernelvec\<close>, \<open>usertrap\<close>, \<open>forkret\<close>, the offset of \<open>uservec\<close> in the
  trampoline) are the linker's; with the padding bytes of \<^verbatim>\<open>struct stat\<close> and what the devices
  answer in one interrupt they are arguments, collected in \<open>code_addrs\<close> and \<open>devices\<close>.
\<close>

section \<open>System calls\<close>

record code_addrs =
  a_forkret :: u64
  a_kernelvec :: u64
  a_usertrap :: u64
  uservec_off :: u64
  stat_pad :: "u8 list"

text \<open>The table of handlers, indexed by the numbers of \<^verbatim>\<open>syscall.h\<close>.\<close>

definition syscalls :: "code_addrs \<Rightarrow> ('z kvirtio_scheme \<Rightarrow> (u64, 'z kvirtio_scheme) outcome) list" where
  "syscalls c =
     [sys_fork (a_forkret c), sys_exit, sys_wait, sys_pipe, sys_read, sys_kill, sys_exec, sys_fstat (stat_pad c),
      sys_chdir, sys_dup, sys_getpid, sys_sbrk, sys_pause, sys_uptime, sys_open, sys_write, sys_mknod,
      sys_unlink, sys_link, sys_mkdir, sys_close, sys_getcwd, sys_lock_create, sys_lock_acquire,
      sys_lock_release, sys_lock_destroy, sys_clone (a_forkret c), sys_join, sys_getprocessinfo, sys_shmget,
      sys_shmattach, sys_shmdetach, sys_getppid, sys_ps, sys_trace, sys_waitx, sys_getcount]"

text \<open>
  \<^verbatim>\<open>1 << num\<close> on a 32-bit \<^verbatim>\<open>int\<close>: the machine's shift uses the low five bits of \<open>num\<close>. Counters are
  of type \<^verbatim>\<open>int\<close>.
\<close>

definition traced :: "u32 \<Rightarrow> int \<Rightarrow> bool" where
  "traced m num \<longleftrightarrow> m AND push_bit (nat num mod 32) 1 \<noteq> 0"

definition count_call :: "nat \<Rightarrow> 'z kproc_scheme \<Rightarrow> 'z kproc_scheme" where
  "count_call n s = s\<lparr>syscall_count := (syscall_count s)(n := sint (of_int (syscall_count s n + 1) :: u32))\<rparr>"

definition syscall :: "code_addrs \<Rightarrow> 'z kvirtio_scheme \<Rightarrow> (unit, 'z kvirtio_scheme) outcome" where
  "syscall c s =
     bind (myproc s) (\<lambda>p s.
     bind (tf_reg p tf_a7 s) (\<lambda>a7 s.
     let num = sint (ucast a7 :: u32) in
     if num > 0 \<and> num < 38 then
       let s = count_call (nat num) s in
       bind ((syscalls c ! nat (num - 1)) s) (\<lambda>r s.
       bind (set_tf_reg p tf_a0 r s) (\<lambda>_ s.
       if traced (tracemask (procs s p)) num then
         printf (''%d: syscall %d -> %ld'' @ nl) [vint (pid (procs s p)), vint num, VInt r] s
       else Ok () s))
     else
       bind (printf (''%d %s: unknown sys call %d'' @ nl)
         [vint (pid (procs s p)), VStr (Some (cstring (pname (procs s p)))), vint num] s) (\<lambda>_ s.
       set_tf_reg p tf_a0 (-1) s)))"

section \<open>Traps\<close>

datatype csr = stvec | sepc | sstatus | scause | stval | satp | tp | stimecmp | rtimer

record ktrap = kvirtio +
  csrs :: "csr \<Rightarrow> u64"
  plic_completed :: "int list"
  first :: bool

abbreviation (input) SSTATUS_SPP :: u64 where "SSTATUS_SPP \<equiv> 0x100"
abbreviation (input) SSTATUS_SPIE :: u64 where "SSTATUS_SPIE \<equiv> 0x20"
abbreviation (input) SSTATUS_SIE :: u64 where "SSTATUS_SIE \<equiv> 2"

definition w_csr :: "csr \<Rightarrow> u64 \<Rightarrow> 'z ktrap_scheme \<Rightarrow> 'z ktrap_scheme" where
  "w_csr r v s = s\<lparr>csrs := (csrs s)(r := v)\<rparr>"

definition intr_on :: "'z ktrap_scheme \<Rightarrow> 'z ktrap_scheme" where
  "intr_on s = w_csr sstatus (csrs s sstatus OR SSTATUS_SIE) s"

definition intr_off :: "'z ktrap_scheme \<Rightarrow> 'z ktrap_scheme" where
  "intr_off s = w_csr sstatus (csrs s sstatus AND NOT SSTATUS_SIE) s"

text \<open>
  \<open>plic_completed\<close> lists what \<^verbatim>\<open>plic_complete\<close> wrote to the interrupt controller.
\<close>

text \<open>What the devices answer while one interrupt is handled: the claimed interrupt and the serial port's state.\<close>

record devices =
  irq :: int
  uart_idle :: bool
  uart_input :: "u8 list"

definition clockintr :: "'z ktrap_scheme \<Rightarrow> (unit, 'z ktrap_scheme) outcome" where
  "clockintr s =
     bind (if csrs s tp = 0 then
         bind (acquire L_ticks s) (\<lambda>_ s.
         let s = s\<lparr>ticks := ticks s + 1\<rparr> in
         bind (wakeup Ch_ticks s) (\<lambda>_ s.
         release L_ticks s))
       else Ok () s) (\<lambda>_ s.
     Ok () (w_csr stimecmp (csrs s rtimer + 1000000) s))"

definition devintr :: "devices \<Rightarrow> 'z ktrap_scheme \<Rightarrow> (int, 'z ktrap_scheme) outcome" where
  "devintr d s =
     (if csrs s scause = 0x8000000000000009 then
        bind (if irq d = 10 then uartintr (uart_idle d) (uart_input d) s
              else if irq d = 1 then virtio_disk_intr s
              else if irq d \<noteq> 0 then printf (''unexpected interrupt irq=%d'' @ nl) [vint (irq d)] s
              else Ok () s) (\<lambda>_ s.
        Ok 1 (if irq d \<noteq> 0 then s\<lparr>plic_completed := plic_completed s @ [irq d]\<rparr> else s))
      else if csrs s scause = 0x8000000000000005 then
        bind (clockintr s) (\<lambda>_ s. Ok 2 s)
      else Ok 0 s)"

definition prepare_return :: "code_addrs \<Rightarrow> 'z ktrap_scheme \<Rightarrow> (unit, 'z ktrap_scheme) outcome" where
  "prepare_return c s =
     bind (myproc s) (\<lambda>p s.
     let s = intr_off s;
         s = w_csr stvec (TRAMPOLINE + uservec_off c) s in
     bind (set_tf_reg p kernel_satp (csrs s satp) s) (\<lambda>_ s.
     bind (set_tf_reg p kernel_sp (kstack (procs s p) + PGSIZE) s) (\<lambda>_ s.
     bind (set_tf_reg p kernel_trap (a_usertrap c) s) (\<lambda>_ s.
     bind (set_tf_reg p kernel_hartid (csrs s tp) s) (\<lambda>_ s.
     let x = (csrs s sstatus AND NOT SSTATUS_SPP) OR SSTATUS_SPIE; s = w_csr sstatus x s in
     bind (tf_reg p epc s) (\<lambda>pc s. Ok () (w_csr sepc pc s)))))))"

text \<open>A process that yields the hart resumes at \<open>usertrap_return\<close>, the last part of \<^verbatim>\<open>usertrap\<close>.\<close>

definition usertrap_return :: "code_addrs \<Rightarrow> nat \<Rightarrow> 'z ktrap_scheme \<Rightarrow> (u64, 'z ktrap_scheme) outcome" where
  "usertrap_return c p s =
     bind (prepare_return c s) (\<lambda>_ s. Ok (MAKE_SATP (pagetable (procs s p))) s)"

text \<open>The part of \<^verbatim>\<open>usertrap\<close> that handles the cause; its result is \<^verbatim>\<open>which_dev\<close>.\<close>

definition handle_cause :: "code_addrs \<Rightarrow> devices \<Rightarrow> nat \<Rightarrow> 'z ktrap_scheme \<Rightarrow> (int, 'z ktrap_scheme) outcome" where
  "handle_cause c d p s =
     (if csrs s scause = 8 then
        bind (killed p s) (\<lambda>k s.
        if k \<noteq> 0 then kexit (-1) s
        else bind (tf_reg p epc s) (\<lambda>pc s.
          bind (set_tf_reg p epc (pc + 4) s) (\<lambda>_ s.
          let s = intr_on s in
          bind (syscall c s) (\<lambda>_ s. Ok 0 s))))
      else bind (devintr d s) (\<lambda>which_dev s.
        if which_dev \<noteq> 0 then Ok which_dev s
        else bind (if csrs s scause = 15 \<or> csrs s scause = 13
                   then vmfault (pagetable (procs s p)) (csrs s stval) s else Ok 0 s) (\<lambda>pa s.
          if pa \<noteq> 0 then Ok 0 s
          else
            bind (printf (''usertrap(): unexpected scause 0x%lx pid=%d'' @ nl)
              [VInt (csrs s scause), vint (pid (procs s p))] s) (\<lambda>_ s.
            bind (printf (''            sepc=0x%lx stval=0x%lx'' @ nl)
              [VInt (csrs s sepc), VInt (csrs s stval)] s) (\<lambda>_ s.
            bind (setkilled p s) (\<lambda>_ s. Ok 0 s))))))"

definition usertrap :: "code_addrs \<Rightarrow> devices \<Rightarrow> 'z ktrap_scheme \<Rightarrow> (u64, 'z ktrap_scheme) outcome" where
  "usertrap c d s =
     (if csrs s sstatus AND SSTATUS_SPP \<noteq> 0 then Panic ''usertrap: not from user mode''
      else
        let s = w_csr stvec (a_kernelvec c) s in
        bind (myproc s) (\<lambda>p s.
        bind (set_tf_reg p epc (csrs s sepc) s) (\<lambda>_ s.
        bind (handle_cause c d p s) (\<lambda>which_dev s.
        bind (killed p s) (\<lambda>k s.
        if k \<noteq> 0 then kexit (-1) s
        else if which_dev = 2 then
          bind (yield (upd_proc p (\<lambda>q. q\<lparr>rtime := rtime q + 1\<rparr>) s)) (\<lambda>_ s. usertrap_return c p s)
        else usertrap_return c p s)))))"

definition kerneltrap :: "devices \<Rightarrow> 'z ktrap_scheme \<Rightarrow> (unit, 'z ktrap_scheme) outcome" where
  "kerneltrap d s =
     (let pc = csrs s sepc; st = csrs s sstatus; cause = csrs s scause in
      if st AND SSTATUS_SPP = 0 then Panic ''kerneltrap: not from supervisor mode''
      else if csrs s sstatus AND SSTATUS_SIE \<noteq> 0 then Panic ''kerneltrap: interrupts enabled''
      else bind (devintr d s) (\<lambda>which_dev s.
        if which_dev = 0 then
          bind (printf (''scause=0x%lx sepc=0x%lx stval=0x%lx'' @ nl)
            [VInt cause, VInt (csrs s sepc), VInt (csrs s stval)] s) (\<lambda>_ s. Panic ''kerneltrap'')
        else bind (if which_dev = 2 \<and> cur s \<noteq> None then yield s else Ok () s) (\<lambda>_ s.
          Ok () (w_csr sstatus st (w_csr sepc pc s)))))"

text \<open>The path \<^verbatim>\<open>"/init"\<close>.\<close>

definition init_path :: "u8 list" where
  "init_path = [0x2F, 0x69, 0x6E, 0x69, 0x74]"

definition forkret :: "code_addrs \<Rightarrow> 'z ktrap_scheme \<Rightarrow> (u64, 'z ktrap_scheme) outcome" where
  "forkret c s =
     bind (myproc s) (\<lambda>p s.
     bind (release (L_proc p) s) (\<lambda>_ s.
     bind (if first s then
         bind (fsinit ROOTDEV s) (\<lambda>_ s.
         let s = s\<lparr>first := False\<rparr> in
         bind (kexec init_path [init_path] s) (\<lambda>r s.
         bind (set_tf_reg p tf_a0 (of_int r) s) (\<lambda>_ s.
         if r = -1 then Panic ''exec'' else Ok () s)))
       else Ok () s) (\<lambda>_ s.
     usertrap_return c p s)))"

end
