(* ===== verification/Transition.thy ===== *)
theory Transition
  imports Main
begin

text \<open>
  Interleaved executions: the states a step relation reaches, the rule that an invariant of the
  steps holds in all of them, and forward simulation of an abstract specification.
\<close>

inductive reachable :: "('s \<Rightarrow> bool) \<Rightarrow> ('s \<Rightarrow> 's \<Rightarrow> bool) \<Rightarrow> 's \<Rightarrow> bool"
  for init :: "'s \<Rightarrow> bool" and step :: "'s \<Rightarrow> 's \<Rightarrow> bool" where
  start [intro]: "init s \<Longrightarrow> reachable init step s"
| move: "reachable init step s \<Longrightarrow> step s t \<Longrightarrow> reachable init step t"

locale step_invariant =
  fixes init :: "'s \<Rightarrow> bool" and step :: "'s \<Rightarrow> 's \<Rightarrow> bool" and inv :: "'s \<Rightarrow> bool"
  assumes inv_init: "init s \<Longrightarrow> inv s"
    and inv_step: "step s t \<Longrightarrow> inv s \<Longrightarrow> inv t"
begin

lemma inv_reachable: "reachable init step s \<Longrightarrow> inv s"
  by (induction rule: reachable.induct) (auto intro: inv_init inv_step)

end

text \<open>
  A simulation relates each concrete state that satisfies the invariant to an abstract one, and
  each concrete step to an abstract step or to none.
\<close>

locale simulation = step_invariant init step inv
  for init :: "'s \<Rightarrow> bool" and step :: "'s \<Rightarrow> 's \<Rightarrow> bool" and inv :: "'s \<Rightarrow> bool" +
  fixes abs :: "'s \<Rightarrow> 'a" and ainit :: "'a \<Rightarrow> bool" and astep :: "'a \<Rightarrow> 'a \<Rightarrow> bool"
  assumes abs_init: "init s \<Longrightarrow> ainit (abs s)"
    and abs_step: "step s t \<Longrightarrow> inv s \<Longrightarrow> abs t = abs s \<or> astep (abs s) (abs t)"
begin

lemma abs_reachable: "reachable init step s \<Longrightarrow> reachable ainit astep (abs s)"
proof (induction rule: reachable.induct)
  case (move s t)
  then show ?case using abs_step[OF move.hyps(2) inv_reachable[OF move.hyps(1)]]
    by (auto intro: reachable.move)
qed (auto intro: abs_init)

end

end
