(* ===== verification/Spinlock.thy ===== *)
theory Spinlock
  imports Machine Transition
begin

text \<open>
  \<^verbatim>\<open>kernel/spinlock.c\<close> on several harts. The two routines run as sequences of memory operations that
  interleave with those of the other harts; the theory proves that what the rest of the
  development assumes of a lock (\<^const>\<open>acquire\<close> and \<^const>\<open>release\<close> on the set \<^const>\<open>held\<close>) is what they do.
\<close>

section \<open>Locks, harts and interrupts\<close>

record spinlock =
  locked :: "32 word"
  lock_name :: string
  lock_cpu :: "nat option"

record cpu =
  noff :: int
  intena :: bool
  intr_get :: bool

definition initlock :: "string \<Rightarrow> spinlock" where
  "initlock n = \<lparr>locked = 0, lock_name = n, lock_cpu = None\<rparr>"

definition holding :: "nat \<Rightarrow> spinlock \<Rightarrow> bool" where
  "holding h lk \<longleftrightarrow> locked lk \<noteq> 0 \<and> lock_cpu lk = Some h"

definition push_off :: "cpu \<Rightarrow> cpu" where
  "push_off c =
     (let old = intr_get c;
          c = c\<lparr>intr_get := False\<rparr>;
          c = (if noff c = 0 then c\<lparr>intena := old\<rparr> else c)
      in c\<lparr>noff := noff c + 1\<rparr>)"

definition pop_off :: "cpu \<Rightarrow> (unit, cpu) outcome" where
  "pop_off c =
     (if intr_get c then Panic ''pop_off - interruptible''
      else if noff c < 1 then Panic ''pop_off''
      else let c = c\<lparr>noff := noff c - 1\<rparr>
        in Ok () (if noff c = 0 \<and> intena c then c\<lparr>intr_get := True\<rparr> else c))"

text \<open>
  Where a hart is: running code outside the two routines, about to read \<^verbatim>\<open>lk->locked\<close> or \<^verbatim>\<open>lk->cpu\<close> in
  \<^verbatim>\<open>holding\<close>, spinning, and so on through their statements, or stopped by \<^verbatim>\<open>panic\<close>.
\<close>

datatype 'l pc = Run | AcqRead 'l | AcqCpu 'l | Spin 'l | Got 'l
  | RelRead 'l | RelCpu 'l | RelClear 'l | RelSwap 'l | Pop | Halt string

record 'l smp =
  locks :: "'l \<Rightarrow> spinlock"
  cpus :: "nat \<Rightarrow> cpu"
  pcs :: "nat \<Rightarrow> 'l pc"

definition goto :: "nat \<Rightarrow> 'l pc \<Rightarrow> 'l smp \<Rightarrow> 'l smp" where
  "goto h p s = s\<lparr>pcs := (pcs s)(h := p)\<rparr>"

definition upd_spin :: "'l \<Rightarrow> (spinlock \<Rightarrow> spinlock) \<Rightarrow> 'l smp \<Rightarrow> 'l smp" where
  "upd_spin l f s = s\<lparr>locks := (locks s)(l := f (locks s l))\<rparr>"

definition call_acquire :: "nat \<Rightarrow> 'l \<Rightarrow> 'l smp \<Rightarrow> 'l smp" where
  "call_acquire h l s = goto h (AcqRead l) (s\<lparr>cpus := (cpus s)(h := push_off (cpus s h))\<rparr>)"

definition call_release :: "nat \<Rightarrow> 'l \<Rightarrow> 'l smp \<Rightarrow> 'l smp" where
  "call_release h l s = goto h (RelRead l) s"

text \<open>One memory operation of a hart inside \<^verbatim>\<open>acquire\<close> or \<^verbatim>\<open>release\<close>; the atomic swaps write in either case.\<close>

fun advance :: "nat \<Rightarrow> 'l pc \<Rightarrow> 'l smp \<Rightarrow> 'l smp" where
  "advance h (AcqRead l) s = goto h (if locked (locks s l) \<noteq> 0 then AcqCpu l else Spin l) s"
| "advance h (AcqCpu l) s = goto h (if lock_cpu (locks s l) = Some h then Halt ''acquire'' else Spin l) s"
| "advance h (Spin l) s =
     goto h (if locked (locks s l) \<noteq> 0 then Spin l else Got l) (upd_spin l (\<lambda>k. k\<lparr>locked := 1\<rparr>) s)"
| "advance h (Got l) s = goto h Run (upd_spin l (\<lambda>k. k\<lparr>lock_cpu := Some h\<rparr>) s)"
| "advance h (RelRead l) s = goto h (if locked (locks s l) \<noteq> 0 then RelCpu l else Halt ''release'') s"
| "advance h (RelCpu l) s = goto h (if lock_cpu (locks s l) = Some h then RelClear l else Halt ''release'') s"
| "advance h (RelClear l) s = goto h (RelSwap l) (upd_spin l (\<lambda>k. k\<lparr>lock_cpu := None\<rparr>) s)"
| "advance h (RelSwap l) s = goto h Pop (upd_spin l (\<lambda>k. k\<lparr>locked := 0\<rparr>) s)"
| "advance h Pop s =
     (case pop_off (cpus s h) of
        Ok _ c \<Rightarrow> goto h Run (s\<lparr>cpus := (cpus s)(h := c)\<rparr>)
      | Panic m \<Rightarrow> goto h (Halt m) s | _ \<Rightarrow> s)"
| "advance h Run s = s"
| "advance h (Halt m) s = s"

definition exec1 :: "nat \<Rightarrow> 'l smp \<Rightarrow> 'l smp" where
  "exec1 h s = advance h (pcs s h) s"

definition set_intr :: "nat \<Rightarrow> bool \<Rightarrow> 'l smp \<Rightarrow> 'l smp" where
  "set_intr h b s = s\<lparr>cpus := (cpus s)(h := (cpus s h)\<lparr>intr_get := b\<rparr>)\<rparr>"

text \<open>
  What harts do to the locks: go on inside a routine, call one for any lock, or, with no
  \<^verbatim>\<open>push_off\<close> pending, enable and disable interrupts.
\<close>

inductive step :: "'l smp \<Rightarrow> 'l smp \<Rightarrow> bool" where
  inside: "pcs s h \<noteq> Run \<Longrightarrow> step s (exec1 h s)"
| acquiring: "pcs s h = Run \<Longrightarrow> step s (call_acquire h l s)"
| releasing: "pcs s h = Run \<Longrightarrow> step s (call_release h l s)"
| intr: "pcs s h = Run \<Longrightarrow> noff (cpus s h) = 0 \<Longrightarrow> step s (set_intr h b s)"

inductive_cases stepE: "step s s'"

definition booted :: "'l smp \<Rightarrow> bool" where
  "booted s \<longleftrightarrow> (\<forall>l. locked (locks s l) = 0 \<and> lock_cpu (locks s l) = None)
     \<and> (\<forall>h. noff (cpus s h) = 0 \<and> pcs s h = Run)"

section \<open>Ownership\<close>

text \<open>A hart owns a lock from the swap that took it to the swap that gives it back.\<close>

definition owns :: "'l smp \<Rightarrow> nat \<Rightarrow> 'l \<Rightarrow> bool" where
  "owns s h l \<longleftrightarrow> pcs s h = Got l \<or> pcs s h = RelSwap l \<or> lock_cpu (locks s l) = Some h"

abbreviation view :: "'l smp \<Rightarrow> nat \<Rightarrow> 'l set" where
  "view s h \<equiv> {l. owns s h l}"

text \<open>Places where a \<^verbatim>\<open>push_off\<close> has been done for a lock the hart does not own.\<close>

fun pending :: "'l pc \<Rightarrow> bool" where
  "pending (AcqRead l) = True"
| "pending (AcqCpu l) = True"
| "pending (Spin l) = True"
| "pending Pop = True"
| "pending _ = False"

fun local_ok :: "'l pc \<Rightarrow> nat \<Rightarrow> ('l \<Rightarrow> nat option) \<Rightarrow> bool" where
  "local_ok (Spin l) h c = (c l \<noteq> Some h)"
| "local_ok (Got l) h c = (c l = None)"
| "local_ok (RelClear l) h c = (c l = Some h)"
| "local_ok (RelSwap l) h c = (c l = None)"
| "local_ok (Halt m) h c = (m = ''acquire'' \<or> m = ''release'')"
| "local_ok _ h c = True"

definition owners_ok :: "'l smp \<Rightarrow> bool" where
  "owners_ok s \<longleftrightarrow>
     (\<forall>l h h'. owns s h l \<longrightarrow> owns s h' l \<longrightarrow> h = h')
   \<and> (\<forall>l. locked (locks s l) \<noteq> 0 \<longleftrightarrow> (\<exists>h. owns s h l))
   \<and> (\<forall>h. local_ok (pcs s h) h (\<lambda>l. lock_cpu (locks s l)))"

definition depth_ok :: "'l smp \<Rightarrow> nat \<Rightarrow> bool" where
  "depth_ok s h \<longleftrightarrow>
     (\<forall>m. pcs s h \<noteq> Halt m) \<longrightarrow> finite (view s h)
       \<and> noff (cpus s h) = int (card (view s h)) + (if pending (pcs s h) then 1 else 0)"

definition intr_ok :: "'l smp \<Rightarrow> nat \<Rightarrow> bool" where
  "intr_ok s h \<longleftrightarrow> (0 < noff (cpus s h) \<longrightarrow> \<not> intr_get (cpus s h)) \<and> 0 \<le> noff (cpus s h)"

definition smp_inv :: "'l smp \<Rightarrow> bool" where
  "smp_inv s \<longleftrightarrow> owners_ok s \<and> (\<forall>h. depth_ok s h) \<and> (\<forall>h. intr_ok s h)"

lemma smp_simps [simp]:
  "pcs (goto h p s) = (pcs s)(h := p)" "locks (goto h p s) = locks s" "cpus (goto h p s) = cpus s"
  "pcs (upd_spin l f s) = pcs s" "cpus (upd_spin l f s) = cpus s"
  "locks (upd_spin l f s) = (locks s)(l := f (locks s l))"
  "pcs (set_intr h b s) = pcs s" "locks (set_intr h b s) = locks s"
  "pcs (call_acquire h l s) = (pcs s)(h := AcqRead l)" "locks (call_acquire h l s) = locks s"
  "pcs (call_release h l s) = (pcs s)(h := RelRead l)" "locks (call_release h l s) = locks s"
  "cpus (call_release h l s) = cpus s"
  by (simp_all add: goto_def upd_spin_def set_intr_def call_acquire_def call_release_def)


text \<open>How the operations change who owns what: only the two swaps do.\<close>

lemma owns_call [simp]:
  "pcs s h = Run \<Longrightarrow> owns (call_acquire h l s) = owns s"
  "pcs s h = Run \<Longrightarrow> owns (call_release h l s) = owns s"
  "owns (set_intr h b s) = owns s"
  by (auto simp: owns_def fun_eq_iff)

definition took :: "nat \<Rightarrow> 'l smp \<Rightarrow> 'l set" where
  "took h s = {l. pcs s h = Spin l \<and> locked (locks s l) = 0}"

definition gave :: "nat \<Rightarrow> 'l smp \<Rightarrow> 'l set" where
  "gave h s = {l. pcs s h = RelSwap l}"

lemma owns_exec1:
  assumes "owners_ok s"
  shows "owns (exec1 h s) k l \<longleftrightarrow> (if k = h then (owns s h l \<or> l \<in> took h s) \<and> l \<notin> gave h s else owns s k l)"
proof -
  have loc: "local_ok (pcs s h) h (\<lambda>l. lock_cpu (locks s l))" "local_ok (pcs s k) k (\<lambda>l. lock_cpu (locks s l))"
    and uniq: "owns s h' m \<Longrightarrow> owns s h'' m \<Longrightarrow> h' = h''" for h' h'' m
    using assms by (auto simp: owners_ok_def)
  note defs = owns_def took_def gave_def exec1_def
  show ?thesis
  proof (cases "pcs s h")
    case (Spin m)
    then show ?thesis using loc by (cases "k = h") (auto simp: defs)
  next
    case (Got m)
    then have "lock_cpu (locks s m) = None" using loc by simp
    moreover have "\<not> owns s k m" if "k \<noteq> h" using uniq[of k m h] Got that by (auto simp: owns_def)
    ultimately show ?thesis using Got by (cases "k = h"; cases "l = m") (auto simp: defs)
  next
    case (RelClear m)
    then have "lock_cpu (locks s m) = Some h" using loc by simp
    moreover have "\<not> owns s k m" if "k \<noteq> h" using uniq[of k m h] calculation that by (auto simp: owns_def)
    ultimately show ?thesis using RelClear by (cases "k = h"; cases "l = m") (auto simp: defs)
  next
    case (RelSwap m)
    then have "lock_cpu (locks s m) = None" using loc by simp
    then show ?thesis using RelSwap by (cases "k = h"; cases "l = m") (auto simp: defs)
  next
    case Pop
    then show ?thesis by (cases "k = h") (auto simp: defs split: outcome.split)
  qed (cases "k = h"; auto simp: defs)+
qed

lemma locked_exec1:
  "locked (locks (exec1 h s) l) \<noteq> 0 \<longleftrightarrow> (locked (locks s l) \<noteq> 0 \<or> l \<in> took h s) \<and> l \<notin> gave h s"
  by (cases "pcs s h") (auto simp: exec1_def took_def gave_def split: outcome.split)

lemma owned_locked: "owners_ok s \<Longrightarrow> owns s h l \<Longrightarrow> locked (locks s l) \<noteq> 0"
  by (auto simp: owners_ok_def)

lemma free_cpu: "owners_ok s \<Longrightarrow> locked (locks s l) = 0 \<Longrightarrow> lock_cpu (locks s l) = None"
  using owned_locked[of s _ l] by (cases "lock_cpu (locks s l)") (auto simp: owns_def)

text \<open>In a state that satisfies the invariant, \<^verbatim>\<open>pop_off\<close> does not panic.\<close>

lemma pop_ok:
  assumes "depth_ok s h" "intr_ok s h" "pcs s h = Pop"
  obtains c where "pop_off (cpus s h) = Ok () c" "noff c = noff (cpus s h) - 1" "0 < noff c \<longrightarrow> \<not> intr_get c"
    "0 \<le> noff c"
proof -
  have "0 < noff (cpus s h)" using assms(1,3) by (auto simp: depth_ok_def)
  then show thesis using that assms(2) by (auto simp: pop_off_def intr_ok_def Let_def)
qed

text \<open>Going on keeps what a hart knows of the lock it works on, for this hart and for the others.\<close>

lemma local_exec1_self:
  assumes "owners_ok s" "depth_ok s h" "intr_ok s h"
  shows "local_ok (pcs (exec1 h s) h) h (\<lambda>l. lock_cpu (locks (exec1 h s) l))"
proof -
  have loc: "local_ok (pcs s h) h (\<lambda>l. lock_cpu (locks s l))"
    using assms by (auto simp: owners_ok_def)
  show ?thesis
  proof (cases "pcs s h")
    case Pop
    obtain c where "pop_off (cpus s h) = Ok () c" by (rule pop_ok[OF assms(2,3) Pop])
    then show ?thesis using Pop by (auto simp: exec1_def)
  qed (use loc free_cpu[OF assms(1)] in \<open>auto simp: exec1_def\<close>)
qed

lemma local_exec1_other:
  assumes "owners_ok s" "k \<noteq> h"
  shows "local_ok (pcs (exec1 h s) k) k (\<lambda>l. lock_cpu (locks (exec1 h s) l))"
proof -
  have loc: "local_ok (pcs s h) h (\<lambda>l. lock_cpu (locks s l))" "local_ok (pcs s k) k (\<lambda>l. lock_cpu (locks s l))"
    and uniq: "\<not> (owns s h m \<and> owns s k m)" for m
    using assms by (auto simp: owners_ok_def)
  have pc: "pcs (exec1 h s) k = pcs s k"
    using assms(2) by (cases "pcs s h") (auto simp: exec1_def split: outcome.split)
  consider m where "pcs s h = Got m" | m where "pcs s h = RelClear m"
    | "\<And>l. lock_cpu (locks (exec1 h s) l) = lock_cpu (locks s l)"
    by (cases "pcs s h") (auto simp: exec1_def split: outcome.split)
  then show ?thesis
  proof cases
    case (1 m)
    then show ?thesis using loc uniq[of m] assms(2) pc
      by (cases "pcs s k") (auto simp: exec1_def owns_def)
  next
    case (2 m)
    then show ?thesis using loc uniq[of m] assms(2) pc
      by (cases "pcs s k") (auto simp: exec1_def owns_def)
  next
    case 3
    then show ?thesis using loc pc by simp
  qed
qed

lemma owners_exec1:
  assumes "smp_inv s"
  shows "owners_ok (exec1 h s)"
proof -
  have inv: "owners_ok s" "depth_ok s h" "intr_ok s h" using assms by (auto simp: smp_inv_def)
  note o = owns_exec1[OF inv(1), of h]
  have uniq: "\<And>l h h'. owns s h l \<Longrightarrow> owns s h' l \<Longrightarrow> h = h'"
    and lck: "\<And>l. locked (locks s l) \<noteq> 0 \<longleftrightarrow> (\<exists>h. owns s h l)"
    using inv(1) by (auto simp: owners_ok_def)
  have new: "\<not> owns s k l" if "l \<in> took h s" for k l
    using that lck[of l] by (auto simp: took_def)
  have old: "owns s h l" if "l \<in> gave h s" for l
    using that by (auto simp: gave_def owns_def)
  have "k = k'" if "owns (exec1 h s) k l" "owns (exec1 h s) k' l" for k k' l
    using that new[of l] uniq[of k l k'] unfolding o by (auto split: if_splits)
  moreover have "locked (locks (exec1 h s) l) \<noteq> 0 \<longleftrightarrow> (\<exists>k. owns (exec1 h s) k l)" for l
  proof -
    have "(\<exists>k. owns (exec1 h s) k l) \<longleftrightarrow> ((\<exists>k. owns s k l) \<or> l \<in> took h s) \<and> l \<notin> gave h s"
      using new[of l] old[of l] uniq[of h l] unfolding o by metis
    then show ?thesis using lck[of l] locked_exec1[of h s l] by simp
  qed
  moreover have "local_ok (pcs (exec1 h s) k) k (\<lambda>l. lock_cpu (locks (exec1 h s) l))" for k
    using local_exec1_self[OF inv] local_exec1_other[OF inv(1), of k h] by (cases "k = h") simp_all
  ultimately show ?thesis unfolding owners_ok_def by blast
qed

text \<open>Nesting of \<^verbatim>\<open>push_off\<close>.\<close>

lemma other_exec1: "k \<noteq> h \<Longrightarrow> pcs (exec1 h s) k = pcs s k \<and> cpus (exec1 h s) k = cpus s k"
  by (cases "pcs s h") (auto simp: exec1_def split: outcome.split)

lemma view_exec1:
  assumes "owners_ok s"
  shows "view (exec1 h s) h = (view s h \<union> took h s) - gave h s"
    and "k \<noteq> h \<Longrightarrow> view (exec1 h s) k = view s k"
  using owns_exec1[OF assms, of h] by auto

lemma depth_exec1:
  assumes "smp_inv s" "pcs s h \<noteq> Run"
  shows "depth_ok (exec1 h s) h"
proof -
  have inv: "owners_ok s" "depth_ok s h" "intr_ok s h" using assms by (auto simp: smp_inv_def)
  note v = view_exec1(1)[OF inv(1), of h]
  show ?thesis
  proof (cases "pcs s h")
    case (Spin l)
    have "finite (view s h)" "noff (cpus s h) = int (card (view s h)) + 1"
      using inv(2) Spin by (auto simp: depth_ok_def)
    moreover have "l \<notin> view s h" if "locked (locks s l) = 0"
      using that owned_locked[OF inv(1), of h l] by auto
    moreover have "view (exec1 h s) h = (if locked (locks s l) = 0 then insert l (view s h) else view s h)"
      unfolding v using Spin by (auto simp: took_def gave_def)
    ultimately show ?thesis using Spin by (auto simp: depth_ok_def exec1_def)
  next
    case (RelSwap l)
    have fin: "finite (view s h)" "noff (cpus s h) = int (card (view s h))"
      using inv(2) RelSwap by (auto simp: depth_ok_def)
    have mem: "l \<in> view s h" using RelSwap by (simp add: owns_def)
    have "view (exec1 h s) h = view s h - {l}"
      unfolding v using RelSwap by (auto simp: took_def gave_def)
    moreover have "int (card (view s h - {l})) = int (card (view s h)) - 1"
      using fin(1) mem card_Suc_Diff1[of "view s h" l] by simp
    ultimately show ?thesis using fin RelSwap by (simp add: depth_ok_def exec1_def)
  next
    case Pop
    then have "finite (view s h)" "noff (cpus s h) = int (card (view s h)) + 1"
      using inv(2) by (auto simp: depth_ok_def)
    moreover obtain c where "pop_off (cpus s h) = Ok () c" "noff c = noff (cpus s h) - 1"
      by (rule pop_ok[OF inv(2,3) Pop])
    ultimately show ?thesis using Pop unfolding depth_ok_def v
      by (simp add: took_def gave_def exec1_def)
  qed (unfold depth_ok_def v, use inv(2) assms(2) in \<open>auto simp: depth_ok_def took_def gave_def exec1_def\<close>)
qed

lemma intr_exec1:
  assumes "smp_inv s"
  shows "intr_ok (exec1 h s) h"
proof -
  have inv: "depth_ok s h" "intr_ok s h" using assms by (auto simp: smp_inv_def)
  show ?thesis
  proof (cases "pcs s h")
    case Pop
    obtain c where "pop_off (cpus s h) = Ok () c" "0 < noff c \<longrightarrow> \<not> intr_get c" "0 \<le> noff c"
      by (rule pop_ok[OF inv Pop])
    then show ?thesis using Pop by (simp add: exec1_def intr_ok_def)
  qed (use inv(2) in \<open>auto simp: exec1_def intr_ok_def\<close>)
qed

lemma inv_exec1:
  assumes "smp_inv s" "pcs s h \<noteq> Run"
  shows "smp_inv (exec1 h s)"
proof -
  have inv: "owners_ok s" using assms(1) by (simp add: smp_inv_def)
  have "depth_ok (exec1 h s) k \<and> intr_ok (exec1 h s) k" for k
  proof (cases "k = h")
    case True
    then show ?thesis using depth_exec1[OF assms] intr_exec1[OF assms(1)] by simp
  next
    case False
    then show ?thesis using other_exec1[OF False, of s] view_exec1(2)[OF inv False] assms(1)
      by (simp add: smp_inv_def depth_ok_def intr_ok_def)
  qed
  then show ?thesis using owners_exec1[OF assms(1)] by (auto simp: smp_inv_def)
qed

lemma inv_call_acquire:
  assumes "smp_inv s" "pcs s h = Run"
  shows "smp_inv (call_acquire h l s)"
proof -
  have o: "owners_ok s" and d: "\<And>k. depth_ok s k" and i: "\<And>k. intr_ok s k"
    using assms(1) by (auto simp: smp_inv_def)
  note own = owns_call(1)[OF assms(2), of l]
  have "owners_ok (call_acquire h l s)" using o unfolding owners_ok_def own by auto
  moreover have "depth_ok (call_acquire h l s) k" for k
    using d[of k] assms(2) unfolding depth_ok_def own
    by (auto simp: call_acquire_def push_off_def Let_def goto_def)
  moreover have "intr_ok (call_acquire h l s) k" for k
    using i[of k] by (auto simp: intr_ok_def call_acquire_def push_off_def Let_def goto_def)
  ultimately show ?thesis by (simp add: smp_inv_def)
qed

lemma inv_call_release:
  assumes "smp_inv s" "pcs s h = Run"
  shows "smp_inv (call_release h l s)"
  using assms unfolding smp_inv_def owners_ok_def depth_ok_def intr_ok_def owns_call(2)[OF assms(2)]
  by auto

lemma inv_set_intr:
  assumes "smp_inv s" "noff (cpus s h) = 0"
  shows "smp_inv (set_intr h b s)"
  using assms unfolding smp_inv_def owners_ok_def depth_ok_def intr_ok_def owns_call(3)
  by (auto simp: set_intr_def)

lemma inv_booted: "booted s \<Longrightarrow> smp_inv s"
  by (auto simp: booted_def smp_inv_def owners_ok_def depth_ok_def intr_ok_def owns_def)

lemma smp_inv_step: "step s s' \<Longrightarrow> smp_inv s \<Longrightarrow> smp_inv s'"
  by (erule stepE) (auto intro: inv_exec1 inv_call_acquire inv_call_release inv_set_intr)

section \<open>The abstract lock\<close>

text \<open>
  What clients may rely on: the harts own disjoint sets of locks, and each step lets one hart
  \<^const>\<open>acquire\<close> a lock no hart owns, or \<^const>\<open>release\<close> one of its own. \<open>as_held\<close> gives the machine
  state of a hart this set of locks.
\<close>

abbreviation as_held :: "mach \<Rightarrow> lockid set \<Rightarrow> mach" where
  "as_held m L \<equiv> m\<lparr>held := L\<rparr>"

definition lock_init :: "(nat \<Rightarrow> lockid set) \<Rightarrow> bool" where
  "lock_init V \<longleftrightarrow> (\<forall>h. V h = {})"

inductive lock_step :: "(nat \<Rightarrow> lockid set) \<Rightarrow> (nat \<Rightarrow> lockid set) \<Rightarrow> bool" where
  lock_acquire: "(\<And>k. l \<notin> V k) \<Longrightarrow> (\<And>m. acquire l (as_held m (V h)) = Ok () (as_held m L)) \<Longrightarrow>
    lock_step V (V(h := L))"
| lock_release: "(\<And>m. release l (as_held m (V h)) = Ok () (as_held m L)) \<Longrightarrow> lock_step V (V(h := L))"

lemma took_eq: "took h s = (case pcs s h of Spin l \<Rightarrow> if locked (locks s l) = 0 then {l} else {} | _ \<Rightarrow> {})"
  by (auto simp: took_def split: pc.split)

lemma view_step:
  assumes "step s t" "smp_inv s"
  shows "view t = view s \<or> lock_step (view s) (view t)"
  using assms(1)
proof (cases rule: step.cases)
  case (inside h)
  have inv: "owners_ok s" using assms(2) by (simp add: smp_inv_def)
  have t: "view t = (view s)(h := (view s h \<union> took h s) - gave h s)"
    using owns_exec1[OF inv, of h] inside by (auto simp: fun_eq_iff)
  have "(\<exists>l. took h s = {l}) \<and> gave h s = {} \<or> (\<exists>l. gave h s = {l}) \<and> took h s = {} \<or> took h s = {} \<and> gave h s = {}"
    by (cases "pcs s h") (auto simp: took_eq gave_def)
  then consider l where "took h s = {l}" "gave h s = {}" | l where "gave h s = {l}" "took h s = {}"
    | "took h s = {}" "gave h s = {}"
    by blast
  then show ?thesis
  proof cases
    case (1 l)
    then have "\<not> owns s k l" for k
      using owned_locked[OF inv, of k l] by (auto simp: took_def)
    then have "lock_step (view s) ((view s)(h := insert l (view s h)))"
      by (intro lock_acquire[of l]) auto
    then show ?thesis using 1 t by simp
  next
    case (2 l)
    then have "owns s h l" by (auto simp: gave_def owns_def)
    then have "lock_step (view s) ((view s)(h := view s h - {l}))"
      by (intro lock_release[of l]) auto
    then show ?thesis using 2 t by simp
  next
    case 3
    then show ?thesis using t by (simp add: fun_upd_idem)
  qed
qed (auto simp: fun_eq_iff)

interpretation spin: simulation booted step smp_inv view lock_init lock_step
proof
  show "lock_init (view s)" if "booted s" for s :: "lockid smp"
    using that by (auto simp: lock_init_def booted_def owns_def)
qed (auto intro: inv_booted smp_inv_step simp: view_step)

text \<open>
  C2. Mutual exclusion: however the harts interleave, at most one of them is between the swap that
  takes a lock and the swap that gives it back, the lock word is then nonzero, and that hart
  has its interrupts off.
\<close>

theorem spinlock_mutual_exclusion:
  assumes "reachable booted step (s :: lockid smp)" "owns s h l"
  shows "(\<forall>k. owns s k l \<longleftrightarrow> k = h) \<and> locked (locks s l) \<noteq> 0
    \<and> ((\<forall>m. pcs s h \<noteq> Halt m) \<longrightarrow> 1 \<le> noff (cpus s h) \<and> \<not> intr_get (cpus s h))"
proof -
  have inv: "smp_inv s" by (rule spin.inv_reachable[OF assms(1)])
  then have *: "owners_ok s" "depth_ok s h" "intr_ok s h" by (simp_all add: smp_inv_def)
  have "1 \<le> noff (cpus s h)" if "\<forall>m. pcs s h \<noteq> Halt m"
  proof -
    have "finite (view s h)" "noff (cpus s h) \<ge> int (card (view s h))"
      using *(2) that by (auto simp: depth_ok_def)
    moreover have "0 < card (view s h)" using calculation(1) assms(2) by (auto simp: card_gt_0_iff)
    ultimately show ?thesis by linarith
  qed
  then show ?thesis
    using *(1,3) assms(2) owned_locked[OF *(1) assms(2)] by (auto simp: owners_ok_def intr_ok_def)
qed

text \<open>A machine where every lock is free and no hart works on one.\<close>

definition idle_smp :: "'l smp" where
  "idle_smp = \<lparr>locks = (\<lambda>l. initlock ''lock''), cpus = (\<lambda>h. \<lparr>noff = 0, intena = False, intr_get = True\<rparr>),
     pcs = (\<lambda>h. Run)\<rparr>"

lemma idle_booted: "booted idle_smp"
  by (simp add: booted_def idle_smp_def initlock_def)

lemma reach_exec1: "reachable booted step s \<Longrightarrow> pcs s h \<noteq> Run \<Longrightarrow> reachable booted step (exec1 h s)"
  by (rule reachable.move) (auto intro: step.intros)

theorem spinlock_mutual_exclusion_witness:
  "let s = exec1 0 (exec1 2 (exec1 2 (call_acquire 2 L_kmem (exec1 0 (exec1 0 (call_acquire 0 L_kmem idle_smp)))))) in
    owns s 0 L_kmem \<and> pcs s 2 = Spin L_kmem \<and> (\<forall>k. owns s k L_kmem \<longleftrightarrow> k = 0) \<and> \<not> intr_get (cpus s 0)"
proof -
  define a where "a = exec1 0 (exec1 0 (call_acquire 0 L_kmem idle_smp))"
  define b where "b = exec1 2 (exec1 2 (call_acquire 2 L_kmem a))"
  note ev = exec1_def call_acquire_def goto_def upd_spin_def idle_smp_def initlock_def push_off_def
  have a: "pcs a 0 = Got L_kmem" "pcs a 2 = Run" "locked (locks a L_kmem) = 1" "lock_cpu (locks a L_kmem) = None"
    by (simp_all add: a_def ev)
  have b: "pcs b 0 = Got L_kmem" "pcs b 2 = Spin L_kmem" "locked (locks b L_kmem) = 1"
    using a by (simp_all add: b_def exec1_def call_acquire_def goto_def)
  have "reachable booted step (call_acquire 0 L_kmem idle_smp)"
    by (rule reachable.move[OF start[of booted, OF idle_booted]]) (auto intro!: step.intros simp: idle_smp_def)
  then have "reachable booted step a" unfolding a_def
    by (intro reach_exec1) (simp_all add: ev)
  then have "reachable booted step (call_acquire 2 L_kmem a)"
    by (rule reachable.move) (auto intro!: step.intros simp: a)
  then have "reachable booted step b" unfolding b_def
    by (intro reach_exec1) (simp_all add: exec1_def a)
  then have r: "reachable booted step (exec1 0 b)"
    by (intro reach_exec1) (simp_all add: b)
  have s: "owns (exec1 0 b) 0 L_kmem" "pcs (exec1 0 b) 0 = Run" "pcs (exec1 0 b) 2 = Spin L_kmem"
    using b by (simp_all add: owns_def exec1_def)
  show ?thesis
    using spinlock_mutual_exclusion[OF r s(1)] s by (simp add: a_def b_def Let_def)
qed



text \<open>\<^verbatim>\<open>pop_off\<close> undoes \<^verbatim>\<open>push_off\<close>, the interrupt setting included.\<close>

lemma push_pop:
  assumes "0 \<le> noff c" "0 < noff c \<longrightarrow> \<not> intr_get c"
  shows "\<exists>d. pop_off (push_off c) = Ok () d \<and> noff d = noff c \<and> intr_get d = intr_get c"
  using assms by (cases "noff c = 0"; cases "intr_get c") (simp_all add: pop_off_def push_off_def Let_def)

text \<open>
  C16. An uncontended \<^verbatim>\<open>acquire\<close> finishes in three memory operations with the lock taken and interrupts
  off, and the matching \<^verbatim>\<open>release\<close> in five, after which the hart has the locks, the nesting depth
  and the interrupt setting it had before.
\<close>

theorem acquire_release_restore:
  assumes "reachable booted step (s :: lockid smp)" "pcs s h = Run" "\<And>k. \<not> owns s k l"
  defines "t \<equiv> (exec1 h ^^ 3) (call_acquire h l s)"
  defines "u \<equiv> (exec1 h ^^ 5) (call_release h l t)"
  shows "pcs t h = Run \<and> view t h = insert l (view s h) \<and> \<not> intr_get (cpus t h)
    \<and> pcs u h = Run \<and> view u h = view s h \<and> noff (cpus u h) = noff (cpus s h)
    \<and> intr_get (cpus u h) = intr_get (cpus s h)"
proof -
  have inv: "smp_inv s" by (rule spin.inv_reachable[OF assms(1)])
  then have o: "owners_ok s" and i: "intr_ok s h" by (simp_all add: smp_inv_def)
  have "locked (locks s l) = 0" using o assms(3) unfolding owners_ok_def by blast
  note free = this free_cpu[OF o this]
  note ev = exec1_def call_acquire_def call_release_def goto_def upd_spin_def funpow_Suc_right numeral_eq_Suc
  have t: "t = s\<lparr>locks := (locks s)(l := (locks s l)\<lparr>locked := 1, lock_cpu := Some h\<rparr>),
      cpus := (cpus s)(h := push_off (cpus s h))\<rparr>"
    using free assms(2) unfolding t_def by (simp add: ev fun_upd_idem)
  have off: "\<not> intr_get (push_off (cpus s h))" "noff (push_off (cpus s h)) = noff (cpus s h) + 1"
    by (simp_all add: push_off_def Let_def)
  obtain c where c: "pop_off (push_off (cpus s h)) = Ok () c" "noff c = noff (cpus s h)"
    "intr_get c = intr_get (cpus s h)"
    using push_pop[of "cpus s h"] i by (auto simp: intr_ok_def)
  have u: "u = s\<lparr>locks := (locks s)(l := (locks s l)\<lparr>locked := 0, lock_cpu := None\<rparr>), cpus := (cpus s)(h := c)\<rparr>"
    using free assms(2) c(1) unfolding u_def t by (simp add: ev fun_upd_idem)
  show ?thesis using t u off(1) c assms(2) assms(3)[of h] by (auto simp: owns_def)
qed

theorem acquire_release_restore_witness:
  "let t = (exec1 0 ^^ 3) (call_acquire 0 L_kmem idle_smp); u = (exec1 0 ^^ 5) (call_release 0 L_kmem t) in
    pcs t 0 = Run \<and> view t 0 = {L_kmem} \<and> \<not> intr_get (cpus t 0)
    \<and> pcs u 0 = Run \<and> view u 0 = {} \<and> noff (cpus u 0) = 0 \<and> intr_get (cpus u 0)"
proof -
  have v: "view idle_smp 0 = {}" and n: "noff (cpus idle_smp 0) = 0" "intr_get (cpus idle_smp 0)"
    and run: "pcs idle_smp 0 = Run" and free: "\<And>k. \<not> owns idle_smp k L_kmem"
    by (simp_all add: owns_def idle_smp_def initlock_def)
  show ?thesis
    using acquire_release_restore[OF start[of booted idle_smp step, OF idle_booted] run free]
    unfolding Let_def v n(1) using n(2) by simp
qed

end
