(* ===== verification/Frame.thy ===== *)
theory Frame
  imports Proc
begin

text \<open>
  What kernel code leaves alone. \<open>stays v b m\<close>: whether the code \<open>m\<close> returns or goes to sleep, the part \<open>v\<close> of the
  state has the value \<open>b\<close> there. The rules \<open>stays\<close> follow the structure of the code; each routine adds
  its own. \<open>base s\<close> is the state without memory and the free list, which the routines of
  \<^verbatim>\<open>kalloc.c\<close> and \<^verbatim>\<open>vm.c\<close> keep whatever the page tables look like; \<open>rest s\<close> is without the process
  table and the locks as well, which sleeping and waking keep.
\<close>

section \<open>Views of the state that code keeps\<close>

named_theorems stays

fun stays :: "('s \<Rightarrow> 'v) \<Rightarrow> 'v \<Rightarrow> ('a, 's) outcome \<Rightarrow> bool" where
  "stays v b (Ok r t) = (v t = b)"
| "stays v b (Block t) = (v t = b)"
| "stays v b (Panic m) = True"
| "stays v b Fault = True"

lemma stays_Ok [stays]: "v t = b \<Longrightarrow> stays v b (Ok r t)"
  by simp

lemma stays_Block [stays]: "v t = b \<Longrightarrow> stays v b (Block t)"
  by simp

lemma stays_stop [stays]: "stays v b (Panic m)" "stays v b Fault"
  by simp_all

lemma stays_bind [stays]:
  "stays v b m \<Longrightarrow> (\<And>r t. v t = b \<Longrightarrow> stays v b (f r t)) \<Longrightarrow> stays v b (bind m f)"
  by (cases m) auto

lemma stays_bind_via:
  "stays w c m \<Longrightarrow> (\<And>t. w t = c \<Longrightarrow> v t = b) \<Longrightarrow> (\<And>r t. w t = c \<Longrightarrow> stays v b (f r t)) \<Longrightarrow> stays v b (bind m f)"
  by (cases m) auto

lemma stays_if [stays]: "(c \<Longrightarrow> stays v b m) \<Longrightarrow> (\<not> c \<Longrightarrow> stays v b n) \<Longrightarrow> stays v b (if c then m else n)"
  by simp

lemma stays_case_option [stays]:
  "stays v b m \<Longrightarrow> (\<And>x. stays v b (f x)) \<Longrightarrow> stays v b (case o' of None \<Rightarrow> m | Some x \<Rightarrow> f x)"
  by (cases o') auto

lemma stays_case_prod [stays]: "(\<And>x y. stays v b (f x y)) \<Longrightarrow> stays v b (case p of (x, y) \<Rightarrow> f x y)"
  by (cases p) auto

lemma stays_case_prod_fun [stays]: "(\<And>x y. stays v b (f x y t)) \<Longrightarrow> stays v b ((case p of (x, y) \<Rightarrow> f x y) t)"
  by (cases p) auto

lemma stays_foreach [stays]:
  "v s = b \<Longrightarrow> (\<And>i t. v t = b \<Longrightarrow> stays v b (body i t)) \<Longrightarrow> stays v b (foreach xs body s)"
  by (induction xs arbitrary: s) (auto intro: stays_bind)

lemma stays_scan [stays]:
  "v s = b \<Longrightarrow> (\<And>i t. v t = b \<Longrightarrow> stays v b (body i t)) \<Longrightarrow> stays v b (scan xs body s)"
  by (induction xs arbitrary: s) (auto intro!: stays_bind stays_case_option)

lemma staysD: "m = Ok r t \<Longrightarrow> stays v b m \<Longrightarrow> v t = b" "m = Block t \<Longrightarrow> stays v b m \<Longrightarrow> v t = b"
  by auto

section \<open>Memory management\<close>

definition base :: "'z kmem_scheme \<Rightarrow> 'z kmem_scheme" where
  "base s = s\<lparr>mem := (\<lambda>_. 0), freelist := 0\<rparr>"

lemma base_upd [simp]:
  "base (s\<lparr>mem := m\<rparr>) = base s" "base (s\<lparr>freelist := f\<rparr>) = base s"
  by (simp_all add: base_def)

lemma base_fields:
  fixes s t :: "'z kproc_scheme"
  assumes "base t = base s"
  shows "held t = held s" "kend t = kend s" "procs t = procs s" "cur t = cur s" "ticks t = ticks s" "tframes t = tframes s"
    "nextpid t = nextpid s" "initproc t = initproc s" "kout t = kout s" "kproc.more t = kproc.more s"
  using arg_cong[OF assms, of held] arg_cong[OF assms, of kend] arg_cong[OF assms, of procs] arg_cong[OF assms, of cur]
    arg_cong[OF assms, of ticks] arg_cong[OF assms, of tframes] arg_cong[OF assms, of nextpid]
    arg_cong[OF assms, of initproc] arg_cong[OF assms, of kout] arg_cong[OF assms, of kproc.more]
  by (simp_all add: base_def)

lemma kalloc_base [stays]: "base s = b \<Longrightarrow> stays base b (kalloc s)"
  by (auto simp: kalloc_def acquire_def release_def Let_def base_def)

lemma kfree_base [stays]: "base s = b \<Longrightarrow> stays base b (kfree p s)"
  by (auto simp: kfree_def acquire_def release_def Let_def base_def)

lemma walk_level_base [stays]: "base s = b \<Longrightarrow> stays base b (walk_level n pt va al s)"
proof (induction n arbitrary: pt s)
  case (Suc n)
  show ?case unfolding walk_level.simps Let_def by (intro stays Suc.IH) (simp_all add: Suc.prems)
qed simp

lemma walk_base [stays]: "base s = b \<Longrightarrow> stays base b (walk pt va al s)"
  unfolding walk_def by (intro stays)

lemma walkaddr_base [stays]: "base s = b \<Longrightarrow> stays base b (walkaddr pt va s)"
  unfolding walkaddr_def by (intro stays)

lemma mappages_loop_base [stays]: "base s = b \<Longrightarrow> stays base b (mappages_loop n pt a e pa perm s)"
proof (induction n arbitrary: a pa s)
  case (Suc n)
  show ?case unfolding mappages_loop.simps Let_def by (intro stays Suc.IH) (simp_all add: Suc.prems)
qed simp

lemma mappages_base [stays]: "base s = b \<Longrightarrow> stays base b (mappages pt va siz pa perm s)"
  unfolding mappages_def by (intro stays)

lemma uvmunmap_loop_base [stays]: "base s = b \<Longrightarrow> stays base b (uvmunmap_loop n pt a e fr s)"
proof (induction n arbitrary: a s)
  case (Suc n)
  show ?case unfolding uvmunmap_loop.simps by (intro stays Suc.IH) (simp_all add: Suc.prems)
qed simp

lemma uvmunmap_base [stays]: "base s = b \<Longrightarrow> stays base b (uvmunmap pt va n fr s)"
  unfolding uvmunmap_def by (intro stays)

lemma ismapped_base [stays]: "base s = b \<Longrightarrow> stays base b (ismapped pt va s)"
  unfolding ismapped_def by (intro stays)

lemma myproc_stays [stays]: "v s = b \<Longrightarrow> stays v b (myproc s)"
  unfolding myproc_def by (intro stays)

lemma vmfault_base [stays]: "base s = b \<Longrightarrow> stays base b (vmfault pt va s)"
  unfolding vmfault_def Let_def by (intro stays; (assumption | simp))

lemma copyout_base [stays]: "base s = b \<Longrightarrow> stays base b (copyout pt va src s)"
proof (induction "length src" arbitrary: va src s rule: less_induct)
  case less
  show ?case
  proof (cases "src = []")
    case True
    then show ?thesis using less.prems by (simp add: copyout.simps)
  next
    case False
    then have "length (drop (min (room va) (length src)) src) < length src" by simp
    note IH = less.hyps[OF this]
    show ?thesis unfolding copyout.simps[of pt va src s] Let_def by (intro stays IH) (simp_all add: less.prems)
  qed
qed

lemma copyin_base [stays]: "base s = b \<Longrightarrow> stays base b (copyin pt va n s)"
proof (induction n arbitrary: va s rule: less_induct)
  case (less n)
  show ?case
  proof (cases "n = 0")
    case True
    then show ?thesis using less.prems by (simp add: copyin.simps)
  next
    case False
    then have "n - min (room va) n < n" by simp
    note IH = less.IH[OF this]
    show ?thesis unfolding copyin.simps[of pt va n s] Let_def by (intro stays IH) (simp_all add: less.prems)
  qed
qed

section \<open>Processes\<close>

definition rest :: "'z kproc_scheme \<Rightarrow> 'z kproc_scheme" where
  "rest s = s\<lparr>mem := (\<lambda>_. 0), freelist := 0, held := {}, procs := (\<lambda>_. undefined), cur := None\<rparr>"

lemma rest_upd [simp]:
  "rest (s\<lparr>mem := m\<rparr>) = rest s" "rest (s\<lparr>freelist := f\<rparr>) = rest s" "rest (s\<lparr>held := h\<rparr>) = rest s"
  "rest (s\<lparr>procs := P\<rparr>) = rest s" "rest (s\<lparr>cur := c\<rparr>) = rest s" "rest (upd_proc p g s) = rest s"
  by (simp_all add: rest_def upd_proc_def)

lemma stays_factor:
  assumes "stays u (u s) m" "\<And>t. u t = u s \<Longrightarrow> v t = v s"
  shows "stays v (v s) m"
proof (cases m)
  case (Ok r t)
  then show ?thesis using assms(1) assms(2)[of t] by simp
next
  case (Block t)
  then show ?thesis using assms(1) assms(2)[of t] by simp
qed simp_all

lemma rest_base:
  assumes "stays base (base s) m" "rest s = b"
  shows "stays rest b m"
  unfolding assms(2)[symmetric]
proof (rule stays_factor[OF assms(1)])
  fix t assume "base t = base s"
  then have "rest (base t) = rest (base s)" by simp
  then show "rest t = rest s" by (simp add: base_def)
qed

lemmas rest_vm [stays] =
  rest_base[OF kalloc_base[OF refl]] rest_base[OF kfree_base[OF refl]] rest_base[OF walk_base[OF refl]]
  rest_base[OF mappages_base[OF refl]] rest_base[OF uvmunmap_base[OF refl]] rest_base[OF vmfault_base[OF refl]]
  rest_base[OF copyout_base[OF refl]] rest_base[OF copyin_base[OF refl]]

lemma rest_locks [stays]:
  "rest s = b \<Longrightarrow> stays rest b (acquire l s)" "rest s = b \<Longrightarrow> stays rest b (release l s)"
  by (simp_all add: acquire_def release_def)

lemma rest_killed [stays]: "rest s = b \<Longrightarrow> stays rest b (killed p s)"
  unfolding killed_def Let_def by (intro stays)

lemma rest_wakeup [stays]: "rest s = b \<Longrightarrow> stays rest b (wakeup ch s)"
  unfolding wakeup_def Let_def by (intro stays) (simp_all split: if_splits)

lemma rest_sched [stays]: "rest s = b \<Longrightarrow> stays rest b (sched s)"
  unfolding sched_def scheduler_return_def Let_def by (intro stays) simp_all

lemma rest_sleep [stays]: "rest s = b \<Longrightarrow> stays rest b (sleep ch l s)"
  unfolding sleep_def Let_def by (intro stays) simp_all

text \<open>A part of the state that does not depend on memory, locks and processes is kept by what keeps the rest.\<close>

lemma stays_rest:
  assumes "stays rest (rest s) m" "\<And>t. v (rest t) = v t"
  shows "stays v (v s) m"
proof (rule stays_factor[OF assms(1)])
  fix t assume "rest t = rest s"
  then have "v (rest t) = v (rest s)" by simp
  then show "v t = v s" by (simp only: assms(2))
qed

text \<open>A copy that succeeds has all its bytes.\<close>

lemma copyin_length: "copyin pt va n s = Ok (r, bs) t \<Longrightarrow> r \<noteq> -1 \<Longrightarrow> length bs = n"
proof (induction n arbitrary: va s bs t rule: less_induct)
  case (less n)
  show ?case
  proof (cases "n = 0")
    case True
    then show ?thesis using less.prems by (simp add: copyin.simps)
  next
    case False
    obtain pa' s2 bs' where *: "copyin pt (PGROUNDDOWN va + PGSIZE) (n - min (room va) n) s2 = Ok (r, bs') t"
      "bs = read_bytes (mem s2) (pa' + (va - PGROUNDDOWN va)) (min (room va) n) @ bs'"
      using less.prems False unfolding copyin.simps[of pt va n s] Let_def bind_eq_Ok
      by (clarsimp simp: bind_eq_Ok split: if_splits)
    have "n - min (room va) n < n" using False by simp
    from less.IH[OF this *(1) less.prems(2)] have "length bs' = n - min (room va) n" .
    then show ?thesis unfolding *(2) length_append length_read_bytes by simp
  qed
qed

end
