(* ===== verification/Procprops.thy ===== *)
theory Procprops
  imports Proc Vmprops
begin

text \<open>
  What sleeping, waking, scheduling and killing do to the process table, and that a process that
  sleeps is woken by exactly the wakeups on its channel.
\<close>

section \<open>Loops over the table\<close>

text \<open>A \<^const>\<open>foreach\<close> whose body succeeds in every state that satisfies an invariant is a fold.\<close>

lemma foreach_inv:
  assumes "\<And>i s. i \<in> set xs \<Longrightarrow> I s \<Longrightarrow> body i s = Ok () (step i s) \<and> I (step i s)" "I s"
  shows "foreach xs body s = Ok () (fold step xs s) \<and> I (fold step xs s)"
  using assms by (induction xs arbitrary: s) auto

lemma record_triv [simp]:
  "held s = H \<Longrightarrow> s\<lparr>held := H\<rparr> = s" "procs t = P \<Longrightarrow> t\<lparr>procs := P\<rparr> = t"
  by auto

lemma upd_proc_eq: "upd_proc p f s = s\<lparr>procs := (procs s)(p := f (procs s p))\<rparr>"
  by (simp add: upd_proc_def)

section \<open>Wakeup\<close>

definition wake :: "chan \<Rightarrow> nat option \<Rightarrow> nat \<Rightarrow> proc \<Rightarrow> proc" where
  "wake ch c p q = (if c \<noteq> Some p \<and> state q = SLEEPING \<and> chan q = Some ch then q\<lparr>state := RUNNABLE\<rparr> else q)"

definition woken :: "chan \<Rightarrow> 'z kproc_scheme \<Rightarrow> nat \<Rightarrow> proc" where
  "woken ch s p = (if p < NPROC then wake ch (cur s) p (procs s p) else procs s p)"

lemma wake_fields [simp]:
  "chan (wake ch c p q) = chan q" "killed_flag (wake ch c p q) = killed_flag q" "xstate (wake ch c p q) = xstate q"
  "pid (wake ch c p q) = pid q" "parent (wake ch c p q) = parent q" "kstack (wake ch c p q) = kstack q"
  "sz (wake ch c p q) = sz q" "pagetable (wake ch c p q) = pagetable q" "trapframe (wake ch c p q) = trapframe q"
  "ofile (wake ch c p q) = ofile q" "cwd (wake ch c p q) = cwd q" "is_thread (wake ch c p q) = is_thread q"
  "pname (wake ch c p q) = pname q"
  by (simp_all add: wake_def)

lemma woken_fields [simp]:
  "chan (woken ch s p) = chan (procs s p)" "killed_flag (woken ch s p) = killed_flag (procs s p)"
  "xstate (woken ch s p) = xstate (procs s p)" "pid (woken ch s p) = pid (procs s p)"
  "parent (woken ch s p) = parent (procs s p)" "kstack (woken ch s p) = kstack (procs s p)"
  "sz (woken ch s p) = sz (procs s p)" "pagetable (woken ch s p) = pagetable (procs s p)"
  "trapframe (woken ch s p) = trapframe (procs s p)" "ofile (woken ch s p) = ofile (procs s p)"
  "cwd (woken ch s p) = cwd (procs s p)" "is_thread (woken ch s p) = is_thread (procs s p)"
  "pname (woken ch s p) = pname (procs s p)"
  by (simp_all add: woken_def)

lemma woken_cur [simp]: "cur s = Some p \<Longrightarrow> woken ch s p = procs s p"
  by (simp add: woken_def wake_def)

lemma fold_wake:
  "fold (\<lambda>p s. upd_proc p (wake ch (cur s) p) s) xs s
    = s\<lparr>procs := (\<lambda>p. if p \<in> set xs then wake ch (cur s) p (procs s p) else procs s p)\<rparr>"
proof (induction xs arbitrary: s)
  case (Cons x xs)
  have "wake ch (cur s) x (wake ch (cur s) x (procs s x)) = wake ch (cur s) x (procs s x)"
    by (simp add: wake_def)
  then have "(\<lambda>p. if p \<in> set xs then wake ch (cur s) p (((procs s)(x := wake ch (cur s) x (procs s x))) p)
        else ((procs s)(x := wake ch (cur s) x (procs s x))) p)
    = (\<lambda>p. if p \<in> set (x # xs) then wake ch (cur s) p (procs s p) else procs s p)"
    by (auto simp: fun_eq_iff)
  then show ?case
    unfolding fold.simps comp_def Cons.IH unfolding upd_proc_other upd_proc_procs
    by (simp add: upd_proc_def)
qed simp

lemma wakeup_eq:
  assumes "\<And>p. p < NPROC \<Longrightarrow> cur s \<noteq> Some p \<Longrightarrow> L_proc p \<notin> held s"
  shows "wakeup ch s = Ok () (s\<lparr>procs := woken ch s\<rparr>)"
proof -
  let ?I = "\<lambda>t. cur t = cur s \<and> held t = held s"
  have "foreach [0..<NPROC] (\<lambda>p s. if cur s \<noteq> Some p then
       bind (acquire (L_proc p) s) (\<lambda>_ s.
       let s = (if state (procs s p) = SLEEPING \<and> chan (procs s p) = Some ch
                then upd_proc p (\<lambda>q. q\<lparr>state := RUNNABLE\<rparr>) s else s) in
       release (L_proc p) s) else Ok () s) s
    = Ok () (fold (\<lambda>p s. upd_proc p (wake ch (cur s) p) s) [0..<NPROC] s) \<and> ?I (fold (\<lambda>p s. upd_proc p (wake ch (cur s) p) s) [0..<NPROC] s)"
  proof (rule foreach_inv[where I = ?I])
    fix p t
    assume "p \<in> set [0..<NPROC]" "?I t"
    then show "(if cur t \<noteq> Some p then
       bind (acquire (L_proc p) t) (\<lambda>_ s.
       let s = (if state (procs s p) = SLEEPING \<and> chan (procs s p) = Some ch
                then upd_proc p (\<lambda>q. q\<lparr>state := RUNNABLE\<rparr>) s else s) in
       release (L_proc p) s) else Ok () t) = Ok () (upd_proc p (wake ch (cur t) p) t)
      \<and> ?I (upd_proc p (wake ch (cur t) p) t)"
      using assms[of p] by (auto simp: wake_def upd_proc_eq Let_def)
  qed simp
  then show ?thesis
    unfolding wakeup_def fold_wake by (simp add: woken_def fun_eq_iff)
qed

section \<open>Sleep\<close>

lemma sleep_eq:
  assumes "cur s = Some p" "held s = {lk}" "lk \<noteq> L_proc p"
  shows "sleep ch lk s = Block (s\<lparr>procs := (procs s)(p := (procs s p)\<lparr>chan := Some ch, state := SLEEPING\<rparr>),
    cur := None, held := {}\<rparr>)"
  using assms by (auto simp: sleep_def sched_def scheduler_return_def Let_def upd_proc_eq)

lemma scheduler_try_runnable:
  assumes "state (procs s p) = RUNNABLE" "L_proc p \<notin> held s"
  shows "scheduler_try p s = Ok True (s\<lparr>held := insert (L_proc p) (held s),
    procs := (procs s)(p := (procs s p)\<lparr>state := RUNNING\<rparr>), cur := Some p\<rparr>)"
  using assms by (simp add: scheduler_try_def upd_proc_eq)

text \<open>
  C17. A process that sleeps on a channel with only its condition lock held releases the lock and
  the hart and stays asleep through any other wakeup; the next wakeup on the channel makes
  it runnable, and when the scheduler has picked it, it continues with the lock
  held again and nothing of its own changed. With another lock held, \<^verbatim>\<open>sleep\<close> panics.
\<close>

theorem sleep_wakeup_roundtrip:
  assumes "cur s = Some p" "p < NPROC" "lk \<in> held s" "lk \<noteq> L_proc p" "L_proc p \<notin> held s" "ch' \<noteq> ch"
  shows "(held s \<noteq> {lk} \<longrightarrow> sleep ch lk s = (Panic ''sched locks'' :: (unit, 'z kproc_scheme) outcome))
    \<and> (held s = {lk} \<longrightarrow> (\<exists>a b c d e. (sleep ch lk s :: (unit, 'z kproc_scheme) outcome) = Block a \<and> held a = {} \<and> cur a = None
      \<and> wakeup ch' a = Ok () b \<and> state (procs b p) = SLEEPING
      \<and> wakeup ch b = Ok () c \<and> scheduler_try p c = Ok True d
      \<and> sleep_return lk d = Ok () e \<and> held e = {lk} \<and> cur e = Some p
      \<and> procs e p = (procs s p)\<lparr>state := RUNNING, chan := None\<rparr>))"
proof (intro conjI impI)
  assume "held s \<noteq> {lk}"
  then obtain l where "l \<in> held s" "l \<noteq> lk" using assms(3) by (metis insertI1 subset_singleton_iff subsetI singletonD empty_iff)
  then have "l \<in> insert (L_proc p) (held s) - {lk}" "l \<noteq> L_proc p" using assms(5) by auto
  then have "insert (L_proc p) (held s) - {lk} \<noteq> {L_proc p}" by (metis singletonD)
  then show "sleep ch lk s = Panic ''sched locks''"
    using assms(1,3,4,5) by (simp add: sleep_def sched_def Let_def upd_proc_eq)
next
  assume one: "held s = {lk}"
  define a where "a = s\<lparr>procs := (procs s)(p := (procs s p)\<lparr>chan := Some ch, state := SLEEPING\<rparr>),
    cur := None, held := {}\<rparr>"
  define b where "b = a\<lparr>procs := woken ch' a\<rparr>"
  define c where "c = b\<lparr>procs := woken ch b\<rparr>"
  have a: "sleep ch lk s = (Block a :: (unit, 'z kproc_scheme) outcome)" "held a = {}" "cur a = None"
    "procs a p = (procs s p)\<lparr>chan := Some ch, state := SLEEPING\<rparr>"
    using assms one by (simp_all add: sleep_eq a_def)
  have b: "wakeup ch' a = Ok () b" "held b = {}" "cur b = None" "procs b p = procs a p"
    using a assms(6) by (auto simp: wakeup_eq b_def woken_def wake_def)
  have c: "wakeup ch b = Ok () c" "held c = {}" "procs c p = (procs a p)\<lparr>state := RUNNABLE\<rparr>"
    using b a assms(2) by (auto simp: wakeup_eq c_def woken_def wake_def)
  define d where "d = c\<lparr>held := {L_proc p}, procs := (procs c)(p := (procs c p)\<lparr>state := RUNNING\<rparr>), cur := Some p\<rparr>"
  define e where "e = c\<lparr>held := {lk}, procs := (procs c)(p := (procs c p)\<lparr>state := RUNNING, chan := None\<rparr>), cur := Some p\<rparr>"
  have d: "scheduler_try p c = Ok True d"
    using c by (simp add: scheduler_try_runnable d_def)
  have e: "sleep_return lk d = Ok () e"
    using assms(4) by (simp add: sleep_return_def Let_def upd_proc_eq d_def e_def)
  have fin: "held e = {lk}" "cur e = Some p" "procs e p = (procs s p)\<lparr>state := RUNNING, chan := None\<rparr>"
    "state (procs b p) = SLEEPING"
    using a(4) b(4) c(3) by (simp_all add: e_def)
  show "\<exists>a b c d e. (sleep ch lk s :: (unit, 'z kproc_scheme) outcome) = Block a \<and> held a = {} \<and> cur a = None
      \<and> wakeup ch' a = Ok () b \<and> state (procs b p) = SLEEPING
      \<and> wakeup ch b = Ok () c \<and> scheduler_try p c = Ok True d
      \<and> sleep_return lk d = Ok () e \<and> held e = {lk} \<and> cur e = Some p
      \<and> procs e p = (procs s p)\<lparr>state := RUNNING, chan := None\<rparr>"
    by (intro exI[of _ a] exI[of _ b] exI[of _ c] exI[of _ d] exI[of _ e] conjI a b(1) c(1) d e fin)
qed

theorem sleep_wakeup_roundtrip_witness:
  "\<exists>a b c d e. (sleep Ch_ticks L_ticks (small_proc\<lparr>held := {L_ticks}\<rparr>) :: (unit, kproc) outcome) = Block a \<and> held a = {}
      \<and> cur a = None \<and> wakeup Ch_log a = Ok () b \<and> state (procs b 0) = SLEEPING
      \<and> wakeup Ch_ticks b = Ok () c \<and> scheduler_try 0 c = Ok True d
      \<and> sleep_return L_ticks d = Ok () e \<and> held e = {L_ticks} \<and> cur e = Some 0
      \<and> procs e 0 = (procs small_proc 0)\<lparr>state := RUNNING, chan := None\<rparr>"
proof -
  let ?s = "small_proc\<lparr>held := {L_ticks}\<rparr>"
  have "cur ?s = Some 0" "held ?s = {L_ticks}" "procs ?s = procs small_proc"
    by (simp_all add: small_proc_def)
  then show ?thesis
    using sleep_wakeup_roundtrip[of ?s 0 L_ticks Ch_log Ch_ticks] by simp
qed

text \<open>
  C18. A wakeup makes runnable exactly the processes asleep on its channel, the caller apart, and
  changes nothing else; two wakeups on one channel do no more than one.
\<close>

theorem wakeup_exact:
  assumes "\<And>p. p < NPROC \<Longrightarrow> cur s \<noteq> Some p \<Longrightarrow> L_proc p \<notin> held s"
  shows "wakeup ch s = Ok () (s\<lparr>procs := (\<lambda>p.
      if p < NPROC \<and> cur s \<noteq> Some p \<and> state (procs s p) = SLEEPING \<and> chan (procs s p) = Some ch
      then (procs s p)\<lparr>state := RUNNABLE\<rparr> else procs s p)\<rparr>)
    \<and> bind (wakeup ch s) (\<lambda>_. wakeup ch) = wakeup ch s"
proof -
  have "wakeup ch (s\<lparr>procs := woken ch s\<rparr>) = Ok () (s\<lparr>procs := woken ch s\<rparr>)"
    using assms by (subst wakeup_eq) (auto simp: woken_def wake_def fun_eq_iff)
  moreover have "woken ch s = (\<lambda>p.
      if p < NPROC \<and> cur s \<noteq> Some p \<and> state (procs s p) = SLEEPING \<and> chan (procs s p) = Some ch
      then (procs s p)\<lparr>state := RUNNABLE\<rparr> else procs s p)"
    by (auto simp: woken_def wake_def fun_eq_iff)
  ultimately show ?thesis using wakeup_eq[OF assms] by simp
qed

theorem wakeup_exact_witness:
  "wakeup Ch_ticks (small_proc\<lparr>procs := (procs small_proc)(3 := plain_proc\<lparr>state := SLEEPING, chan := Some Ch_ticks\<rparr>)\<rparr>)
    = Ok () (small_proc\<lparr>procs := (procs small_proc)(3 := plain_proc\<lparr>state := RUNNABLE, chan := Some Ch_ticks\<rparr>)\<rparr>)"
proof -
  let ?s = "small_proc\<lparr>procs := (procs small_proc)(3 := plain_proc\<lparr>state := SLEEPING, chan := Some Ch_ticks\<rparr>)\<rparr>"
  have "L_proc p \<notin> held ?s" for p by (simp add: small_proc_def)
  note wakeup_exact[of ?s Ch_ticks, OF this]
  moreover have "(\<lambda>p. if p < NPROC \<and> cur ?s \<noteq> Some p \<and> state (procs ?s p) = SLEEPING \<and> chan (procs ?s p) = Some Ch_ticks
      then (procs ?s p)\<lparr>state := RUNNABLE\<rparr> else procs ?s p)
    = (procs small_proc)(3 := plain_proc\<lparr>state := RUNNABLE, chan := Some Ch_ticks\<rparr>)"
    by (auto simp: fun_eq_iff small_proc_def plain_proc_def)
  ultimately show ?thesis by simp
qed

section \<open>Kill\<close>

lemma kkill_eq:
  assumes "\<And>p. p < NPROC \<Longrightarrow> L_proc p \<notin> held s"
  shows "kkill n s = (case find (\<lambda>p. pid (procs s p) = n) [0..<NPROC] of
      None \<Rightarrow> Ok (-1) s
    | Some p \<Rightarrow> Ok 0 (s\<lparr>procs := (procs s)(p := (procs s p)\<lparr>killed_flag := 1,
        state := (if state (procs s p) = SLEEPING then RUNNABLE else state (procs s p))\<rparr>)\<rparr>))"
  unfolding kkill_def
  by (subst scan_first[where P = "\<lambda>p. pid (procs s p) = n" and act = "\<lambda>p s. Ok 0 (s\<lparr>procs := (procs s)(p := (procs s p)\<lparr>killed_flag := 1,
        state := (if state (procs s p) = SLEEPING then RUNNABLE else state (procs s p))\<rparr>)\<rparr>)"])
    (auto simp: assms Let_def upd_proc_eq split: option.split)



end
