(* ===== verification/Bioprops.thy ===== *)
theory Bioprops
  imports Bio Procprops
begin

text \<open>
  Correctness of the buffer cache: the recency list stays a ring through all buffers, a block is
  cached in at most one buffer, and a process that reads a block gets, locked, the buffer
  with the block's current content.
\<close>

section \<open>The recency list\<close>

text \<open>\<open>path f a xs z\<close>: following \<open>f\<close> from \<open>a\<close> leads through \<open>xs\<close> to \<open>z\<close>.\<close>

primrec path :: "(nat \<Rightarrow> nat) \<Rightarrow> nat \<Rightarrow> nat list \<Rightarrow> nat \<Rightarrow> bool" where
  "path f a [] z = (f a = z)"
| "path f a (x # xs) z = (f a = x \<and> path f x xs z)"

lemma path_append: "path f a (xs @ y # ys) z \<longleftrightarrow> path f a xs y \<and> path f y ys z"
  by (induction xs arbitrary: a) auto

lemma path_upd [simp]: "y \<notin> insert a (set xs) \<Longrightarrow> path (f(y := v)) a xs z = path f a xs z"
  by (induction xs arbitrary: a) auto

definition links :: "(nat \<Rightarrow> nat) \<Rightarrow> (nat \<Rightarrow> nat) \<Rightarrow> nat list \<Rightarrow> bool" where
  "links nf pf xs \<longleftrightarrow> path nf head xs head \<and> path pf head (rev xs) head \<and> distinct xs \<and> head \<notin> set xs"

definition ring :: "(nat \<Rightarrow> buf) \<Rightarrow> nat list \<Rightarrow> bool" where
  "ring bs xs \<longleftrightarrow> links (\<lambda>b. nxt (bs b)) (\<lambda>b. prev (bs b)) xs \<and> set xs = {..<NBUF}"

lemma links_unlink:
  assumes "links nf pf (xs @ b # ys)"
  shows "links (nf(pf b := nf b)) (pf(nf b := pf b)) (xs @ ys)"
proof -
  have n: "path nf head xs b" "path nf b ys head" and p: "path pf head (rev ys) b" "path pf b (rev xs) head"
    and d: "distinct (xs @ b # ys)" "head \<notin> set (xs @ b # ys)"
    using assms by (simp_all add: links_def path_append)
  have nb: "nf b = (case ys of [] \<Rightarrow> head | y # _ \<Rightarrow> y)" using n(2) by (cases ys) auto
  have pb: "pf b = (case rev xs of [] \<Rightarrow> head | y # _ \<Rightarrow> y)" using p(2) by (cases "rev xs") auto
  have fwd: "path (nf(pf b := nf b)) head (xs @ ys) head"
  proof (cases xs rule: rev_cases)
    case Nil
    then show ?thesis using n(2) d pb by (cases ys) auto
  next
    case (snoc us u)
    then show ?thesis using n d pb by (cases ys) (auto simp: path_append)
  qed
  have bwd: "path (pf(nf b := pf b)) head (rev ys @ rev xs) head"
  proof (cases ys)
    case Nil
    then show ?thesis using p d nb by (cases "rev xs") auto
  next
    case (Cons u us)
    have "path pf head (rev us) u" "pf u = b" using p(1) Cons by (simp_all add: path_append)
    then show ?thesis using p(2) d nb Cons by (cases "rev xs") (auto simp: path_append)
  qed
  show ?thesis using fwd bwd d by (auto simp: links_def)
qed

lemma links_front:
  assumes "links nf pf xs" "b \<notin> set xs" "b \<noteq> head"
  shows "links (nf(b := nf head, head := b)) (pf(b := head, nf head := b)) (b # xs)"
proof (cases xs)
  case Nil
  then show ?thesis using assms by (auto simp: links_def)
next
  case (Cons u us)
  have "path nf u us head" "nf head = u" "path pf head (rev us) u" "pf u = head"
    using assms(1) Cons by (auto simp: links_def path_append)
  then show ?thesis using assms Cons by (auto simp: links_def path_append)
qed

text \<open>The effect of the pointer assignments on the two link functions.\<close>

lemma link_front_fields:
  assumes "b \<noteq> head"
  shows "(\<lambda>x. nxt (link_front b bs x)) = (\<lambda>x. nxt (bs x))(b := nxt (bs head), head := b)"
    and "(\<lambda>x. prev (link_front b bs x)) = (\<lambda>x. prev (bs x))(b := head, nxt (bs head) := b)"
    and "valid (link_front b bs x) = valid (bs x)" "dev (link_front b bs x) = dev (bs x)"
    "blockno (link_front b bs x) = blockno (bs x)" "b_refcnt (link_front b bs x) = b_refcnt (bs x)"
    "data (link_front b bs x) = data (bs x)"
  using assms by (auto simp: link_front_def Let_def fun_eq_iff)

lemma unlink_buf_fields:
  assumes "nxt (bs b) \<noteq> b"
  shows "(\<lambda>x. nxt (unlink_buf b bs x)) = (\<lambda>x. nxt (bs x))(prev (bs b) := nxt (bs b))"
    and "(\<lambda>x. prev (unlink_buf b bs x)) = (\<lambda>x. prev (bs x))(nxt (bs b) := prev (bs b))"
    and "valid (unlink_buf b bs x) = valid (bs x)" "dev (unlink_buf b bs x) = dev (bs x)"
    "blockno (unlink_buf b bs x) = blockno (bs x)" "b_refcnt (unlink_buf b bs x) = b_refcnt (bs x)"
    "data (unlink_buf b bs x) = data (bs x)"
  using assms by (auto simp: unlink_buf_def Let_def fun_eq_iff)

lemma links_not_self: "links nf pf (xs @ b # ys) \<Longrightarrow> nf b \<noteq> b"
  by (cases ys) (auto simp: links_def path_append)

lemma ring_to_front:
  assumes "ring bs (xs @ b # ys)"
  shows "ring (link_front b (unlink_buf b bs)) (b # xs @ ys)"
proof -
  have l: "links (\<lambda>b. nxt (bs b)) (\<lambda>b. prev (bs b)) (xs @ b # ys)" and s: "set (xs @ b # ys) = {..<NBUF}"
    using assms by (simp_all add: ring_def)
  have b: "b \<noteq> head" using arg_cong[OF s, of "\<lambda>S. b \<in> S"] by simp
  have "b \<notin> set (xs @ ys)" using l unfolding links_def by simp
  note new = links_front[OF links_unlink[OF l] this b]
  have "nxt (bs b) \<noteq> b" using links_not_self[OF l] by simp
  note u = unlink_buf_fields(1,2)[of bs b, OF this]
  have n: "nxt (unlink_buf b bs head) = ((\<lambda>x. nxt (bs x))(prev (bs b) := nxt (bs b))) head"
    using fun_cong[OF u(1), of head] by simp
  show ?thesis using new s unfolding ring_def link_front_fields(1,2)[OF b] u n by auto
qed

lemma ring_cong:
  assumes "\<And>b. nxt (bs' b) = nxt (bs b)" "\<And>b. prev (bs' b) = prev (bs b)"
  shows "ring bs' xs = ring bs xs"
  using assms by (simp add: ring_def)

subsection \<open>Searching\<close>

lemma search_path:
  assumes "path (\<lambda>b. f (bs b)) a xs head" "head \<notin> set xs" "length xs < n"
  shows "search n f test bs (f (bs a)) = Some (find (\<lambda>b. test (bs b)) xs)"
  using assms
proof (induction xs arbitrary: a n)
  case Nil
  then show ?case by (cases n) auto
next
  case (Cons x xs)
  then obtain k where "n = Suc k" by (cases n) auto
  then show ?case using Cons by auto
qed

lemma ring_search:
  assumes "ring bs xs"
  shows "search (NBUF + 1) nxt test bs (nxt (bs head)) = Some (find (\<lambda>b. test (bs b)) xs)"
    and "search (NBUF + 1) prev test bs (prev (bs head)) = Some (find (\<lambda>b. test (bs b)) (rev xs))"
proof -
  have l: "links (\<lambda>b. nxt (bs b)) (\<lambda>b. prev (bs b)) xs" "set xs = {..<NBUF}" "distinct xs"
    using assms by (auto simp: ring_def links_def)
  then have "length xs = NBUF" using distinct_card[of xs] by simp
  then show "search (NBUF + 1) nxt test bs (nxt (bs head)) = Some (find (\<lambda>b. test (bs b)) xs)"
    "search (NBUF + 1) prev test bs (prev (bs head)) = Some (find (\<lambda>b. test (bs b)) (rev xs))"
    using l(1) by (auto simp: links_def intro!: search_path)
qed

section \<open>The invariant\<close>

text \<open>
  \<open>bcache_ok d p K s\<close>: the cache serves device \<open>d\<close>, the current process \<open>p\<close> has locked the buffers
  \<open>K\<close>, and every buffer nobody refers to is unlocked and, when valid, as on disk. \<open>content\<close> is what
  a block of the device holds, in the cache or else on disk.
\<close>

definition cached :: "u32 \<Rightarrow> 'z kbio_scheme \<Rightarrow> u32 \<Rightarrow> nat \<Rightarrow> bool" where
  "cached d s n b \<longleftrightarrow> b < NBUF \<and> dev (bufs s b) = d \<and> blockno (bufs s b) = n"

definition buf_ok :: "u32 \<Rightarrow> 'z kbio_scheme \<Rightarrow> nat \<Rightarrow> bool" where
  "buf_ok d s b \<longleftrightarrow> (dev (bufs s b) \<noteq> d \<longrightarrow> valid (bufs s b) = 0)
     \<and> (b_refcnt (bufs s b) = 0 \<longrightarrow> sl_locked (slocks s (buf_lock b)) = 0
         \<and> (valid (bufs s b) \<noteq> 0 \<longrightarrow> data (bufs s b) = disk s (blockno (bufs s b))))"

definition lock_ok :: "nat \<Rightarrow> 'z kbio_scheme \<Rightarrow> nat \<Rightarrow> bool" where
  "lock_ok p s b \<longleftrightarrow> b < NBUF \<and> sl_locked (slocks s (buf_lock b)) \<noteq> 0
     \<and> sl_pid (slocks s (buf_lock b)) = pid (procs s p) \<and> b_refcnt (bufs s b) \<noteq> 0"

definition bcache_ok :: "u32 \<Rightarrow> nat \<Rightarrow> nat set \<Rightarrow> 'z kbio_scheme \<Rightarrow> bool" where
  "bcache_ok d p K s \<longleftrightarrow> cur s = Some p \<and> held s = {} \<and> d \<noteq> 0
     \<and> (\<exists>xs. ring (bufs s) xs)
     \<and> (\<forall>n b c. cached d s n b \<longrightarrow> cached d s n c \<longrightarrow> b = c)
     \<and> (\<forall>b<NBUF. buf_ok d s b) \<and> (\<forall>b\<in>K. lock_ok p s b)"

definition content :: "u32 \<Rightarrow> 'z kbio_scheme \<Rightarrow> u32 \<Rightarrow> u8 list" where
  "content d s n = (case find (\<lambda>b. dev (bufs s b) = d \<and> blockno (bufs s b) = n \<and> valid (bufs s b) \<noteq> 0) [0..<NBUF] of
     Some b \<Rightarrow> data (bufs s b) | None \<Rightarrow> disk s n)"

lemma bcache_okD:
  assumes "bcache_ok d p K s"
  shows "cur s = Some p" "held s = {}" "d \<noteq> 0" "b < NBUF \<Longrightarrow> buf_ok d s b" "b \<in> K \<Longrightarrow> lock_ok p s b"
    "cached d s n b \<Longrightarrow> cached d s n c \<Longrightarrow> b = c" "\<exists>xs. ring (bufs s) xs"
  using assms unfolding bcache_ok_def by blast+

lemma content_cached:
  assumes "bcache_ok d p K s" "cached d s n b" "valid (bufs s b) \<noteq> 0"
  shows "content d s n = data (bufs s b)"
proof (cases "find (\<lambda>b. dev (bufs s b) = d \<and> blockno (bufs s b) = n \<and> valid (bufs s b) \<noteq> 0) [0..<NBUF]")
  case None
  then show ?thesis using assms(2,3) by (auto simp: find_None_iff cached_def)
next
  case (Some c)
  then have "cached d s n c" by (auto simp: find_upt_Some cached_def)
  then show ?thesis using bcache_okD(6)[OF assms(1,2), of c] Some by (simp add: content_def)
qed

lemma content_absent:
  assumes "\<And>b. cached d s n b \<Longrightarrow> valid (bufs s b) = 0"
  shows "content d s n = disk s n"
proof -
  have "find (\<lambda>b. dev (bufs s b) = d \<and> blockno (bufs s b) = n \<and> valid (bufs s b) \<noteq> 0) [0..<NBUF] = None"
    using assms by (auto simp: find_None_iff cached_def)
  then show ?thesis by (simp add: content_def)
qed

lemma content_cases:
  assumes "bcache_ok d p K s"
  obtains b where "cached d s n b" "valid (bufs s b) \<noteq> 0" "content d s n = data (bufs s b)"
  | "\<And>b. cached d s n b \<Longrightarrow> valid (bufs s b) = 0" "content d s n = disk s n"
  using content_cached[OF assms] content_absent by blast

section \<open>Sleep locks\<close>

lemma acquiresleep_free:
  assumes "cur s = Some p" "held s = {}" "sl_locked (slocks s l) = 0"
  shows "acquiresleep l s = Ok () (s\<lparr>slocks := (slocks s)(l := (slocks s l)\<lparr>sl_locked := 1, sl_pid := pid (procs s p)\<rparr>)\<rparr>)"
  using assms by (simp add: acquiresleep_def acquiresleep_loop_def upd_slock_def Let_def)

lemma holdingsleep_eq:
  assumes "cur s = Some p" "held s = {}"
  shows "holdingsleep l s = Ok (sl_locked (slocks s l) \<noteq> 0 \<and> sl_pid (slocks s l) = pid (procs s p)) s"
  using assms by (simp add: holdingsleep_def)

lemma releasesleep_eq:
  assumes "cur s = Some p" "held s = {}"
  shows "releasesleep l s = Ok () (s\<lparr>procs := woken (Ch_sleeplock l) s,
    slocks := (slocks s)(l := (slocks s l)\<lparr>sl_locked := 0, sl_pid := 0\<rparr>)\<rparr>)"
proof -
  let ?s = "s\<lparr>held := {L_sleep l}, slocks := (slocks s)(l := (slocks s l)\<lparr>sl_locked := 0, sl_pid := 0\<rparr>)\<rparr>"
  have "wakeup (Ch_sleeplock l) ?s = Ok () (?s\<lparr>procs := woken (Ch_sleeplock l) ?s\<rparr>)"
    by (rule wakeup_eq) simp
  moreover have "woken (Ch_sleeplock l) ?s = woken (Ch_sleeplock l) s"
    by (simp add: woken_def fun_eq_iff)
  ultimately show ?thesis using assms by (simp add: releasesleep_def upd_slock_def Let_def)
qed

section \<open>The operations\<close>

lemma bget_hit:
  assumes "bcache_ok d p K s" "cached d s n b" "sl_locked (slocks s (buf_lock b)) = 0"
  shows "bget d n s = Ok b (s\<lparr>bufs := (bufs s)(b := (bufs s b)\<lparr>b_refcnt := b_refcnt (bufs s b) + 1\<rparr>),
    slocks := (slocks s)(buf_lock b := (slocks s (buf_lock b))\<lparr>sl_locked := 1, sl_pid := pid (procs s p)\<rparr>)\<rparr>)"
proof -
  note D = bcache_okD[OF assms(1)]
  obtain xs where ring: "ring (bufs s) xs" using D(7) by blast
  have "find (\<lambda>b. dev (bufs s b) = d \<and> blockno (bufs s b) = n) xs = Some b"
  proof (cases "find (\<lambda>b. dev (bufs s b) = d \<and> blockno (bufs s b) = n) xs")
    case None
    then show ?thesis using assms(2) ring by (auto simp: find_None_iff cached_def ring_def)
  next
    case (Some c)
    then have "c \<in> set xs" "dev (bufs s c) = d \<and> blockno (bufs s c) = n"
      by (auto simp: find_Some_iff)
    then have "cached d s n c" using ring by (auto simp: cached_def ring_def)
    then show ?thesis using D(6)[OF assms(2)] Some by simp
  qed
  then show ?thesis using D(1,2) assms(3) ring_search(1)[OF ring]
    by (simp add: bget_def Let_def upd_buf_def acquiresleep_free)
qed

lemma bget_miss:
  assumes "bcache_ok d p K s" "\<And>b. \<not> cached d s n b" "c < NBUF" "b_refcnt (bufs s c) = 0"
  obtains b where "b < NBUF" "b_refcnt (bufs s b) = 0"
    "bget d n s = Ok b (s\<lparr>bufs := (bufs s)(b := (bufs s b)\<lparr>dev := d, blockno := n, valid := 0, b_refcnt := 1\<rparr>),
    slocks := (slocks s)(buf_lock b := (slocks s (buf_lock b))\<lparr>sl_locked := 1, sl_pid := pid (procs s p)\<rparr>)\<rparr>)"
proof -
  note D = bcache_okD[OF assms(1)]
  obtain xs where ring: "ring (bufs s) xs" using D(7) by blast
  have none: "find (\<lambda>b. dev (bufs s b) = d \<and> blockno (bufs s b) = n) xs = None"
    using assms(2) ring by (auto simp: find_None_iff cached_def ring_def)
  have "find (\<lambda>b. b_refcnt (bufs s b) = 0) (rev xs) \<noteq> None"
    using assms(3,4) ring by (auto simp: find_None_iff ring_def)
  then obtain b where b: "find (\<lambda>b. b_refcnt (bufs s b) = 0) (rev xs) = Some b" by blast
  then have "b \<in> set (rev xs)" "b_refcnt (bufs s b) = 0"
    by (auto simp only: find_Some_iff nth_mem)
  then have bN: "b < NBUF" using ring by (auto simp: ring_def)
  then have "sl_locked (slocks s (buf_lock b)) = 0"
    using D(4)[of b] \<open>b_refcnt (bufs s b) = 0\<close> by (simp add: buf_ok_def)
  then have "bget d n s = Ok b (s\<lparr>bufs := (bufs s)(b := (bufs s b)\<lparr>dev := d, blockno := n, valid := 0, b_refcnt := 1\<rparr>),
    slocks := (slocks s)(buf_lock b := (slocks s (buf_lock b))\<lparr>sl_locked := 1, sl_pid := pid (procs s p)\<rparr>)\<rparr>)"
    using D(1,2) none b ring_search[OF ring]
    by (simp add: bget_def Let_def upd_buf_def acquiresleep_free)
  then show thesis using that bN \<open>b_refcnt (bufs s b) = 0\<close> by blast
qed

text \<open>
  A block can be read when its buffer, if it has one, is unlocked and its reference count does not wrap
  around, or when some buffer is free.
\<close>

definition readable_block :: "u32 \<Rightarrow> 'z kbio_scheme \<Rightarrow> u32 \<Rightarrow> bool" where
  "readable_block d s n \<longleftrightarrow>
     (\<forall>b. cached d s n b \<longrightarrow> sl_locked (slocks s (buf_lock b)) = 0 \<and> b_refcnt (bufs s b) + 1 \<noteq> 0)
   \<and> ((\<exists>b. cached d s n b) \<or> (\<exists>b<NBUF. b_refcnt (bufs s b) = 0))"

abbreviation lock_buf :: "nat \<Rightarrow> nat \<Rightarrow> 'z kbio_scheme \<Rightarrow> nat \<Rightarrow> sleeplock" where
  "lock_buf p b s \<equiv> (slocks s)(buf_lock b := (slocks s (buf_lock b))\<lparr>sl_locked := 1, sl_pid := pid (procs s p)\<rparr>)"

lemma bread_eq:
  assumes "bcache_ok d p K s" "readable_block d s n"
  obtains b x where "bread d n s = Ok b (s\<lparr>bufs := (bufs s)(b := x), slocks := lock_buf p b s\<rparr>)"
    "b < NBUF" "sl_locked (slocks s (buf_lock b)) = 0" "dev x = d" "blockno x = n" "valid x \<noteq> 0"
    "data x = content d s n" "b_refcnt x = b_refcnt (bufs s b) + 1" "b_refcnt x \<noteq> 0"
    "nxt x = nxt (bufs s b)" "prev x = prev (bufs s b)"
    "\<forall>c. cached d s n c \<longrightarrow> c = b" "b_refcnt (bufs s b) \<noteq> 0 \<longrightarrow> cached d s n b"
proof (cases "\<exists>b. cached d s n b")
  case True
  then obtain b where b: "cached d s n b" by blast
  then have free: "sl_locked (slocks s (buf_lock b)) = 0" "b_refcnt (bufs s b) + 1 \<noteq> 0"
    using assms(2) by (auto simp: readable_block_def)
  note get = bget_hit[OF assms(1) b free(1)]
  let ?r = "(bufs s b)\<lparr>b_refcnt := b_refcnt (bufs s b) + 1\<rparr>"
  let ?x = "if valid (bufs s b) = 0 then ?r\<lparr>data := disk s n, valid := 1\<rparr> else ?r"
  have "bread d n s = Ok b (s\<lparr>bufs := (bufs s)(b := ?x), slocks := lock_buf p b s\<rparr>)"
    using get b by (simp add: bread_def disk_transfer_def upd_buf_def cached_def)
  moreover have uniq: "c = b" if "cached d s n c" for c using bcache_okD(6)[OF assms(1) that b] .
  have "data ?x = content d s n"
  proof (cases "valid (bufs s b) = 0")
    case True
    then have "content d s n = disk s n" using uniq by (intro content_absent) blast
    then show ?thesis using True by simp
  qed (use content_cached[OF assms(1) b] in simp)
  ultimately show thesis
    using b free by (intro that[of b ?x]) (simp_all add: cached_def uniq)
next
  case False
  then obtain c where c: "c < NBUF" "b_refcnt (bufs s c) = 0"
    using assms(2) by (auto simp: readable_block_def)
  obtain b where b: "b < NBUF" "b_refcnt (bufs s b) = 0" and get:
    "bget d n s = Ok b (s\<lparr>bufs := (bufs s)(b := (bufs s b)\<lparr>dev := d, blockno := n, valid := 0, b_refcnt := 1\<rparr>),
      slocks := lock_buf p b s\<rparr>)"
    by (rule bget_miss[OF assms(1) _ c, of n]) (use False in blast)+
  let ?x = "(bufs s b)\<lparr>dev := d, blockno := n, b_refcnt := 1, data := disk s n, valid := 1\<rparr>"
  have "bread d n s = Ok b (s\<lparr>bufs := (bufs s)(b := ?x), slocks := lock_buf p b s\<rparr>)"
    using get by (simp add: bread_def disk_transfer_def upd_buf_def)
  moreover have "sl_locked (slocks s (buf_lock b)) = 0"
    using bcache_okD(4)[OF assms(1) b(1)] b(2) by (simp add: buf_ok_def)
  moreover have "content d s n = disk s n" using False by (intro content_absent) blast
  ultimately show thesis using b False by (intro that[of b ?x]) auto
qed

text \<open>Reading keeps the invariant and what every block holds.\<close>

lemma bread_content:
  assumes "bcache_ok d p K s" "b < NBUF" "dev x = d" "blockno x = n" "valid x \<noteq> 0" "data x = content d s n"
    "b_refcnt x \<noteq> 0" "nxt x = nxt (bufs s b)" "prev x = prev (bufs s b)"
    "\<And>c. cached d s n c \<Longrightarrow> c = b" "b_refcnt (bufs s b) \<noteq> 0 \<Longrightarrow> cached d s n b"
  defines "s' \<equiv> s\<lparr>bufs := (bufs s)(b := x), slocks := lock_buf p b s\<rparr>"
  shows "bcache_ok d p (insert b K) s'" "content d s' = content d s"
proof -
  note D = bcache_okD[OF assms(1)]
  have same: "cached d s' m c \<longleftrightarrow> cached d s m c" if "c \<noteq> b" for m c
    using that by (simp add: cached_def s'_def)
  have here: "cached d s' m b \<longleftrightarrow> m = n" for m
    using assms(2-4) by (auto simp: cached_def s'_def)
  have iff: "c = b \<longleftrightarrow> m = n" if "cached d s' m c" for m c
    using that here[of m] same[of c m] assms(10)[of c] by blast
  have uniq: "c = c'" if "cached d s' m c" "cached d s' m c'" for m c c'
  proof (cases "m = n")
    case False
    then have "cached d s m c" "cached d s m c'" using that iff same by blast+
    then show ?thesis by (rule D(6))
  qed (use that iff in blast)
  have "buf_ok d s' c" if "c < NBUF" for c
    using D(4)[OF that] assms(3,7) by (cases "c = b") (auto simp: buf_ok_def s'_def buf_lock_def)
  moreover have "lock_ok p s' c" if "c \<in> insert b K" for c
    using D(5)[of c] that assms(2,7) by (cases "c = b") (auto simp: lock_ok_def s'_def buf_lock_def)
  moreover have "\<exists>xs. ring (bufs s') xs"
    using D(7) ring_cong[of "bufs s'" "bufs s"] assms(8,9) by (auto simp: s'_def)
  ultimately show ok: "bcache_ok d p (insert b K) s'"
    using D(1-3) uniq unfolding bcache_ok_def by (auto simp: s'_def)
  show "content d s' = content d s"
  proof
    fix m
    show "content d s' m = content d s m"
    proof (cases "m = n")
      case True
      then show ?thesis using content_cached[OF ok, of n b] here[of n] assms(5,6) by (simp add: s'_def)
    next
      case False
      have away: "\<not> cached d s' m b" using here False by simp
      have disk: "disk s' = disk s" by (simp add: s'_def)
      have buf: "bufs s' c = bufs s c" if "c \<noteq> b" for c using that by (simp add: s'_def)
      consider c where "c \<noteq> b" "cached d s m c" "valid (bufs s c) \<noteq> 0"
        | "cached d s m b" "valid (bufs s b) \<noteq> 0"
        | "\<forall>c. cached d s m c \<longrightarrow> valid (bufs s c) = 0" by metis
      then show ?thesis
      proof cases
        case (1 c)
        then show ?thesis using content_cached[OF ok, of m c] content_cached[OF assms(1), of m c] same[of c m] buf[of c] by simp
      next
        case 2
        have "b_refcnt (bufs s b) = 0"
          using assms(11) 2(1) False by (auto simp: cached_def)
        then have "data (bufs s b) = disk s m" using D(4)[OF assms(2)] 2 by (auto simp: buf_ok_def cached_def)
        moreover have "\<not> cached d s' m c" for c
          using away same[of c m] D(6)[OF _ 2(1), of c] by blast
        ultimately show ?thesis
          using content_cached[OF assms(1) 2] content_absent[of d s' m] disk by simp
      next
        case 3
        have "valid (bufs s' c) = 0" if "cached d s' m c" for c
          using that away same[of c m] 3 buf[of c] by (cases "c = b") auto
        then show ?thesis using content_absent[of d s m] content_absent[of d s' m] 3 disk by simp
      qed
    qed
  qed
qed

section \<open>The cache as its client sees it\<close>

text \<open>
  \<open>bstate d p K Pin s\<close>: process \<open>p\<close> has the buffers \<open>K\<close> locked, nobody else has one, and besides them
  exactly the buffers of the blocks \<open>Pin\<close> are referred to, each once. This is the state in which
  the log is written and in which a file system operation runs alone.
\<close>

definition pinned :: "u32 \<Rightarrow> u32 set \<Rightarrow> 'z kbio_scheme \<Rightarrow> nat \<Rightarrow> bool" where
  "pinned d Pin s b \<longleftrightarrow> dev (bufs s b) = d \<and> blockno (bufs s b) \<in> Pin"

definition bstate :: "u32 \<Rightarrow> nat \<Rightarrow> nat set \<Rightarrow> u32 set \<Rightarrow> 'z kbio_scheme \<Rightarrow> bool" where
  "bstate d p K Pin s \<longleftrightarrow> bcache_ok d p K s \<and> finite Pin
     \<and> (\<forall>b<NBUF. b_refcnt (bufs s b) = (if b \<in> K then 1 else 0) + (if pinned d Pin s b then 1 else 0))
     \<and> (\<forall>b<NBUF. sl_locked (slocks s (buf_lock b)) \<noteq> 0 \<longrightarrow> b \<in> K)
     \<and> (\<forall>b\<in>K. dev (bufs s b) = d \<and> valid (bufs s b) \<noteq> 0)
     \<and> (\<forall>m\<in>Pin. \<exists>b. cached d s m b \<and> valid (bufs s b) \<noteq> 0)"

lemma bstateD:
  assumes "bstate d p K Pin s"
  shows "bcache_ok d p K s" "finite Pin"
    "b < NBUF \<Longrightarrow> b_refcnt (bufs s b) = (if b \<in> K then 1 else 0) + (if pinned d Pin s b then 1 else 0)"
    "b < NBUF \<Longrightarrow> sl_locked (slocks s (buf_lock b)) \<noteq> 0 \<Longrightarrow> b \<in> K"
    "b \<in> K \<Longrightarrow> dev (bufs s b) = d \<and> valid (bufs s b) \<noteq> 0"
    "m \<in> Pin \<Longrightarrow> \<exists>b. cached d s m b \<and> valid (bufs s b) \<noteq> 0"
    "b \<in> K \<Longrightarrow> b < NBUF" "b \<in> K \<Longrightarrow> cached d s (blockno (bufs s b)) b" "finite K"
proof -
  show *: "bcache_ok d p K s" using assms unfolding bstate_def by blast
  show N: "b < NBUF" if "b \<in> K" for b using bcache_okD(5)[OF * that] by (simp add: lock_ok_def)
  then show "b \<in> K \<Longrightarrow> cached d s (blockno (bufs s b)) b" using assms by (simp add: cached_def bstate_def)
  have "K \<subseteq> {..<NBUF}" using N by blast
  then show "finite K" by (rule finite_subset) simp
qed (use assms in \<open>unfold bstate_def, blast+\<close>)

lemma free_buffer:
  assumes "bstate d p K Pin s" "card K + card Pin < NBUF"
  shows "\<exists>b<NBUF. b_refcnt (bufs s b) = 0"
proof (rule ccontr)
  note D = bstateD[OF assms(1)]
  let ?B = "{b. b < NBUF \<and> pinned d Pin s b}"
  assume "\<not> (\<exists>b<NBUF. b_refcnt (bufs s b) = 0)"
  then have "{..<NBUF} \<subseteq> K \<union> ?B" using D(3) by (fastforce split: if_splits)
  moreover have "finite (K \<union> ?B)" using D(9) by simp
  ultimately have "card {..<NBUF} \<le> card (K \<union> ?B)" by (rule card_mono[rotated])
  also have "\<dots> \<le> card K + card ?B" by (rule card_Un_le)
  also have "card ?B \<le> card Pin"
  proof (rule card_inj_on_le[where f = "\<lambda>b. blockno (bufs s b)"])
    show "inj_on (\<lambda>b. blockno (bufs s b)) ?B"
      using bcache_okD(6)[OF D(1)] by (intro inj_onI) (auto simp: cached_def pinned_def)
  qed (use D(2) in \<open>auto simp: pinned_def\<close>)
  finally show False using assms(2) by simp
qed

lemma bstate_readable:
  assumes "bstate d p K Pin s" "card K + card Pin < NBUF \<or> n \<in> Pin" "\<And>b. b \<in> K \<Longrightarrow> blockno (bufs s b) \<noteq> n"
  shows "readable_block d s n"
proof -
  note D = bstateD[OF assms(1)]
  have "sl_locked (slocks s (buf_lock b)) = 0 \<and> b_refcnt (bufs s b) + 1 \<noteq> 0" if "cached d s n b" for b
  proof -
    have "b < NBUF" "b \<notin> K" using that assms(3) by (auto simp: cached_def)
    then show ?thesis using D(3)[of b] D(4)[of b] by auto
  qed
  moreover have "(\<exists>b. cached d s n b) \<or> (\<exists>b<NBUF. b_refcnt (bufs s b) = 0)"
    using free_buffer[OF assms(1)] D(6)[of n] assms(2) by blast
  ultimately show ?thesis by (simp add: readable_block_def)
qed

text \<open>What the operations leave alone: all but the cache, the disk, the console, and the run states of other processes.\<close>

definition bio_frame :: "nat \<Rightarrow> 'z kbio_scheme \<Rightarrow> 'z kbio_scheme \<Rightarrow> bool" where
  "bio_frame p s s' \<longleftrightarrow>
     (\<exists>P T L B D W. s' = s\<lparr>procs := P, kout := T, slocks := L, bufs := B, disk := D, diskw := W\<rparr>)
   \<and> (\<forall>q. \<exists>st. procs s' q = (procs s q)\<lparr>state := st\<rparr>) \<and> procs s' p = procs s p"

lemma bio_frameI:
  "(\<And>q. \<exists>st. P q = (procs s q)\<lparr>state := st\<rparr>) \<Longrightarrow> P p = procs s p \<Longrightarrow>
    bio_frame p s (s\<lparr>procs := P, slocks := L, bufs := B, disk := D, diskw := W\<rparr>)"
  unfolding bio_frame_def by (intro conjI exI[of _ P] exI[of _ "kout s"] exI[of _ L] exI[of _ B] exI[of _ D] exI[of _ W]) simp_all

lemma state_triv [simp]: "\<exists>st. q = (q :: proc)\<lparr>state := st\<rparr>"
  by (rule exI[of _ "state q"]) simp

lemma bio_frame_refl [simp]: "bio_frame p s s"
  using bio_frameI[where P = "procs s" and s = s and p = p and L = "slocks s" and B = "bufs s" and D = "disk s" and W = "diskw s"]
  by simp

lemma bio_frame_trans:
  assumes "bio_frame p s t" "bio_frame p t u"
  shows "bio_frame p s u"
proof -
  obtain P T L B D W P' T' L' B' D' W' where eq: "t = s\<lparr>procs := P, kout := T, slocks := L, bufs := B, disk := D, diskw := W\<rparr>"
    "u = t\<lparr>procs := P', kout := T', slocks := L', bufs := B', disk := D', diskw := W'\<rparr>"
    using assms unfolding bio_frame_def by blast
  have "\<exists>st. procs u q = (procs s q)\<lparr>state := st\<rparr>" for q
  proof -
    obtain st st' where "procs t q = (procs s q)\<lparr>state := st\<rparr>" "procs u q = (procs t q)\<lparr>state := st'\<rparr>"
      using assms unfolding bio_frame_def by blast
    then show ?thesis by auto
  qed
  moreover have "procs u p = procs s p" using assms unfolding bio_frame_def by simp
  moreover have "u = s\<lparr>procs := P', kout := T', slocks := L', bufs := B', disk := D', diskw := W'\<rparr>" unfolding eq by simp
  ultimately show ?thesis unfolding bio_frame_def by blast
qed

lemma bio_frame_kout: "bio_frame p s (s\<lparr>kout := T\<rparr>)"
  unfolding bio_frame_def
  by (intro conjI exI[of _ "procs s"] exI[of _ T] exI[of _ "slocks s"] exI[of _ "bufs s"] exI[of _ "disk s"] exI[of _ "diskw s"]) simp_all

lemma bio_frameD:
  assumes "bio_frame p s s'"
  shows "pid (procs s' q) = pid (procs s q)" "procs s' p = procs s p" "cur s' = cur s" "held s' = held s" "mem s' = mem s"
    "kbio.more s' = kbio.more s"
proof -
  obtain st where "procs s' q = (procs s q)\<lparr>state := st\<rparr>" using assms unfolding bio_frame_def by blast
  then show "pid (procs s' q) = pid (procs s q)" by simp
qed (use assms in \<open>auto simp: bio_frame_def\<close>)

lemma bread_ok:
  assumes "bstate d p K Pin s" "card K + card Pin < NBUF \<or> n \<in> Pin" "\<And>b. b \<in> K \<Longrightarrow> blockno (bufs s b) \<noteq> n"
  obtains b s' where "bread d n s = Ok b s'" "bstate d p (insert b K) Pin s'" "b \<notin> K"
    "blockno (bufs s' b) = n" "data (bufs s' b) = content d s n" "content d s' = content d s"
    "bio_frame p s s'" "disk s' = disk s" "diskw s' = diskw s" "\<forall>c\<in>K. bufs s' c = bufs s c"
proof -
  note D = bstateD[OF assms(1)]
  have rd: "readable_block d s n" by (rule bstate_readable[OF assms(1,2)]) (rule assms(3))
  obtain b x where bx: "bread d n s = Ok b (s\<lparr>bufs := (bufs s)(b := x), slocks := lock_buf p b s\<rparr>)"
    "b < NBUF" "sl_locked (slocks s (buf_lock b)) = 0" "dev x = d" "blockno x = n" "valid x \<noteq> 0"
    "data x = content d s n" "b_refcnt x = b_refcnt (bufs s b) + 1" "b_refcnt x \<noteq> 0"
    "nxt x = nxt (bufs s b)" "prev x = prev (bufs s b)"
    "\<forall>c. cached d s n c \<longrightarrow> c = b" "b_refcnt (bufs s b) \<noteq> 0 \<longrightarrow> cached d s n b"
    by (rule bread_eq[OF D(1) rd])
  define s' where "s' = s\<lparr>bufs := (bufs s)(b := x), slocks := lock_buf p b s\<rparr>"
  note inv = bread_content[OF D(1) bx(2,4,5,6,7,9,10,11) bx(12,13)[rule_format], folded s'_def]
  have bK: "b \<notin> K" using bcache_okD(5)[OF D(1), of b] bx(3) by (auto simp: lock_ok_def)
  have buf: "bufs s' c = bufs s c" if "c \<noteq> b" for c using that by (simp add: s'_def)
  have bufb: "bufs s' b = x" by (simp add: s'_def)
  have ref: "b_refcnt (bufs s b) = (if pinned d Pin s b then 1 else 0)" using D(3)[OF bx(2)] bK by simp
  have pin: "pinned d Pin s b \<longleftrightarrow> n \<in> Pin"
  proof
    assume pb: "pinned d Pin s b"
    then have "cached d s n b" using ref bx(13) by simp
    then show "n \<in> Pin" using pb by (simp add: pinned_def cached_def)
  next
    assume n: "n \<in> Pin"
    then obtain c where "cached d s n c" using D(6) by blast
    then have "cached d s n b" using bx(12) by blast
    then show "pinned d Pin s b" using n by (simp add: pinned_def cached_def)
  qed
  have "b_refcnt (bufs s' c) = (if c \<in> insert b K then 1 else 0) + (if pinned d Pin s' c then 1 else 0)" if "c < NBUF" for c
    using D(3)[OF that] buf[of c] bK bufb ref pin bx(4,5,8) by (cases "c = b") (auto simp: pinned_def)
  moreover have "c \<in> insert b K" if "c < NBUF" "sl_locked (slocks s' (buf_lock c)) \<noteq> 0" for c
    using D(4)[OF that(1)] that(2) by (cases "c = b") (auto simp: s'_def buf_lock_def)
  moreover have "dev (bufs s' c) = d \<and> valid (bufs s' c) \<noteq> 0" if "c \<in> insert b K" for c
    using D(5)[of c] that buf[of c] bufb bx(4,6) by (cases "c = b") auto
  moreover have "\<exists>c. cached d s' m c \<and> valid (bufs s' c) \<noteq> 0" if m: "m \<in> Pin" for m
  proof -
    obtain c where c: "cached d s m c" "valid (bufs s c) \<noteq> 0" using D(6)[OF m] by blast
    show ?thesis
    proof (cases "c = b")
      case True
      then have "pinned d Pin s b" using c m by (simp add: pinned_def cached_def)
      then have "cached d s n b" using ref bx(13) by simp
      then have "m = n" using c True by (simp add: cached_def)
      then show ?thesis using bx bufb by (intro exI[of _ b]) (simp add: cached_def)
    qed (use c buf[of c] in \<open>auto simp: cached_def\<close>)
  qed
  ultimately have "bstate d p (insert b K) Pin s'"
    using inv(1) D(2) by (simp add: bstate_def)
  moreover have "s' = s\<lparr>procs := procs s, slocks := lock_buf p b s, bufs := (bufs s)(b := x), disk := disk s, diskw := diskw s\<rparr>"
    by (simp add: s'_def)
  then have "bio_frame p s s'" by (metis bio_frameI state_triv)
  ultimately show thesis
    using that[of b s'] bx(1,5,7) inv(2) bK bufb buf by (auto simp: s'_def)
qed

lemma content_cong:
  assumes "\<And>b. b < NBUF \<Longrightarrow> valid (bufs s' b) = valid (bufs s b) \<and> dev (bufs s' b) = dev (bufs s b)
      \<and> blockno (bufs s' b) = blockno (bufs s b) \<and> data (bufs s' b) = data (bufs s b)" "disk s' = disk s"
  shows "content d s' = content d s"
proof
  fix n
  have "find (\<lambda>b. dev (bufs s' b) = d \<and> blockno (bufs s' b) = n \<and> valid (bufs s' b) \<noteq> 0) [0..<NBUF]
    = find (\<lambda>b. dev (bufs s b) = d \<and> blockno (bufs s b) = n \<and> valid (bufs s b) \<noteq> 0) [0..<NBUF]"
    using assms(1) by (intro find_cong) auto
  moreover have "b < NBUF" if "find (\<lambda>b. dev (bufs s b) = d \<and> blockno (bufs s b) = n \<and> valid (bufs s b) \<noteq> 0) [0..<NBUF] = Some b" for b
    using that unfolding find_upt_Some by blast
  ultimately show "content d s' n = content d s n"
    using assms by (auto simp: content_def split: option.split)
qed

lemma kout_ok: "bstate d p K Pin s \<Longrightarrow> bstate d p K Pin (s\<lparr>kout := T\<rparr>)" "content d (s\<lparr>kout := T\<rparr>) = content d s"
proof -
  have *: "cached d (s\<lparr>kout := T\<rparr>) = cached d s" "buf_ok d (s\<lparr>kout := T\<rparr>) = buf_ok d s" "lock_ok p (s\<lparr>kout := T\<rparr>) = lock_ok p s"
    "pinned d Pin (s\<lparr>kout := T\<rparr>) = pinned d Pin s" "bufs (s\<lparr>kout := T\<rparr>) = bufs s" "slocks (s\<lparr>kout := T\<rparr>) = slocks s"
    "cur (s\<lparr>kout := T\<rparr>) = cur s" "held (s\<lparr>kout := T\<rparr>) = held s"
    by (simp_all add: fun_eq_iff cached_def buf_ok_def lock_ok_def pinned_def)
  show "bstate d p K Pin s \<Longrightarrow> bstate d p K Pin (s\<lparr>kout := T\<rparr>)" unfolding bstate_def bcache_ok_def * .
  show "content d (s\<lparr>kout := T\<rparr>) = content d s" by (rule content_cong) simp_all
qed

text \<open>Changing the bytes of a locked buffer changes what its block holds, and nothing else.\<close>

lemma data_ok:
  fixes v :: "u8 list" and s :: "'z kbio_scheme"
  assumes "bstate d p K Pin s" "b \<in> K"
  defines "s' \<equiv> upd_buf b (\<lambda>x. x\<lparr>data := v\<rparr>) s"
  shows "bstate d p K Pin s'" "content d s' = (content d s)(blockno (bufs s b) := v)" "bio_frame p s s'"
    "disk s' = disk s" "diskw s' = diskw s" "\<forall>c. c \<noteq> b \<longrightarrow> bufs s' c = bufs s c" "data (bufs s' b) = v"
    "blockno (bufs s' b) = blockno (bufs s b)"
proof -
  note D = bstateD[OF assms(1)] and C = bcache_okD[OF bstateD(1)[OF assms(1)]]
  have same: "cached d s' m c = cached d s m c" "pinned d Pin s' c = pinned d Pin s c" "b_refcnt (bufs s' c) = b_refcnt (bufs s c)"
    "valid (bufs s' c) = valid (bufs s c)" "dev (bufs s' c) = dev (bufs s c)" "blockno (bufs s' c) = blockno (bufs s c)"
    "nxt (bufs s' c) = nxt (bufs s c)" "prev (bufs s' c) = prev (bufs s c)" for m c
    by (auto simp: s'_def upd_buf_def cached_def pinned_def)
  have fields: "slocks s' = slocks s" "disk s' = disk s" "cur s' = cur s" "held s' = held s" "procs s' = procs s"
    by (simp_all add: s'_def upd_buf_def)
  have ref: "b_refcnt (bufs s b) \<noteq> 0" using C(5)[OF assms(2)] by (simp add: lock_ok_def)
  have "buf_ok d s' c" if "c < NBUF" for c
    using C(4)[OF that] ref by (cases "c = b") (auto simp: buf_ok_def s'_def upd_buf_def)
  moreover have "lock_ok p s' c" if "c \<in> K" for c
    using C(5)[OF that] same(3)[of c] fields by (simp add: lock_ok_def)
  moreover have "\<exists>xs. ring (bufs s') xs" using C(7) ring_cong[OF same(7,8)] by simp
  ultimately have ok: "bcache_ok d p K s'"
    using C(1-3) C(6) same(1) fields unfolding bcache_ok_def by simp
  then show inv: "bstate d p K Pin s'"
    using D(2-6) unfolding bstate_def same fields by simp
  show "content d s' = (content d s)(blockno (bufs s b) := v)"
  proof
    fix m
    have bc: "cached d s (blockno (bufs s b)) b" by (rule D(8)[OF assms(2)])
    have bv: "valid (bufs s b) \<noteq> 0" using D(5)[OF assms(2)] by simp
    have db: "data (bufs s' b) = v" by (simp add: s'_def upd_buf_def)
    show "content d s' m = ((content d s)(blockno (bufs s b) := v)) m"
    proof (cases "m = blockno (bufs s b)")
      case True
      then show ?thesis using content_cached[OF ok, of m b] bc bv db same(1)[of m b] same(4)[of b] by simp
    next
      case False
      then have "bufs s' c = bufs s c" if "cached d s m c" for c
        using that by (cases "c = b") (auto simp: s'_def upd_buf_def cached_def)
      then show ?thesis using False same(1)[of m] content_cases[OF D(1), of m thesis] content_cached[OF ok, of m]
          content_cached[OF D(1), of m] content_absent[of d s m] content_absent[of d s' m] fields(2)
        by (metis fun_upd_apply)
    qed
  qed
  have "s' = s\<lparr>procs := procs s, slocks := slocks s, bufs := bufs s', disk := disk s, diskw := diskw s\<rparr>"
    by (simp add: s'_def upd_buf_def)
  then show "bio_frame p s s'" by (metis bio_frameI state_triv)
qed (simp_all add: s'_def upd_buf_def)

lemma bwrite_ok:
  fixes s :: "'z kbio_scheme"
  assumes "bstate d p K Pin s" "b \<in> K"
  defines "s' \<equiv> s\<lparr>disk := (disk s)(blockno (bufs s b) := data (bufs s b)), diskw := diskw s @ [(blockno (bufs s b), data (bufs s b))]\<rparr>"
  shows "bwrite b s = Ok () s'" "bstate d p K Pin s'" "content d s' = content d s" "bio_frame p s s'"
proof -
  note D = bstateD[OF assms(1)] and C = bcache_okD[OF bstateD(1)[OF assms(1)]]
  have lk: "lock_ok p s b" by (rule C(5)[OF assms(2)])
  then show "bwrite b s = Ok () s'"
    using C(1,2) by (simp add: bwrite_def holdingsleep_eq lock_ok_def disk_transfer_def s'_def Let_def)
  have fields: "bufs s' = bufs s" "slocks s' = slocks s" "cur s' = cur s" "held s' = held s" "procs s' = procs s"
    by (simp_all add: s'_def)
  have c: "cached d s' = cached d s" "pinned d Pin s' = pinned d Pin s" by (simp_all add: cached_def pinned_def fun_eq_iff fields)
  have "buf_ok d s' c" if "c < NBUF" for c
  proof (cases "blockno (bufs s c) = blockno (bufs s b) \<and> valid (bufs s c) \<noteq> 0")
    case True
    have "dev (bufs s c) = d" using C(4)[OF that] True by (auto simp: buf_ok_def)
    then have "c = b" using C(6)[of "blockno (bufs s b)" c b] D(8)[OF assms(2)] True that by (simp add: cached_def)
    then show ?thesis using C(4)[OF that] lk by (auto simp: buf_ok_def fields lock_ok_def)
  next
    case False
    then show ?thesis using C(4)[OF that] by (auto simp: buf_ok_def fields) (simp add: s'_def)
  qed
  moreover have "lock_ok p s' c" if "c \<in> K" for c
    using C(5)[OF that] by (simp add: lock_ok_def fields)
  ultimately have ok: "bcache_ok d p K s'"
    using C(1-3) C(6,7) unfolding bcache_ok_def c fields by simp
  then show "bstate d p K Pin s'"
    using D(2-6) unfolding bstate_def c fields by simp
  show "content d s' = content d s"
  proof
    fix m
    show "content d s' m = content d s m"
    proof (cases rule: content_cases[OF D(1), of m])
      case (1 c)
      then show ?thesis using content_cached[OF ok, of m c] by (simp add: c fields)
    next
      case 2
      have "m \<noteq> blockno (bufs s b)" using 2(1)[of b] D(5,8)[OF assms(2)] by auto
      then have "disk s' m = disk s m" by (simp add: s'_def)
      then show ?thesis using 2 content_absent[of d s' m] by (simp add: c fields)
    qed
  qed
  have "s' = s\<lparr>procs := procs s, slocks := slocks s, bufs := bufs s, disk := disk s', diskw := diskw s'\<rparr>"
    by (simp add: s'_def)
  then show "bio_frame p s s'" by (metis bio_frameI state_triv)
qed

lemma woken_frame: "\<exists>st. woken ch s q = (procs s q)\<lparr>state := st\<rparr>"
  by (auto simp: woken_def wake_def)

text \<open>The buffers after the last statements of \<^verbatim>\<open>brelse\<close>.\<close>

definition dropped :: "nat \<Rightarrow> (nat \<Rightarrow> buf) \<Rightarrow> nat \<Rightarrow> buf" where
  "dropped b bs = (let bs = bs(b := (bs b)\<lparr>b_refcnt := b_refcnt (bs b) - 1\<rparr>) in
     if b_refcnt (bs b) = 0 then link_front b (unlink_buf b bs) else bs)"

lemma ring_split: "ring bs xs \<Longrightarrow> b < NBUF \<Longrightarrow> \<exists>ys zs. xs = ys @ b # zs"
  by (metis lessThan_iff ring_def split_list)

lemma dropped_fields:
  assumes "ring bs xs" "b < NBUF"
  shows "valid (dropped b bs c) = valid (bs c)" "dev (dropped b bs c) = dev (bs c)"
    "blockno (dropped b bs c) = blockno (bs c)" "data (dropped b bs c) = data (bs c)"
    "b_refcnt (dropped b bs c) = b_refcnt (bs c) - (if c = b then 1 else 0)"
    "\<exists>ys. ring (dropped b bs) ys"
proof -
  define bs' where "bs' = bs(b := (bs b)\<lparr>b_refcnt := b_refcnt (bs b) - 1\<rparr>)"
  have dr: "dropped b bs = (if b_refcnt (bs' b) = 0 then link_front b (unlink_buf b bs') else bs')"
    unfolding dropped_def Let_def bs'_def ..
  have bs': "valid (bs' c) = valid (bs c)" "dev (bs' c) = dev (bs c)" "blockno (bs' c) = blockno (bs c)"
    "data (bs' c) = data (bs c)" "b_refcnt (bs' c) = b_refcnt (bs c) - (if c = b then 1 else 0)"
    "nxt (bs' c) = nxt (bs c)" "prev (bs' c) = prev (bs c)" for c
    by (simp_all add: bs'_def)
  obtain ys zs where xs: "xs = ys @ b # zs" using ring_split[OF assms] by blast
  have ring: "ring bs' (ys @ b # zs)" using assms(1) xs ring_cong[of bs' bs] bs'(6,7) by simp
  have b: "b \<noteq> head" using assms(2) by simp
  have "nxt (bs' b) \<noteq> b" using ring links_not_self[of "\<lambda>b. nxt (bs' b)" "\<lambda>b. prev (bs' b)" ys b zs] by (simp add: ring_def)
  note f = link_front_fields(3-7)[OF b] unlink_buf_fields(3-7)[of bs' b, OF this]
  show "valid (dropped b bs c) = valid (bs c)" "dev (dropped b bs c) = dev (bs c)"
    "blockno (dropped b bs c) = blockno (bs c)" "data (dropped b bs c) = data (bs c)"
    "b_refcnt (dropped b bs c) = b_refcnt (bs c) - (if c = b then 1 else 0)"
    unfolding dr by (simp_all add: f bs'(1-4), simp_all add: bs'(5))
  show "\<exists>ys. ring (dropped b bs) ys"
    using ring ring_to_front[OF ring] unfolding dr by auto
qed

lemma brelse_eq:
  assumes "bcache_ok d p K s" "b \<in> K"
  shows "brelse b s = Ok () (s\<lparr>procs := woken (Ch_sleeplock (buf_lock b)) s,
    slocks := (slocks s)(buf_lock b := (slocks s (buf_lock b))\<lparr>sl_locked := 0, sl_pid := 0\<rparr>),
    bufs := dropped b (bufs s)\<rparr>)"
proof -
  note C = bcache_okD[OF assms(1)]
  have "lock_ok p s b" by (rule C(5)[OF assms(2)])
  then have h: "holdingsleep (buf_lock b) s = Ok True s"
    using C(1,2) by (simp add: holdingsleep_eq lock_ok_def)
  have tl: "bind (acquire L_bcache t) (\<lambda>_ s.
       let s = upd_buf b (\<lambda>b. b\<lparr>b_refcnt := b_refcnt b - 1\<rparr>) s;
           s = (if b_refcnt (bufs s b) = 0
                then s\<lparr>bufs := link_front b (unlink_buf b (bufs s))\<rparr> else s) in
       release L_bcache s) = Ok () (t\<lparr>bufs := dropped b (bufs t)\<rparr>)" if "held t = {}" for t :: "'a kbio_scheme"
    using that by (simp add: dropped_def Let_def upd_buf_def)
  show ?thesis
    unfolding brelse_def h bind.simps not_True_eq_False if_False releasesleep_eq[OF C(1,2)]
    by (subst tl) (simp_all add: C(2))
qed

lemma brelse_ok:
  assumes "bstate d p K Pin s" "b \<in> K" "blockno (bufs s b) \<in> Pin \<or> data (bufs s b) = disk s (blockno (bufs s b))"
  obtains s' where "brelse b s = Ok () s'" "bstate d p (K - {b}) Pin s'" "content d s' = content d s" "bio_frame p s s'"
    "disk s' = disk s" "diskw s' = diskw s"
    "\<forall>c. data (bufs s' c) = data (bufs s c) \<and> blockno (bufs s' c) = blockno (bufs s c)"
proof -
  note D = bstateD[OF assms(1)] and C = bcache_okD[OF bstateD(1)[OF assms(1)]]
  define s' where "s' = s\<lparr>procs := woken (Ch_sleeplock (buf_lock b)) s,
    slocks := (slocks s)(buf_lock b := (slocks s (buf_lock b))\<lparr>sl_locked := 0, sl_pid := 0\<rparr>),
    bufs := dropped b (bufs s)\<rparr>"
  obtain xs where xs: "ring (bufs s) xs" using C(7) by blast
  note f = dropped_fields[OF xs D(7)[OF assms(2)]]
  have fields: "cur s' = cur s" "held s' = held s" "disk s' = disk s" "diskw s' = diskw s" "pid (procs s' q) = pid (procs s q)" for q
    by (simp_all add: s'_def)
  have bf: "valid (bufs s' c) = valid (bufs s c)" "dev (bufs s' c) = dev (bufs s c)"
    "blockno (bufs s' c) = blockno (bufs s c)" "data (bufs s' c) = data (bufs s c)"
    "b_refcnt (bufs s' c) = b_refcnt (bufs s c) - (if c = b then 1 else 0)" for c
    using f(1-5)[of c] by (simp_all add: s'_def)
  have lk: "slocks s' (buf_lock c) = (if c = b then (slocks s (buf_lock b))\<lparr>sl_locked := 0, sl_pid := 0\<rparr> else slocks s (buf_lock c))" for c
    by (simp add: s'_def buf_lock_def)
  have c: "cached d s' = cached d s" "pinned d Pin s' = pinned d Pin s" by (simp_all add: cached_def pinned_def fun_eq_iff bf)
  have ref: "b_refcnt (bufs s' e) = (if e \<in> K - {b} then 1 else 0) + (if pinned d Pin s e then 1 else 0)" if "e < NBUF" for e
    using D(3)[OF that] assms(2) by (cases "e = b") (simp_all add: bf)
  have "buf_ok d s' e" if e: "e < NBUF" for e
  proof (cases "e = b")
    case True
    have "data (bufs s b) = disk s (blockno (bufs s b))" if "b_refcnt (bufs s' b) = 0"
    proof -
      have "\<not> pinned d Pin s b" using ref[OF e] that True by auto
      then show ?thesis using assms(3) D(5)[OF assms(2)] by (auto simp: pinned_def)
    qed
    then show ?thesis using True C(4)[OF e] by (auto simp: buf_ok_def bf lk fields)
  next
    case False
    then show ?thesis using C(4)[OF e] by (auto simp: buf_ok_def bf lk fields)
  qed
  moreover have "lock_ok p s' e" if "e \<in> K - {b}" for e
    using C(5)[of e] that by (auto simp: lock_ok_def bf lk fields)
  moreover have "\<exists>xs. ring (bufs s') xs" using f(6) by (simp add: s'_def)
  ultimately have "bcache_ok d p (K - {b}) s'"
    using C(1-3) C(6) unfolding bcache_ok_def c fields by simp
  moreover have "e \<in> K - {b}" if "e < NBUF" "sl_locked (slocks s' (buf_lock e)) \<noteq> 0" for e
    using D(4)[OF that(1)] that(2) by (auto simp: lk split: if_splits)
  ultimately have "bstate d p (K - {b}) Pin s'"
    using D(2,5,6) ref unfolding bstate_def c bf by simp
  moreover have "content d s' = content d s" by (rule content_cong) (simp_all add: bf fields)
  moreover have "s' = s\<lparr>procs := woken (Ch_sleeplock (buf_lock b)) s, slocks := slocks s', bufs := bufs s', disk := disk s, diskw := diskw s\<rparr>"
    by (simp add: s'_def)
  then have "bio_frame p s s'"
    using bio_frameI[where P = "woken (Ch_sleeplock (buf_lock b)) s" and s = s] woken_frame woken_cur[OF C(1)] by metis
  ultimately show thesis
    using that[of s'] brelse_eq[OF D(1) assms(2)] bf fields by (simp add: s'_def)
qed

text \<open>Pinning and unpinning a locked buffer.\<close>

lemma pin_ok:
  fixes s :: "'z kbio_scheme"
  assumes "bstate d p K Pin s" "b \<in> K" "finite Pin'"
    "\<And>m. m \<noteq> blockno (bufs s b) \<Longrightarrow> m \<in> Pin' \<longleftrightarrow> m \<in> Pin"
    "r = 1 + (if blockno (bufs s b) \<in> Pin' then 1 else 0)"
  defines "s' \<equiv> upd_buf b (\<lambda>x. x\<lparr>b_refcnt := r\<rparr>) s"
  shows "bstate d p K Pin' s'" "content d s' = content d s" "bio_frame p s s'"
    "\<forall>c. data (bufs s' c) = data (bufs s c) \<and> blockno (bufs s' c) = blockno (bufs s c)"
proof -
  note D = bstateD[OF assms(1)] and C = bcache_okD[OF bstateD(1)[OF assms(1)]]
  have r: "r \<noteq> 0" using assms(5) by simp
  have bf: "valid (bufs s' c) = valid (bufs s c)" "dev (bufs s' c) = dev (bufs s c)"
    "blockno (bufs s' c) = blockno (bufs s c)" "data (bufs s' c) = data (bufs s c)"
    "b_refcnt (bufs s' c) = (if c = b then r else b_refcnt (bufs s c))"
    "nxt (bufs s' c) = nxt (bufs s c)" "prev (bufs s' c) = prev (bufs s c)" for c
    by (simp_all add: s'_def upd_buf_def)
  have fields: "slocks s' = slocks s" "disk s' = disk s" "cur s' = cur s" "held s' = held s" "procs s' = procs s"
    by (simp_all add: s'_def upd_buf_def)
  have c: "cached d s' = cached d s" by (simp add: cached_def fun_eq_iff bf)
  have pin: "pinned d Pin' s' e \<longleftrightarrow> pinned d Pin s e" if "e \<noteq> b" "e < NBUF" for e
  proof (cases "dev (bufs s e) = d")
    case True
    then have "blockno (bufs s e) \<noteq> blockno (bufs s b)"
      using C(6)[of "blockno (bufs s b)" e b] D(8)[OF assms(2)] that by (auto simp: cached_def)
    then show ?thesis using assms(4) by (simp add: pinned_def bf)
  qed (simp add: pinned_def bf)
  have "b_refcnt (bufs s' e) = (if e \<in> K then 1 else 0) + (if pinned d Pin' s' e then 1 else 0)" if "e < NBUF" for e
    using D(3)[OF that] pin[of e] that assms(2,5) D(5)[OF assms(2)] by (cases "e = b") (auto simp: bf pinned_def)
  moreover have "buf_ok d s' e" if "e < NBUF" for e
    using C(4)[OF that] r by (auto simp: buf_ok_def bf fields)
  moreover have "lock_ok p s' e" if "e \<in> K" for e
    using C(5)[OF that] r by (auto simp: lock_ok_def bf fields)
  moreover have "\<exists>xs. ring (bufs s') xs" using C(7) ring_cong[OF bf(6,7)] by simp
  moreover have "\<exists>e. cached d s m e \<and> valid (bufs s e) \<noteq> 0" if "m \<in> Pin'" for m
    using that D(5,8)[OF assms(2)] D(6)[of m] assms(4)[of m] by (cases "m = blockno (bufs s b)") auto
  ultimately show "bstate d p K Pin' s'"
    using C(1-3) C(6) D(4,5) assms(3) unfolding bstate_def bcache_ok_def c bf(1-4) fields by simp
  show "content d s' = content d s" by (rule content_cong) (simp_all add: bf fields)
  have "s' = s\<lparr>procs := procs s, slocks := slocks s, bufs := bufs s', disk := disk s, diskw := diskw s\<rparr>"
    by (simp add: s'_def upd_buf_def)
  then show "bio_frame p s s'" by (metis bio_frameI state_triv)
  show "\<forall>c. data (bufs s' c) = data (bufs s c) \<and> blockno (bufs s' c) = blockno (bufs s c)" by (simp add: bf)
qed

lemma bunpin_ok:
  assumes "bstate d p K Pin s" "b \<in> K" "blockno (bufs s b) \<in> Pin"
  obtains s' where "bunpin b s = Ok () s'" "bstate d p K (Pin - {blockno (bufs s b)}) s'" "content d s' = content d s"
    "bio_frame p s s'" "disk s' = disk s" "diskw s' = diskw s"
    "\<forall>c. data (bufs s' c) = data (bufs s c) \<and> blockno (bufs s' c) = blockno (bufs s c)"
proof -
  note D = bstateD[OF assms(1)] and C = bcache_okD[OF bstateD(1)[OF assms(1)]]
  have "b_refcnt (bufs s b) = 2" using D(3)[OF D(7)[OF assms(2)]] assms(2,3) D(5)[OF assms(2)] by (simp add: pinned_def)
  then have "bunpin b s = Ok () (upd_buf b (\<lambda>x. x\<lparr>b_refcnt := 1\<rparr>) s)"
    using C(2) by (simp add: bunpin_def Let_def upd_buf_def)
  moreover have "finite (Pin - {blockno (bufs s b)})" using D(2) by simp
  note pin_ok[OF assms(1,2) this, of 1]
  ultimately show thesis using that[of "upd_buf b (\<lambda>x. x\<lparr>b_refcnt := 1\<rparr>) s"] by (simp add: upd_buf_def)
qed

lemma bpin_ok:
  assumes "bstate d p K Pin s" "b \<in> K" "blockno (bufs s b) \<notin> Pin"
  obtains s' where "bpin b s = Ok () s'" "bstate d p K (insert (blockno (bufs s b)) Pin) s'" "content d s' = content d s"
    "bio_frame p s s'" "disk s' = disk s" "diskw s' = diskw s"
    "\<forall>c. data (bufs s' c) = data (bufs s c) \<and> blockno (bufs s' c) = blockno (bufs s c)"
proof -
  note D = bstateD[OF assms(1)] and C = bcache_okD[OF bstateD(1)[OF assms(1)]]
  have "b_refcnt (bufs s b) = 1" using D(3)[OF D(7)[OF assms(2)]] assms(2,3) by (simp add: pinned_def)
  then have "bpin b s = Ok () (upd_buf b (\<lambda>x. x\<lparr>b_refcnt := 2\<rparr>) s)"
    using C(2) by (simp add: bpin_def Let_def upd_buf_def)
  moreover have "finite (insert (blockno (bufs s b)) Pin)" using D(2) by simp
  note pin_ok[OF assms(1,2) this, of 2]
  ultimately show thesis using that[of "upd_buf b (\<lambda>x. x\<lparr>b_refcnt := 2\<rparr>) s"] by (simp add: upd_buf_def)
qed

section \<open>Initialisation\<close>

lemma ring_front_partial:
  assumes "links (\<lambda>b. nxt (bs b)) (\<lambda>b. prev (bs b)) xs" "b \<notin> set xs" "b \<noteq> head"
  shows "links (\<lambda>x. nxt (link_front b bs x)) (\<lambda>x. prev (link_front b bs x)) (b # xs)"
  using links_front[OF assms] by (simp add: link_front_fields[OF assms(3)])

lemma binit_eq:
  "binit s = (let bs = (bufs s)(head := (bufs s head)\<lparr>prev := head, nxt := head\<rparr>) in
     s\<lparr>slocks := fold (\<lambda>b L. L(buf_lock b := (L (buf_lock b))\<lparr>sl_locked := 0, sl_pid := 0\<rparr>)) [0..<NBUF] (slocks s),
       bufs := fold link_front [0..<NBUF] bs\<rparr>)"
proof -
  have "fold (\<lambda>b s. let s = initsleeplock (buf_lock b) s in s\<lparr>bufs := link_front b (bufs s)\<rparr>) xs t
    = t\<lparr>slocks := fold (\<lambda>b L. L(buf_lock b := (L (buf_lock b))\<lparr>sl_locked := 0, sl_pid := 0\<rparr>)) xs (slocks t),
       bufs := fold link_front xs (bufs t)\<rparr>" for xs and t :: "'a kbio_scheme"
    by (induction xs arbitrary: t) (simp_all add: initsleeplock_def upd_slock_def Let_def)
  then show ?thesis by (simp add: binit_def upd_buf_def Let_def)
qed

lemma fold_link_front:
  assumes "links (\<lambda>b. nxt (bs b)) (\<lambda>b. prev (bs b)) ys" "distinct xs" "set xs \<inter> insert head (set ys) = {}"
  shows "links (\<lambda>b. nxt (fold link_front xs bs b)) (\<lambda>b. prev (fold link_front xs bs b)) (rev xs @ ys)
    \<and> (\<forall>c. valid (fold link_front xs bs c) = valid (bs c) \<and> dev (fold link_front xs bs c) = dev (bs c)
        \<and> b_refcnt (fold link_front xs bs c) = b_refcnt (bs c))"
  using assms
proof (induction xs arbitrary: bs ys)
  case (Cons b xs)
  have b: "b \<noteq> head" "b \<notin> set ys" using Cons.prems(3) by auto
  have "links (\<lambda>x. nxt (link_front b bs x)) (\<lambda>x. prev (link_front b bs x)) (b # ys)"
    by (rule ring_front_partial[OF Cons.prems(1) b(2,1)])
  then show ?case using Cons.IH[of "link_front b bs" "b # ys"] Cons.prems(2,3) by (auto simp: link_front_fields[OF b(1)])
qed simp

lemma fold_unlock:
  "b \<in> set xs \<Longrightarrow> sl_locked (fold (\<lambda>b L. L(buf_lock b := (L (buf_lock b))\<lparr>sl_locked := 0, sl_pid := 0\<rparr>)) xs L (buf_lock b)) = 0"
proof (induction xs arbitrary: L rule: rev_induct)
  case (snoc x xs)
  then show ?case by (auto simp: buf_lock_def)
qed simp

lemma binit_ok:
  assumes "cur s = Some p" "held s = {}" "d \<noteq> 0"
    "\<And>b. b < NBUF \<Longrightarrow> valid (bufs s b) = 0 \<and> dev (bufs s b) \<noteq> d \<and> b_refcnt (bufs s b) = 0"
  shows "bstate d p {} {} (binit s)" "content d (binit s) = disk s" "disk (binit s) = disk s" "diskw (binit s) = diskw s"
    "ring (bufs (binit s)) (rev [0..<NBUF])" "\<not> cached d (binit s) m b"
proof -
  let ?bs = "(bufs s)(head := (bufs s head)\<lparr>prev := head, nxt := head\<rparr>)"
  have "links (\<lambda>b. nxt (?bs b)) (\<lambda>b. prev (?bs b)) []" by (simp add: links_def)
  then have "links (\<lambda>b. nxt (fold link_front [0..<NBUF] ?bs b)) (\<lambda>b. prev (fold link_front [0..<NBUF] ?bs b)) (rev [0..<NBUF] @ [])
    \<and> (\<forall>c. valid (fold link_front [0..<NBUF] ?bs c) = valid (?bs c) \<and> dev (fold link_front [0..<NBUF] ?bs c) = dev (?bs c)
        \<and> b_refcnt (fold link_front [0..<NBUF] ?bs c) = b_refcnt (?bs c))"
    by (rule fold_link_front) (simp_all only: distinct_upt, auto)
  moreover define s' where "s' = binit s"
  have s': "bufs s' = fold link_front [0..<NBUF] ?bs" "cur s' = cur s" "held s' = held s" "disk s' = disk s" "diskw s' = diskw s"
    "slocks s' = fold (\<lambda>b L. L(buf_lock b := (L (buf_lock b))\<lparr>sl_locked := 0, sl_pid := 0\<rparr>)) [0..<NBUF] (slocks s)"
  proof -
    define L where "L = fold (\<lambda>b L. L(buf_lock b := (L (buf_lock b))\<lparr>sl_locked := 0, sl_pid := 0\<rparr>)) [0..<NBUF] (slocks s)"
    define B where "B = fold link_front [0..<NBUF] ?bs"
    have "s' = s\<lparr>slocks := L, bufs := B\<rparr>" unfolding s'_def binit_eq Let_def L_def B_def ..
    then show "bufs s' = fold link_front [0..<NBUF] ?bs" "cur s' = cur s" "held s' = held s" "disk s' = disk s" "diskw s' = diskw s"
      "slocks s' = fold (\<lambda>b L. L(buf_lock b := (L (buf_lock b))\<lparr>sl_locked := 0, sl_pid := 0\<rparr>)) [0..<NBUF] (slocks s)"
      unfolding L_def[symmetric] B_def[symmetric] by simp_all
  qed
  ultimately have l: "links (\<lambda>b. nxt (bufs s' b)) (\<lambda>b. prev (bufs s' b)) (rev [0..<NBUF])"
    and f: "b < NBUF \<Longrightarrow> valid (bufs s' b) = 0 \<and> dev (bufs s' b) \<noteq> d \<and> b_refcnt (bufs s' b) = 0" for b
    using assms(4)[of b] unfolding s'(1) by auto
  have lk: "sl_locked (slocks s' (buf_lock b)) = 0" if "b < NBUF" for b
    using that unfolding s'(6) by (intro fold_unlock) simp
  show ring: "ring (bufs (binit s)) (rev [0..<NBUF])" using l unfolding ring_def s'_def by auto
  have c: "\<not> cached d s' m b" for m b using f by (auto simp: cached_def)
  then show "\<not> cached d (binit s) m b" by (simp add: s'_def)
  show "bstate d p {} {} (binit s)"
    unfolding s'_def[symmetric] bstate_def bcache_ok_def using assms(1-3) f c lk ring
    by (auto simp: s' buf_ok_def pinned_def s'_def[symmetric])
  show "content d (binit s) = disk s" unfolding s'_def[symmetric]
    using content_absent[of d s'] c by (auto simp: s'(4))
  show "disk (binit s) = disk s" "diskw (binit s) = diskw s" using s' by (simp_all add: s'_def)
qed

section \<open>Properties\<close>

text \<open>
  A machine that has just initialised its cache of an empty disk, with process 0 running.
\<close>

definition zero_buf :: buf where
  "zero_buf = \<lparr>valid = 0, dev = 0, blockno = 0, b_refcnt = 0, prev = 0, nxt = 0, data = replicate 1024 0\<rparr>"

definition zero_bio :: kbio where
  "zero_bio = kslp.extend (kshm.extend (kulock.extend (kproc.extend small_proc
      (kulock.fields (\<lambda>_. \<lparr>userlock.used = 0, locked = 0, owner = 0\<rparr>)))
      (kshm.fields (\<lambda>_. \<lparr>seg_used = 0, key = 0, seg_npages = 0, refcnt = 0, pages = (\<lambda>_. 0)\<rparr>) (\<lambda>_ _. \<lparr>shmid = -1, att_va = 0, att_npages = 0\<rparr>)))
      (kslp.fields (\<lambda>_. \<lparr>sl_locked = 0, sl_pid = 0\<rparr>)))
      (kbio.fields (\<lambda>_. zero_buf) (\<lambda>_. replicate 1024 0) [])"

lemma zero_bio_fields:
  "cur zero_bio = Some 0" "held zero_bio = {}" "bufs zero_bio = (\<lambda>_. zero_buf)" "disk zero_bio = (\<lambda>_. replicate 1024 0)" "diskw zero_bio = []"
  by (simp_all add: zero_bio_def kslp.defs kshm.defs kulock.defs kproc.defs kbio.defs small_proc_def)

lemma zero_bio_state:
  "bstate 1 0 {} {} (binit zero_bio)" "content 1 (binit zero_bio) = (\<lambda>_. replicate 1024 0)"
  "ring (bufs (binit zero_bio)) (rev [0..<NBUF])" "\<not> cached 1 (binit zero_bio) n b"
  using binit_ok[of zero_bio 0 1] by (simp_all add: zero_bio_fields zero_buf_def del: upt_rec_numeral)

text \<open>
  C20. Reading a block, changing the buffer, writing it out and releasing it: the read returns what the
  block holds, the disk holds the new bytes afterwards, the next read returns them, and
  no other block has changed.
\<close>

theorem bread_bwrite_roundtrip:
  assumes "bstate d p {} Pin s" "card Pin < NBUF"
  shows "\<exists>b s1 s2 s3 c s4. bread d n s = Ok b s1 \<and> data (bufs s1 b) = content d s n
    \<and> bwrite b (upd_buf b (\<lambda>x. x\<lparr>data := v\<rparr>) s1) = Ok () s2 \<and> brelse b s2 = Ok () s3 \<and> disk s3 n = v
    \<and> bread d n s3 = Ok c s4 \<and> data (bufs s4 c) = v
    \<and> (\<forall>m. m \<noteq> n \<longrightarrow> disk s4 m = disk s m \<and> content d s4 m = content d s m)"
proof -
  obtain b s1 where r1: "bread d n s = Ok b s1" "bstate d p {b} Pin s1" "blockno (bufs s1 b) = n"
    "data (bufs s1 b) = content d s n" "content d s1 = content d s" "disk s1 = disk s"
    by (rule bread_ok[OF assms(1), of n]) (use assms(2) in auto)
  define t where "t = upd_buf b (\<lambda>x. x\<lparr>data := v\<rparr>) s1"
  have b: "b \<in> {b}" by simp
  note d1 = data_ok[OF r1(2) b, of v, folded t_def]
  define s2 where "s2 = t\<lparr>disk := (disk t)(n := v), diskw := diskw t @ [(n, v)]\<rparr>"
  note w = bwrite_ok[OF d1(1) b, unfolded d1(7,8) r1(3), folded s2_def]
  have "blockno (bufs s2 b) \<in> Pin \<or> data (bufs s2 b) = disk s2 (blockno (bufs s2 b))"
    using d1(7,8) r1(3) by (simp add: s2_def)
  then obtain s3 where r3: "brelse b s2 = Ok () s3" "bstate d p ({b} - {b}) Pin s3" "content d s3 = content d s2" "disk s3 = disk s2"
    using brelse_ok[OF w(2) b] by metis
  have K: "card ({b} - {b}) + card Pin < NBUF" using assms(2) by simp
  obtain c s4 where r4: "bread d n s3 = Ok c s4" "data (bufs s4 c) = content d s3 n" "content d s4 = content d s3" "disk s4 = disk s3"
    by (rule bread_ok[OF r3(2), of n]) (use K in auto)
  have "content d s3 = (content d s)(n := v)" using r3(3) w(3) d1(2) r1(3,5) by simp
  moreover have "disk s3 = (disk s)(n := v)" using r3(4) d1(4) r1(6) by (simp add: s2_def)
  ultimately show ?thesis
    using r1(1,4) w(1) r3(1) r4 unfolding t_def
    by (intro exI[of _ b] exI[of _ s1] exI[of _ s2] exI[of _ s3] exI[of _ c] exI[of _ s4]) simp
qed

theorem bread_bwrite_roundtrip_witness:
  "\<exists>b s1 s2 s3 c s4. bread 1 7 (binit zero_bio) = Ok b s1 \<and> data (bufs s1 b) = replicate 1024 0
    \<and> bwrite b (upd_buf b (\<lambda>x. x\<lparr>data := [1, 2, 3]\<rparr>) s1) = Ok () s2 \<and> brelse b s2 = Ok () s3 \<and> disk s3 7 = [1, 2, 3]
    \<and> bread 1 7 s3 = Ok c s4 \<and> data (bufs s4 c) = [1, 2, 3]"
proof -
  have "card ({} :: u32 set) < NBUF" by simp
  from bread_bwrite_roundtrip[OF zero_bio_state(1) this, of 7 "[1, 2, 3]"] show ?thesis
    unfolding zero_bio_state(2) by blast
qed

text \<open>
  C21. Replacement: with the buffers in order of their last release, a block that is not cached takes the
  least recently released buffer that nobody uses, and when every buffer is in use the
  kernel panics; a buffer released by its last user becomes the most recent one.
\<close>

theorem bcache_lru:
  assumes "bcache_ok d p K s" "ring (bufs s) xs"
  shows "((\<forall>b. \<not> cached d s n b) \<longrightarrow>
      (case find (\<lambda>b. b_refcnt (bufs s b) = 0) (rev xs) of
         None \<Rightarrow> bget d n s = Panic ''bget: no buffers''
       | Some b \<Rightarrow> \<exists>s'. bget d n s = Ok b s' \<and> cached d s' n b \<and> ring (bufs s') xs))
    \<and> (\<forall>b\<in>K. b_refcnt (bufs s b) = 1 \<longrightarrow> (\<exists>s' ys zs. brelse b s = Ok () s' \<and> xs = ys @ b # zs \<and> ring (bufs s') (b # ys @ zs)))"
proof (intro conjI impI ballI)
  note C = bcache_okD[OF assms(1)]
  assume "\<forall>b. \<not> cached d s n b"
  then have none: "find (\<lambda>b. dev (bufs s b) = d \<and> blockno (bufs s b) = n) xs = None"
    using assms(2) by (auto simp: find_None_iff cached_def ring_def)
  show "case find (\<lambda>b. b_refcnt (bufs s b) = 0) (rev xs) of
         None \<Rightarrow> bget d n s = Panic ''bget: no buffers''
       | Some b \<Rightarrow> \<exists>s'. bget d n s = Ok b s' \<and> cached d s' n b \<and> ring (bufs s') xs"
  proof (cases "find (\<lambda>b. b_refcnt (bufs s b) = 0) (rev xs)")
    case None
    then show ?thesis using C(2) none ring_search[OF assms(2)] by (simp add: bget_def)
  next
    case (Some b)
    then have "b \<in> set (rev xs)" "b_refcnt (bufs s b) = 0" by (auto simp only: find_Some_iff nth_mem)
    then have b: "b < NBUF" using assms(2) by (auto simp: ring_def)
    then have "sl_locked (slocks s (buf_lock b)) = 0" using C(4)[of b] \<open>b_refcnt (bufs s b) = 0\<close> by (simp add: buf_ok_def)
    then have "bget d n s = Ok b (s\<lparr>bufs := (bufs s)(b := (bufs s b)\<lparr>dev := d, blockno := n, valid := 0, b_refcnt := 1\<rparr>),
      slocks := lock_buf p b s\<rparr>)"
      using C(1,2) none Some ring_search[OF assms(2)] by (simp add: bget_def Let_def upd_buf_def acquiresleep_free)
    moreover have "ring ((bufs s)(b := (bufs s b)\<lparr>dev := d, blockno := n, valid := 0, b_refcnt := 1\<rparr>)) xs"
      using assms(2) by (subst ring_cong[of _ "bufs s"]) auto
    ultimately show ?thesis using Some b by (simp add: cached_def)
  qed
next
  fix b assume b: "b \<in> K" "b_refcnt (bufs s b) = 1"
  have "b < NBUF" using bcache_okD(5)[OF assms(1) b(1)] by (simp add: lock_ok_def)
  then obtain ys zs where xs: "xs = ys @ b # zs" using ring_split[OF assms(2)] by blast
  let ?bs = "(bufs s)(b := (bufs s b)\<lparr>b_refcnt := 0\<rparr>)"
  have "ring ?bs (ys @ b # zs)" using assms(2) xs by (subst ring_cong[of _ "bufs s"]) auto
  then have "ring (dropped b (bufs s)) (b # ys @ zs)"
    using ring_to_front[of ?bs] b(2) by (simp add: dropped_def Let_def)
  then show "\<exists>s' ys zs. brelse b s = Ok () s' \<and> xs = ys @ b # zs \<and> ring (bufs s') (b # ys @ zs)"
    using xs brelse_eq[OF assms(1) b(1)] by (intro exI[of _ "s\<lparr>procs := woken (Ch_sleeplock (buf_lock b)) s,
    slocks := (slocks s)(buf_lock b := (slocks s (buf_lock b))\<lparr>sl_locked := 0, sl_pid := 0\<rparr>),
    bufs := dropped b (bufs s)\<rparr>"] exI[of _ ys] exI[of _ zs]) simp
qed

theorem bcache_lru_witness:
  "\<exists>s'. bget 1 9 (binit zero_bio) = Ok 0 s' \<and> ring (bufs s') (rev [0..<NBUF])"
proof -
  note st = zero_bio_state(1)[THEN bstateD(1)]
  have "b_refcnt (bufs (binit zero_bio) b) = 0" if "b < NBUF" for b
    using bstateD(3)[OF zero_bio_state(1) that] by (simp add: pinned_def)
  then have "find (\<lambda>b. b_refcnt (bufs (binit zero_bio) b) = 0) (rev (rev [0..<NBUF])) = Some 0"
    unfolding rev_rev_ident find_upt_Some by simp
  then show ?thesis using bcache_lru[OF st zero_bio_state(3), of 9] zero_bio_state(4) by auto
qed

end
