(* ===== verification/Logprops.thy ===== *)
theory Logprops
  imports Log Bioprops
begin

text \<open>
  Crash safety of the log: the sequence of disk writes a commit makes, and that recovery after a crash
  between any two of them finds all of the transaction or nothing of it.
\<close>

section \<open>Sequences of disk writes\<close>

type_synonym writes = "(u32 \<times> u8 list) list"

definition apply_writes :: "writes \<Rightarrow> (u32 \<Rightarrow> u8 list) \<Rightarrow> u32 \<Rightarrow> u8 list" where
  "apply_writes ws D = fold (\<lambda>(n, v) D. D(n := v)) ws D"

lemma apply_writes_simps [simp]:
  "apply_writes [] D = D" "apply_writes ((n, v) # ws) D = apply_writes ws (D(n := v))"
  "apply_writes (us @ ws) D = apply_writes ws (apply_writes us D)"
  by (simp_all add: apply_writes_def)

lemma apply_writes_other: "n \<notin> fst ` set ws \<Longrightarrow> apply_writes ws D n = D n"
  by (induction ws arbitrary: D) auto

lemma apply_writes_in:
  "distinct (map fst ws) \<Longrightarrow> (n, v) \<in> set ws \<Longrightarrow> apply_writes ws D n = v"
proof (induction ws arbitrary: D)
  case (Cons w ws)
  then show ?case
    by (cases w; cases "w = (n, v)") (auto simp: apply_writes_other image_iff)
qed simp

text \<open>\<open>wrote p s ws s'\<close>: between \<open>s\<close> and \<open>s'\<close> process \<open>p\<close> has made the writes \<open>ws\<close>.\<close>

definition wrote :: "nat \<Rightarrow> 'z klog_scheme \<Rightarrow> writes \<Rightarrow> 'z klog_scheme \<Rightarrow> bool" where
  "wrote p s ws s' \<longleftrightarrow> bio_frame p s s' \<and> disk s' = apply_writes ws (disk s) \<and> diskw s' = diskw s @ ws"

lemma wrote_trans: "wrote p s us t \<Longrightarrow> wrote p t ws u \<Longrightarrow> wrote p s (us @ ws) u"
  by (auto simp: wrote_def intro: bio_frame_trans)

lemma wrote_frame: "wrote p s ws s' \<Longrightarrow> bio_frame p s s'"
  by (simp add: wrote_def)

lemma frame_log:
  assumes "bio_frame p s (s' :: 'z klog_scheme)"
  shows "log_start s' = log_start s" "outstanding s' = outstanding s" "committing s' = committing s"
    "log_dev s' = log_dev s" "lh s' = lh s"
  using assms by (auto simp: bio_frame_def)

lemma take_beyond: "length xs \<le> k \<Longrightarrow> take k (xs @ ys) = xs @ take (k - length xs) ys"
  by simp

section \<open>Copying a block\<close>

text \<open>The body of the loop of \<^verbatim>\<open>write_log\<close>: from the home block \<open>h\<close>, which is pinned, to the log block \<open>l\<close>.\<close>

lemma copy_to_log:
  fixes s :: "'z klog_scheme"
  assumes "bstate d p {} Pin s" "card Pin < NBUF" "h \<in> Pin" "l \<notin> Pin"
    "log_dev s = d" "of_int (log_start s + int i + 1) = l" "of_int (lh_block (lh s) i) = h"
  shows "\<exists>s'. bind (bread (log_dev s) (of_int (log_start s + int i + 1)) s) (\<lambda>to s.
      bind (bread (log_dev s) (of_int (lh_block (lh s) i)) s) (\<lambda>from s.
      let s = set_data to (data (bufs s from)) s in
      bind (bwrite to s) (\<lambda>_ s. bind (brelse from s) (\<lambda>_ s. brelse to s)))) = Ok () s'
    \<and> bstate d p {} Pin s' \<and> content d s' = (content d s)(l := content d s h)
    \<and> wrote p s [(l, content d s h)] s'"
proof -
  obtain a s1 where r1: "bread d l s = Ok a s1" "bstate d p {a} Pin s1" "blockno (bufs s1 a) = l"
    "content d s1 = content d s" "bio_frame p s s1" "disk s1 = disk s" "diskw s1 = diskw s"
    by (rule bread_ok[OF assms(1), of l]) (use assms(2) in auto)
  have hl: "h \<noteq> l" using assms(3,4) by blast
  obtain b s2 where r2: "bread d h s1 = Ok b s2" "bstate d p {b, a} Pin s2" "b \<notin> {a}" "blockno (bufs s2 b) = h"
    "data (bufs s2 b) = content d s1 h" "content d s2 = content d s1" "bio_frame p s1 s2" "disk s2 = disk s1" "diskw s2 = diskw s1"
    "\<forall>c\<in>{a}. bufs s2 c = bufs s1 c"
    by (rule bread_ok[OF r1(2), of h]) (use assms(3) r1(3) hl in auto)
  define v where "v = content d s h"
  define t where "t = upd_buf a (\<lambda>x. x\<lparr>data := v\<rparr>) s2"
  have a: "a \<in> {b, a}" by simp
  note e = data_ok[OF r2(2) a, of v, folded t_def]
  have ba: "blockno (bufs t a) = l" "blockno (bufs t b) = h" using e(6,8) r2(3,4,10) r1(3) by auto
  define s3 where "s3 = t\<lparr>disk := (disk t)(l := v), diskw := diskw t @ [(l, v)]\<rparr>"
  note w = bwrite_ok[OF e(1) a, unfolded e(7) ba, folded s3_def]
  have b3: "blockno (bufs s3 b) = h" "blockno (bufs s3 a) = l" "data (bufs s3 a) = v" using ba e(7) by (simp_all add: s3_def)
  obtain s4 where r4: "brelse b s3 = Ok () s4" "bstate d p ({b, a} - {b}) Pin s4" "content d s4 = content d s3" "bio_frame p s3 s4"
    "disk s4 = disk s3" "diskw s4 = diskw s3" "\<forall>c. data (bufs s4 c) = data (bufs s3 c) \<and> blockno (bufs s4 c) = blockno (bufs s3 c)"
    by (rule brelse_ok[OF w(2), of b]) (use b3 assms(3) in auto)
  have a4: "a \<in> {b, a} - {b}" using r2(3) by auto
  obtain s5 where r5: "brelse a s4 = Ok () s5" "bstate d p ({b, a} - {b} - {a}) Pin s5" "content d s5 = content d s4" "bio_frame p s4 s5"
    "disk s5 = disk s4" "diskw s5 = diskw s4"
    by (rule brelse_ok[OF r4(2) a4]) (use r4(5,7) b3 in \<open>simp_all add: s3_def\<close>)
  have "{b, a} - {b} - {a} = {}" by auto
  note st = r5(2)[unfolded this]
  have "bio_frame p s s5"
    using r1(5) r2(7) e(3) w(4) r4(4) r5(4) bio_frame_trans by metis
  moreover have "disk s5 = (disk s)(l := v)" "diskw s5 = diskw s @ [(l, v)]"
    using r5(5,6) r4(5,6) e(4,5) r2(8,9) r1(6,7) by (simp_all add: s3_def)
  moreover have "content d s5 = (content d s)(l := v)"
    using r5(3) r4(3) w(3) e(2) r2(6,10) r1(3,4) by simp
  ultimately show ?thesis
    using r1(1) r2(1,5) r1(4) w(1) r4(1) r5(1) st assms(5-7) frame_log[OF r1(5)]
    by (intro exI[of _ s5]) (simp add: Let_def set_data_def v_def[symmetric] t_def[symmetric] wrote_def)
qed

text \<open>
  The body of the loop of \<^verbatim>\<open>install_trans\<close> after its message: from the log block \<open>l\<close> to the home block \<open>h\<close>, which
  is pinned exactly when the log is not being recovered.
\<close>

lemma copy_home:
  fixes s :: "'z klog_scheme"
  assumes "bstate d p {} Pin s" "card Pin + 1 < NBUF \<or> h \<in> Pin \<and> card Pin < NBUF" "h \<noteq> l" "l \<notin> Pin" "rec \<longleftrightarrow> h \<notin> Pin"
    "content d s l = disk s l"
    "log_dev s = d" "of_int (log_start s + int i + 1) = l" "of_int (lh_block (lh s) i) = h"
  shows "\<exists>s'. bind (bread (log_dev s) (of_int (log_start s + int i + 1)) s) (\<lambda>lbuf s.
      bind (bread (log_dev s) (of_int (lh_block (lh s) i)) s) (\<lambda>dbuf s.
      let s = set_data dbuf (data (bufs s lbuf)) s in
      bind (bwrite dbuf s) (\<lambda>_ s.
      bind (if \<not> rec then bunpin dbuf s else Ok () s) (\<lambda>_ s.
      bind (brelse lbuf s) (\<lambda>_ s. brelse dbuf s))))) = Ok () s'
    \<and> bstate d p {} (Pin - {h}) s' \<and> content d s' = (content d s)(h := content d s l)
    \<and> wrote p s [(h, content d s l)] s'"
proof -
  obtain a s1 where r1: "bread d l s = Ok a s1" "bstate d p {a} Pin s1" "blockno (bufs s1 a) = l" "data (bufs s1 a) = content d s l"
    "content d s1 = content d s" "bio_frame p s s1" "disk s1 = disk s" "diskw s1 = diskw s"
    by (rule bread_ok[OF assms(1), of l]) (use assms(2) in auto)
  obtain b s2 where r2: "bread d h s1 = Ok b s2" "bstate d p {b, a} Pin s2" "b \<notin> {a}" "blockno (bufs s2 b) = h"
    "content d s2 = content d s1" "bio_frame p s1 s2" "disk s2 = disk s1" "diskw s2 = diskw s1" "\<forall>c\<in>{a}. bufs s2 c = bufs s1 c"
    by (rule bread_ok[OF r1(2), of h]) (use assms(2,3) r1(3) in auto)
  define v where "v = content d s l"
  define t where "t = upd_buf b (\<lambda>x. x\<lparr>data := v\<rparr>) s2"
  have b: "b \<in> {b, a}" by simp
  note e = data_ok[OF r2(2) b, of v, folded t_def]
  have at: "bufs t a = bufs s1 a" "blockno (bufs t b) = h" using e(6,8) r2(3,4,9) by auto
  define s3 where "s3 = t\<lparr>disk := (disk t)(h := v), diskw := diskw t @ [(h, v)]\<rparr>"
  note w = bwrite_ok[OF e(1) b, unfolded e(7) at(2), folded s3_def]
  have b3: "blockno (bufs s3 b) = h" "data (bufs s3 b) = v" "blockno (bufs s3 a) = l" "data (bufs s3 a) = disk s3 l"
    using at e(4,7) r1(3,4,7) r2(7) assms(3,6) by (simp_all add: s3_def)
  obtain s4 where r4: "(if \<not> rec then bunpin b s3 else Ok () s3) = Ok () s4" "bstate d p {b, a} (Pin - {h}) s4" "content d s4 = content d s3"
    "bio_frame p s3 s4" "disk s4 = disk s3" "diskw s4 = diskw s3"
    "\<forall>c. data (bufs s4 c) = data (bufs s3 c) \<and> blockno (bufs s4 c) = blockno (bufs s3 c)"
  proof (cases "rec")
    case True
    then have "Pin - {h} = Pin" using assms(5) by blast
    then show thesis using that[of s3] True w(2) by simp
  next
    case False
    then have "blockno (bufs s3 b) \<in> Pin" using assms(5) b3(1) by simp
    then show thesis by (rule bunpin_ok[OF w(2) b]) (use that False b3(1) in simp)
  qed
  obtain s5 where r5: "brelse a s4 = Ok () s5" "bstate d p ({b, a} - {a}) (Pin - {h}) s5" "content d s5 = content d s4" "bio_frame p s4 s5"
    "disk s5 = disk s4" "diskw s5 = diskw s4" "\<forall>c. data (bufs s5 c) = data (bufs s4 c) \<and> blockno (bufs s5 c) = blockno (bufs s4 c)"
    by (rule brelse_ok[OF r4(2), of a]) (use r4(5,7) b3 in auto)
  have b5: "b \<in> {b, a} - {a}" using r2(3) by auto
  obtain s6 where r6: "brelse b s5 = Ok () s6" "bstate d p ({b, a} - {a} - {b}) (Pin - {h}) s6" "content d s6 = content d s5" "bio_frame p s5 s6"
    "disk s6 = disk s5" "diskw s6 = diskw s5"
    by (rule brelse_ok[OF r5(2) b5]) (use r4(5,7) r5(5,7) b3 in \<open>simp_all add: s3_def\<close>)
  have "{b, a} - {a} - {b} = {}" by auto
  note st = r6(2)[unfolded this]
  have "bio_frame p s s6"
    using r1(6) r2(6) e(3) w(4) r4(4) r5(4) r6(4) bio_frame_trans by metis
  moreover have "disk s6 = (disk s)(h := v)" "diskw s6 = diskw s @ [(h, v)]"
    using r6(5,6) r5(5,6) r4(5,6) e(4,5) r2(7,8) r1(7,8) by (simp_all add: s3_def)
  moreover have "content d s6 = (content d s)(h := v)"
    using r6(3) r5(3) r4(3) w(3) e(2) r2(4,5) r1(5) by simp
  moreover have "data (bufs s2 a) = v" using r2(9) r1(4) v_def by simp
  ultimately show ?thesis
    using r1(1) r2(1) w(1) r4(1) r5(1) r6(1) st assms(7-9) frame_log[OF r1(6)]
    by (intro exI[of _ s6]) (simp add: Let_def set_data_def v_def[symmetric] t_def[symmetric] wrote_def del: bind_if)
qed

lemma write_head_ok:
  fixes s :: "'z klog_scheme"
  assumes "bstate (log_dev s) p {} Pin s" "card Pin < NBUF"
  defines "S \<equiv> of_int (log_start s)" and "d \<equiv> log_dev s"
  defines "v \<equiv> header_data (lh s) (content d s S)"
  shows "\<exists>s'. write_head s = Ok () s' \<and> bstate d p {} Pin s' \<and> content d s' = (content d s)(S := v)
    \<and> wrote p s [(S, v)] s'"
proof -
  obtain a s1 where r1: "bread d S s = Ok a s1" "bstate d p {a} Pin s1" "blockno (bufs s1 a) = S" "data (bufs s1 a) = content d s S"
    "content d s1 = content d s" "bio_frame p s s1" "disk s1 = disk s" "diskw s1 = diskw s"
    by (rule bread_ok[OF assms(1)[folded d_def], of S]) (use assms(2) in auto)
  define t where "t = upd_buf a (\<lambda>x. x\<lparr>data := v\<rparr>) s1"
  have a: "a \<in> {a}" by simp
  note e = data_ok[OF r1(2) a, of v, folded t_def]
  define s2 where "s2 = t\<lparr>disk := (disk t)(S := v), diskw := diskw t @ [(S, v)]\<rparr>"
  note w = bwrite_ok[OF e(1) a, unfolded e(7,8) r1(3), folded s2_def]
  obtain s3 where r3: "brelse a s2 = Ok () s3" "bstate d p ({a} - {a}) Pin s3" "content d s3 = content d s2" "bio_frame p s2 s3"
    "disk s3 = disk s2" "diskw s3 = diskw s2"
    by (rule brelse_ok[OF w(2) a]) (use e(7,8) r1(3) in \<open>simp_all add: s2_def\<close>)
  have "{a} - {a} = {}" by auto
  note st = r3(2)[unfolded this]
  have "bio_frame p s s3" using r1(6) e(3) w(4) r3(4) bio_frame_trans by metis
  moreover have "disk s3 = (disk s)(S := v)" "diskw s3 = diskw s @ [(S, v)]"
    using r3(5,6) e(4,5) r1(7,8) by (simp_all add: s2_def)
  moreover have "content d s3 = (content d s)(S := v)" using r3(3) w(3) e(2) r1(3,5) by simp
  moreover have "header_data (lh s1) (data (bufs s1 a)) = v"
    using frame_log(5)[OF r1(6)] r1(4) by (simp add: v_def)
  ultimately show ?thesis
    using r1(1) w(1) r3(1) st unfolding write_head_def d_def[symmetric] S_def[symmetric]
    by (intro exI[of _ s3]) (simp add: Let_def set_data_def t_def[symmetric] wrote_def)
qed

section \<open>The loops\<close>

definition log_block :: "'z klog_scheme \<Rightarrow> nat \<Rightarrow> u32" where
  "log_block s i = of_int (log_start s + int i + 1)"

definition home_block :: "'z klog_scheme \<Rightarrow> nat \<Rightarrow> u32" where
  "home_block s i = of_int (lh_block (lh s) i)"

abbreviation head_block :: "'z klog_scheme \<Rightarrow> u32" where
  "head_block s \<equiv> of_int (log_start s)"

text \<open>The log's blocks, the header and the home blocks of the logged data are pairwise different.\<close>

definition log_layout :: "nat \<Rightarrow> 'z klog_scheme \<Rightarrow> bool" where
  "log_layout n s \<longleftrightarrow> inj_on (log_block s) {..<n} \<and> inj_on (home_block s) {..<n}
     \<and> (\<forall>i<n. \<forall>j<n. log_block s i \<noteq> home_block s j)
     \<and> (\<forall>i<n. log_block s i \<noteq> head_block s \<and> home_block s i \<noteq> head_block s)"

lemma log_layoutD:
  assumes "log_layout n s" "i < n"
  shows "j < n \<Longrightarrow> log_block s i \<noteq> home_block s j" "j < n \<Longrightarrow> home_block s i \<noteq> log_block s j"
    "log_block s i \<noteq> head_block s" "home_block s i \<noteq> head_block s" "head_block s \<noteq> log_block s i" "head_block s \<noteq> home_block s i"
    "j < n \<Longrightarrow> log_block s i = log_block s j \<longleftrightarrow> i = j" "j < n \<Longrightarrow> home_block s i = home_block s j \<longleftrightarrow> i = j"
  using assms unfolding log_layout_def by (auto simp: inj_on_def) metis+

lemma frame_blocks:
  assumes "bio_frame p s s'"
  shows "log_block s' = log_block s" "home_block s' = home_block s"
  using frame_log[OF assms] by (simp_all add: log_block_def home_block_def fun_eq_iff)

lemma foreach_Suc: "foreach [0..<Suc k] body s = bind (foreach [0..<k] body s) (\<lambda>_ s. body k s)"
  by (simp add: foreach_append del: foreach.simps) (simp cong: bind_cong)

definition log_writes :: "'z klog_scheme \<Rightarrow> nat \<Rightarrow> writes" where
  "log_writes s n = map (\<lambda>i. (log_block s i, content (log_dev s) s (home_block s i))) [0..<n]"

definition home_writes :: "'z klog_scheme \<Rightarrow> nat \<Rightarrow> writes" where
  "home_writes s n = map (\<lambda>i. (home_block s i, content (log_dev s) s (log_block s i))) [0..<n]"

lemma fst_writes [simp]:
  "fst ` set (log_writes s n) = log_block s ` {..<n}" "fst ` set (home_writes s n) = home_block s ` {..<n}"
  by (simp_all add: log_writes_def home_writes_def image_image atLeast0LessThan)

lemma write_log_loop:
  fixes s :: "'z klog_scheme"
  assumes "bstate d p {} Pin s" "log_dev s = d" "card Pin < NBUF" "log_layout n s"
    "\<forall>i<n. home_block s i \<in> Pin \<and> log_block s i \<notin> Pin" "k \<le> n"
  shows "\<exists>s'. foreach [0..<k] (\<lambda>tail s.
       bind (bread (log_dev s) (of_int (log_start s + int tail + 1)) s) (\<lambda>to s.
       bind (bread (log_dev s) (of_int (lh_block (lh s) tail)) s) (\<lambda>from s.
       let s = set_data to (data (bufs s from)) s in
       bind (bwrite to s) (\<lambda>_ s.
       bind (brelse from s) (\<lambda>_ s.
       brelse to s))))) s = Ok () s'
    \<and> bstate d p {} Pin s' \<and> content d s' = apply_writes (log_writes s k) (content d s)
    \<and> wrote p s (log_writes s k) s'"
  using assms(6)
proof (induction k)
  case 0
  then show ?case using assms(1) by (simp add: log_writes_def wrote_def)
next
  case (Suc k)
  then obtain t where t: "foreach [0..<k] (\<lambda>tail s.
       bind (bread (log_dev s) (of_int (log_start s + int tail + 1)) s) (\<lambda>to s.
       bind (bread (log_dev s) (of_int (lh_block (lh s) tail)) s) (\<lambda>from s.
       let s = set_data to (data (bufs s from)) s in
       bind (bwrite to s) (\<lambda>_ s.
       bind (brelse from s) (\<lambda>_ s.
       brelse to s))))) s = Ok () t" "bstate d p {} Pin t" "content d t = apply_writes (log_writes s k) (content d s)"
    "wrote p s (log_writes s k) t" by auto
  note fr = wrote_frame[OF t(4)]
  have lg: "log_dev t = d" "of_int (log_start t + int k + 1) = log_block s k" "of_int (lh_block (lh t) k) = home_block s k"
    using frame_log[OF fr] assms(2) by (simp_all add: log_block_def home_block_def)
  have c: "content d t (home_block s k) = content d s (home_block s k)"
    unfolding t(3) by (rule apply_writes_other) (use log_layoutD(2)[OF assms(4), of k] Suc.prems in \<open>simp add: fst_writes image_iff\<close>)
  have k: "home_block s k \<in> Pin" "log_block s k \<notin> Pin" using assms(5) Suc.prems by auto
  obtain s' where s': "bind (bread (log_dev t) (of_int (log_start t + int k + 1)) t) (\<lambda>to s.
      bind (bread (log_dev s) (of_int (lh_block (lh s) k)) s) (\<lambda>from s.
      let s = set_data to (data (bufs s from)) s in
      bind (bwrite to s) (\<lambda>_ s. bind (brelse from s) (\<lambda>_ s. brelse to s)))) = Ok () s'"
    "bstate d p {} Pin s'" "content d s' = (content d t)(log_block s k := content d t (home_block s k))"
    "wrote p t [(log_block s k, content d t (home_block s k))] s'"
    using copy_to_log[OF t(2) assms(3) k lg] by blast
  have step: "log_writes s (Suc k) = log_writes s k @ [(log_block s k, content d s (home_block s k))]"
    using assms(2) by (simp add: log_writes_def)
  show ?case unfolding foreach_Suc t(1) bind.simps s'(1)
    using s'(2) s'(3)[unfolded c, unfolded t(3)] wrote_trans[OF t(4) s'(4)[unfolded c]] unfolding step by (simp add: fun_upd_def)
qed

text \<open>The message of \<^verbatim>\<open>install_trans\<close> has the arguments its format asks for.\<close>

lemma recovering_format: "\<exists>x. format (''recovering tail %d dst %d'' @ nl) [vint a, vint b] = Some x"
  by (simp add: vint_def fchar_def classify_def Let_def)

lemma printf_ok:
  assumes "held s = {}" "\<exists>x. format f as = Some x"
  obtains T where "printf f as s = Ok () (s\<lparr>kout := T\<rparr>)"
  using assms by (auto simp: printf_def Let_def)

lemma home_loop:
  fixes s :: "'z klog_scheme"
  assumes "bstate d p {} Pin s" "log_dev s = d" "log_layout n s" "n < NBUF"
    "Pin = (if rec then {} else home_block s ` {..<n})"
    "\<forall>i<n. content d s (log_block s i) = disk s (log_block s i)" "k \<le> n"
  shows "\<exists>s'. foreach [0..<k] (\<lambda>tail s.
       bind (if rec
             then printf (''recovering tail %d dst %d'' @ nl) [vint (int tail), vint (lh_block (lh s) tail)] s
             else Ok () s) (\<lambda>_ s.
       bind (bread (log_dev s) (of_int (log_start s + int tail + 1)) s) (\<lambda>lbuf s.
       bind (bread (log_dev s) (of_int (lh_block (lh s) tail)) s) (\<lambda>dbuf s.
       let s = set_data dbuf (data (bufs s lbuf)) s in
       bind (bwrite dbuf s) (\<lambda>_ s.
       bind (if \<not> rec then bunpin dbuf s else Ok () s) (\<lambda>_ s.
       bind (brelse lbuf s) (\<lambda>_ s.
       brelse dbuf s))))))) s = Ok () s'
    \<and> bstate d p {} (Pin - home_block s ` {..<k}) s' \<and> content d s' = apply_writes (home_writes s k) (content d s)
    \<and> wrote p s (home_writes s k) s'"
  using assms(7)
proof (induction k)
  case 0
  then show ?case using assms(1) by (simp add: home_writes_def wrote_def)
next
  case (Suc k)
  let ?msg = "''recovering tail %d dst %d'' @ nl"
  let ?Pk = "Pin - home_block s ` {..<k}"
  obtain t where t: "foreach [0..<k] (\<lambda>tail s.
       bind (if rec
             then printf ?msg [vint (int tail), vint (lh_block (lh s) tail)] s
             else Ok () s) (\<lambda>_ s.
       bind (bread (log_dev s) (of_int (log_start s + int tail + 1)) s) (\<lambda>lbuf s.
       bind (bread (log_dev s) (of_int (lh_block (lh s) tail)) s) (\<lambda>dbuf s.
       let s = set_data dbuf (data (bufs s lbuf)) s in
       bind (bwrite dbuf s) (\<lambda>_ s.
       bind (if \<not> rec then bunpin dbuf s else Ok () s) (\<lambda>_ s.
       bind (brelse lbuf s) (\<lambda>_ s.
       brelse dbuf s))))))) s = Ok () t" "bstate d p {} ?Pk t" "content d t = apply_writes (home_writes s k) (content d s)"
    "wrote p s (home_writes s k) t" using Suc by auto
  have k: "k < n" using Suc.prems by simp
  note L = log_layoutD[OF assms(3) k]
  obtain T where pr: "(if rec then printf ?msg [vint (int k), vint (lh_block (lh t) k)] t else Ok () t) = Ok () (t\<lparr>kout := T\<rparr>)"
  proof (cases rec)
    case True
    have "held t = {}" using bcache_okD(2)[OF bstateD(1)[OF t(2)]] .
    then show thesis by (rule printf_ok[OF _ recovering_format]) (use that True in simp)
  next
    case False
    then show thesis using that[of "kout t"] by simp
  qed
  let ?t = "t\<lparr>kout := T\<rparr>"
  have fr: "bio_frame p s ?t" by (rule bio_frame_trans[OF wrote_frame[OF t(4)] bio_frame_kout])
  have lg: "log_dev ?t = d" "of_int (log_start ?t + int k + 1) = log_block s k" "of_int (lh_block (lh ?t) k) = home_block s k"
    using frame_log[OF fr] assms(2) by (simp_all add: log_block_def home_block_def)
  have w: "log_block s k \<notin> fst ` set (home_writes s k)" using L(1) k by (simp add: image_iff)
  have c: "content d ?t (log_block s k) = content d s (log_block s k)"
    unfolding kout_ok(2) t(3) by (rule apply_writes_other[OF w])
  have ds: "content d ?t (log_block s k) = disk ?t (log_block s k)"
    unfolding c assms(6)[rule_format, OF k] using t(4) apply_writes_other[OF w, of "disk s"] by (simp add: wrote_def)
  have pin: "home_block s k \<in> ?Pk \<longleftrightarrow> \<not> rec" "log_block s k \<notin> ?Pk"
    using L(1,8) k assms(5) by (auto simp: image_iff)
  have card: "card ?Pk + 1 < NBUF \<or> home_block s k \<in> ?Pk \<and> card ?Pk < NBUF"
  proof (cases rec)
    case False
    have "card ?Pk \<le> card Pin" using bstateD(2)[OF assms(1)] by (intro card_mono) auto
    also have "\<dots> \<le> n" using False assms(5) card_image_le[of "{..<n}" "home_block s"] by simp
    finally show ?thesis using False pin(1) assms(4) by simp
  qed (use assms(5) in simp)
  have ne: "home_block s k \<noteq> log_block s k" using L(2)[OF k] .
  have rec: "rec \<longleftrightarrow> home_block s k \<notin> ?Pk" using pin(1) by blast
  obtain s' where s': "bind (bread (log_dev ?t) (of_int (log_start ?t + int k + 1)) ?t) (\<lambda>lbuf s.
      bind (bread (log_dev s) (of_int (lh_block (lh s) k)) s) (\<lambda>dbuf s.
      let s = set_data dbuf (data (bufs s lbuf)) s in
      bind (bwrite dbuf s) (\<lambda>_ s.
      bind (if \<not> rec then bunpin dbuf s else Ok () s) (\<lambda>_ s.
      bind (brelse lbuf s) (\<lambda>_ s. brelse dbuf s))))) = Ok () s'"
    "bstate d p {} (?Pk - {home_block s k}) s'" "content d s' = (content d ?t)(home_block s k := content d ?t (log_block s k))"
    "wrote p ?t [(home_block s k, content d ?t (log_block s k))] s'"
    using copy_home[OF kout_ok(1)[OF t(2)] card ne pin(2) rec ds lg] by blast
  have step: "home_writes s (Suc k) = home_writes s k @ [(home_block s k, content d s (log_block s k))]"
    using assms(2) by (simp add: home_writes_def)
  have "wrote p t [(home_block s k, content d s (log_block s k))] s'"
    using s'(4) c bio_frame_trans[OF bio_frame_kout] unfolding wrote_def by force
  note tr = wrote_trans[OF t(4) this]
  have "?Pk - {home_block s k} = Pin - home_block s ` {..<Suc k}" by (auto simp: lessThan_Suc)
  then show ?case unfolding foreach_Suc t(1) bind.simps pr s'(1)
    using s'(2) s'(3)[unfolded c, unfolded kout_ok(2) t(3)] tr unfolding step by (simp add: fun_upd_def)
qed

section \<open>The header block\<close>

lemma length_put_bytes: "off + length xs \<le> length bs \<Longrightarrow> length (put_bytes off xs bs) = length bs"
  by (simp add: put_bytes_def)

lemma length_put32: "4 * i + 4 \<le> length bs \<Longrightarrow> length (put32 bs i v) = length bs"
  by (simp add: put32_def length_put_bytes)

lemma get32_put32:
  assumes "4 * i + 4 \<le> length bs" "4 * j + 4 \<le> length bs"
  shows "get32 (put32 bs i v) j = (if i = j then v else get32 bs j)"
proof (cases "i = j")
  case True
  then have "take 4 (drop (4 * j) (put32 bs i v)) = le_bytes 4 v"
    using assms by (simp add: put32_def put_bytes_def)
  then show ?thesis using True by (simp add: get32_def le_val_le_bytes take_bit_word_eq_self)
next
  case False
  then consider "4 * i + 4 \<le> 4 * j" | "4 * j + 4 \<le> 4 * i" by linarith
  then have "take 4 (drop (4 * j) (put32 bs i v)) = take 4 (drop (4 * j) bs)"
  proof cases
    case 1
    then show ?thesis using assms by (simp add: put32_def put_bytes_def)
  next
    case 2
    then have "4 \<le> 4 * i - 4 * j" by arith
    then show ?thesis using assms 2 by (simp add: put32_def put_bytes_def drop_take)
  qed
  then show ?thesis using False by (simp add: get32_def)
qed

lemma header_fold:
  fixes f :: "nat \<Rightarrow> int"
  assumes "k \<le> 30" "length bs = 1024"
  defines "r \<equiv> fold (\<lambda>i d. put32 d (i + 1) (of_int (f i))) [0..<k] bs"
  shows "length r = 1024 \<and> get32 r 0 = get32 bs 0 \<and> (\<forall>i<k. get32 r (i + 1) = of_int (f i))"
  using assms(1) unfolding r_def
proof (induction k)
  case (Suc k)
  let ?r = "fold (\<lambda>i d. put32 d (i + 1) (of_int (f i))) [0..<k] bs"
  have IH: "length ?r = 1024" "get32 ?r 0 = get32 bs 0" "\<forall>i<k. get32 ?r (i + 1) = of_int (f i)" using Suc by auto
  have *: "fold (\<lambda>i d. put32 d (i + 1) (of_int (f i))) [0..<Suc k] bs = put32 ?r (k + 1) (of_int (f k))" by simp
  have "get32 (put32 ?r (k + 1) (of_int (f k))) (i + 1) = of_int (f i)" if "i < Suc k" for i
    using that IH(1,3) Suc.prems by (cases "i = k") (simp_all add: get32_put32)
  moreover have "get32 (put32 ?r (k + 1) (of_int (f k))) 0 = get32 bs 0" using IH(1,2) Suc.prems by (simp add: get32_put32)
  moreover have "length (put32 ?r (k + 1) (of_int (f k))) = 1024" using IH(1) Suc.prems by (simp add: length_put32)
  ultimately show ?case unfolding * by blast
qed (use assms(2) in simp)

lemma header_data_get:
  assumes "nat (lh_n h) \<le> 30" "length bs = 1024"
  shows "length (header_data h bs) = 1024" "get32 (header_data h bs) 0 = of_int (lh_n h)"
    "i < nat (lh_n h) \<Longrightarrow> get32 (header_data h bs) (i + 1) = of_int (lh_block h i)"
  using header_fold[OF assms(1), of "put32 bs 0 (of_int (lh_n h))" "lh_block h"] assms(2)
  by (simp_all add: header_data_def length_put32 get32_put32)

section \<open>Commit\<close>

lemma lh_ok:
  fixes s :: "'z klog_scheme"
  shows "bstate d p K Pin s \<Longrightarrow> bstate d p K Pin (s\<lparr>lh := h\<rparr>)" "content d (s\<lparr>lh := h\<rparr>) = content d s"
proof -
  have *: "cached d (s\<lparr>lh := h\<rparr>) = cached d s" "buf_ok d (s\<lparr>lh := h\<rparr>) = buf_ok d s" "lock_ok p (s\<lparr>lh := h\<rparr>) = lock_ok p s"
    "pinned d Pin (s\<lparr>lh := h\<rparr>) = pinned d Pin s" "bufs (s\<lparr>lh := h\<rparr>) = bufs s" "slocks (s\<lparr>lh := h\<rparr>) = slocks s"
    "cur (s\<lparr>lh := h\<rparr>) = cur s" "held (s\<lparr>lh := h\<rparr>) = held s"
    by (simp_all add: fun_eq_iff cached_def buf_ok_def lock_ok_def pinned_def)
  show "bstate d p K Pin s \<Longrightarrow> bstate d p K Pin (s\<lparr>lh := h\<rparr>)" unfolding bstate_def bcache_ok_def * .
  show "content d (s\<lparr>lh := h\<rparr>) = content d s" by (rule content_cong) simp_all
qed

text \<open>The writes of a commit, in their order.\<close>

definition commit_writes :: "'z klog_scheme \<Rightarrow> nat \<Rightarrow> writes" where
  "commit_writes s n = (let S = head_block s; c = content (log_dev s) s; h = header_data (lh s) (c S) in
     map (\<lambda>i. (log_block s i, c (home_block s i))) [0..<n] @ [(S, h)]
     @ map (\<lambda>i. (home_block s i, c (home_block s i))) [0..<n] @ [(S, header_data ((lh s)\<lparr>lh_n := 0\<rparr>) h)])"

lemma distinct_log_writes: "log_layout n s \<Longrightarrow> distinct (map fst (log_writes s n))"
  by (simp add: log_writes_def comp_def distinct_map atLeast0LessThan log_layout_def)

lemma commit_ok:
  fixes s :: "'z klog_scheme"
  assumes "bstate d p {} (home_block s ` {..<n}) s" "log_dev s = d" "lh_n (lh s) = int n" "0 < n" "n < NBUF" "log_layout n s"
  shows "\<exists>s'. commit s = Ok () s' \<and> bstate d p {} {} s' \<and> disk s' = apply_writes (commit_writes s n) (disk s)
    \<and> diskw s' = diskw s @ commit_writes s n \<and> content d s' = apply_writes (commit_writes s n) (content d s)
    \<and> lh s' = (lh s)\<lparr>lh_n := 0\<rparr>"
proof -
  let ?Pin = "home_block s ` {..<n}" and ?S = "head_block s"
  let ?h = "header_data (lh s) (content d s ?S)"
  note L = log_layoutD[OF assms(6)]
  have card: "card ?Pin < NBUF" using card_image_le[of "{..<n}" "home_block s"] assms(5) by simp
  have pins: "\<forall>i<n. home_block s i \<in> ?Pin \<and> log_block s i \<notin> ?Pin"
    using L(1) by (simp add: image_iff) blast
  obtain s1 where s1: "write_log s = Ok () s1" "bstate d p {} ?Pin s1" "content d s1 = apply_writes (log_writes s n) (content d s)"
    "wrote p s (log_writes s n) s1"
    using write_log_loop[OF assms(1,2) card assms(6) pins, of n] assms(3) by (auto simp: write_log_def)
  note f1 = frame_log[OF wrote_frame[OF s1(4)]] and b1 = frame_blocks[OF wrote_frame[OF s1(4)]]
  have "?S \<notin> fst ` set (log_writes s n)" using L(5) by (auto simp: image_iff)
  then have S1: "content d s1 ?S = content d s ?S" unfolding s1(3) by (rule apply_writes_other)
  obtain s2 where s2: "write_head s1 = Ok () s2" "bstate d p {} ?Pin s2" "content d s2 = (content d s1)(?S := ?h)"
    "wrote p s1 [(?S, ?h)] s2"
    using write_head_ok[of s1 p ?Pin] s1(2) card assms(2) f1 S1 by auto
  note w2 = wrote_trans[OF s1(4) s2(4)]
  note f2 = frame_log[OF wrote_frame[OF w2]] and b2 = frame_blocks[OF wrote_frame[OF w2]]
  have log2: "content d s2 (log_block s i) = content d s (home_block s i)" if "i < n" for i
    using that L(3)[OF that] apply_writes_in[OF distinct_log_writes[OF assms(6)], of "log_block s i" "content d s (home_block s i)" "content d s"]
    unfolding s2(3) s1(3) by (simp add: log_writes_def assms(2))
  have disk2: "disk s2 (log_block s i) = content d s (home_block s i)" if "i < n" for i
    using that L(3)[OF that] w2 apply_writes_in[OF distinct_log_writes[OF assms(6)], of "log_block s i" "content d s (home_block s i)" "disk s"]
    unfolding wrote_def by (simp add: log_writes_def assms(2))
  have dev2: "log_dev s2 = d" using f2(4) assms(2) by simp
  have lay2: "log_layout n s2" using assms(6) unfolding log_layout_def b2 f2 .
  obtain s3 where s3: "install_trans False s2 = Ok () s3" "bstate d p {} {} s3"
    "content d s3 = apply_writes (home_writes s2 n) (content d s2)" "wrote p s2 (home_writes s2 n) s3"
    using home_loop[OF s2(2) dev2 lay2 assms(5), of False n, unfolded b2] log2 disk2 f2(5) assms(3)
    by (auto simp: install_trans_def)
  have hw: "home_writes s2 n = map (\<lambda>i. (home_block s i, content d s (home_block s i))) [0..<n]"
    unfolding home_writes_def b2 dev2 using log2 by simp
  note w3 = wrote_trans[OF w2 s3(4)]
  note f3 = frame_log[OF wrote_frame[OF w3]]
  define u where "u = set_lh_n 0 s3"
  have u: "bstate d p {} {} u" "content d u = content d s3" "log_dev u = d" "log_start u = log_start s" "lh u = (lh s)\<lparr>lh_n := 0\<rparr>"
    "disk u = disk s3" "diskw u = diskw s3"
    using lh_ok(1)[OF s3(2)] lh_ok(2) f3 assms(2) by (simp_all add: u_def set_lh_n_def)
  have "?S \<notin> fst ` set (home_writes s2 n)" using L(6) by (auto simp: b2 image_iff)
  then have S3: "content d s3 ?S = ?h" unfolding s3(3) by (subst apply_writes_other) (simp_all add: s2(3))
  have Su: "content d u ?S = ?h" unfolding u(2) by (rule S3)
  let ?cleared = "header_data ((lh s)\<lparr>lh_n := 0\<rparr>) ?h"
  obtain s4 where s4: "write_head u = Ok () s4" "bstate d p {} {} s4" "content d s4 = (content d u)(?S := ?cleared)"
    "wrote p u [(?S, ?cleared)] s4"
    using write_head_ok[of u p "{}", unfolded u(3,4,5) Su, OF u(1)] by (simp, blast)
  have cw: "commit_writes s n = ((log_writes s n @ [(?S, ?h)]) @ home_writes s2 n) @ [(?S, ?cleared)]"
    by (simp add: commit_writes_def Let_def log_writes_def hw assms(2))
  have "commit s = Ok () s4"
    using s1(1) s2(1) s3(1) s4(1) assms(3,4) by (simp add: commit_def u_def)
  moreover have "disk s4 = apply_writes (commit_writes s n) (disk s)" "diskw s4 = diskw s @ commit_writes s n"
    using s4(4) w3 u(6,7) unfolding wrote_def cw by simp_all
  moreover have "content d s4 = apply_writes (commit_writes s n) (content d s)"
    unfolding s4(3) u(2) s3(3) s2(3) s1(3) cw by simp
  moreover have "lh s4 = (lh s)\<lparr>lh_n := 0\<rparr>" using frame_log(5)[OF wrote_frame[OF s4(4)]] u(5) by simp
  ultimately show ?thesis using s4(2) by blast
qed

section \<open>Disk images and their recovery\<close>

type_synonym image = "u32 \<Rightarrow> u8 list"

definition img_count :: "u32 \<Rightarrow> image \<Rightarrow> nat" where
  "img_count S E = nat (sint (get32 (E S) 0))"

definition img_home :: "u32 \<Rightarrow> image \<Rightarrow> nat \<Rightarrow> u32" where
  "img_home S E i = get32 (E S) (i + 1)"

definition img_log :: "u32 \<Rightarrow> nat \<Rightarrow> u32" where
  "img_log S i = S + of_nat i + 1"

text \<open>An image whose header is one a commit or a recovery has written.\<close>

definition log_image :: "u32 \<Rightarrow> image \<Rightarrow> bool" where
  "log_image S E \<longleftrightarrow> length (E S) = 1024 \<and> sint (get32 (E S) 0) \<ge> 0 \<and> img_count S E < NBUF
     \<and> inj_on (img_log S) {..<img_count S E} \<and> inj_on (img_home S E) {..<img_count S E}
     \<and> (\<forall>i<img_count S E. \<forall>j<img_count S E. img_log S i \<noteq> img_home S E j)
     \<and> (\<forall>i<img_count S E. img_log S i \<noteq> S \<and> img_home S E i \<noteq> S)"

text \<open>What the blocks hold once the log of the image is installed, and the writes that do it.\<close>

definition recovered :: "u32 \<Rightarrow> image \<Rightarrow> image" where
  "recovered S E m = (case find (\<lambda>i. img_home S E i = m) [0..<img_count S E] of
     None \<Rightarrow> E m | Some i \<Rightarrow> E (img_log S i))"

definition install_writes :: "u32 \<Rightarrow> image \<Rightarrow> writes" where
  "install_writes S E = map (\<lambda>i. (img_home S E i, E (img_log S i))) [0..<img_count S E]"

definition recover_writes :: "u32 \<Rightarrow> image \<Rightarrow> writes" where
  "recover_writes S E = install_writes S E @ [(S, put32 (E S) 0 0)]"

lemma install_writes_recovered:
  assumes "inj_on (img_home S E) {..<img_count S E}"
  shows "apply_writes (install_writes S E) E m = recovered S E m"
proof (cases "find (\<lambda>i. img_home S E i = m) [0..<img_count S E]")
  case None
  then have "m \<notin> fst ` set (install_writes S E)" by (auto simp: find_None_iff install_writes_def)
  then show ?thesis using None by (simp add: recovered_def apply_writes_other)
next
  case (Some i)
  then have i: "i < img_count S E" "img_home S E i = m" by (auto simp: find_Some_iff)
  have "distinct (map fst (install_writes S E))"
    using assms by (simp add: install_writes_def comp_def distinct_map atLeast0LessThan)
  then have "apply_writes (install_writes S E) E m = E (img_log S i)"
    by (rule apply_writes_in) (use i in \<open>auto simp: install_writes_def\<close>)
  then show ?thesis using Some by (simp add: recovered_def)
qed

lemma length_install [simp]: "length (install_writes S E) = img_count S E"
  by (simp add: install_writes_def)

lemma recovered_0: "img_count S E = 0 \<Longrightarrow> recovered S E = E"
  by (simp add: recovered_def fun_eq_iff)

lemma log_image_0: "img_count S E = 0 \<Longrightarrow> length (E S) = 1024 \<Longrightarrow> sint (get32 (E S) 0) \<ge> 0 \<Longrightarrow> log_image S E"
  by (simp add: log_image_def)

lemma cleared_image:
  assumes "length bs = 1024" "E S = put32 bs 0 0"
  shows "log_image S E" "recovered S E = E"
proof -
  have "get32 (E S) 0 = 0" "length (E S) = 1024" using assms by (simp_all add: get32_put32 length_put32)
  then have "img_count S E = 0" "length (E S) = 1024" "sint (get32 (E S) 0) \<ge> 0" by (simp_all add: img_count_def)
  then show "log_image S E" "recovered S E = E" using log_image_0 recovered_0 by blast+
qed

text \<open>Two images with the same header and logged blocks that differ only in home blocks recover to the same.\<close>

lemma recovered_cong:
  assumes "E' S = E S" "\<And>i. i < img_count S E \<Longrightarrow> E' (img_log S i) = E (img_log S i)"
    "\<And>m. m \<notin> img_home S E ` {..<img_count S E} \<Longrightarrow> E' m = E m"
  shows "recovered S E' = recovered S E" "log_image S E' = log_image S E"
proof -
  have h: "img_count S E' = img_count S E" "img_home S E' = img_home S E"
    using assms(1) by (simp_all add: img_count_def img_home_def fun_eq_iff)
  show "log_image S E' = log_image S E" unfolding log_image_def h assms(1) ..
  show "recovered S E' = recovered S E"
  proof
    fix m
    show "recovered S E' m = recovered S E m"
    proof (cases "find (\<lambda>i. img_home S E i = m) [0..<img_count S E]")
      case None
      then have "m \<notin> img_home S E ` {..<img_count S E}" by (auto simp: find_None_iff)
      then show ?thesis using None assms(3) by (simp add: recovered_def h)
    next
      case (Some i)
      then have "i < img_count S E" by (auto simp: find_Some_iff)
      then show ?thesis using Some assms(2) by (simp add: recovered_def h)
    qed
  qed
qed

lemma set_take_install: "fst ` set (take j (install_writes S E)) \<subseteq> img_home S E ` {..<img_count S E}"
  using set_take_subset[of j "install_writes S E"] by (force simp: install_writes_def)

text \<open>A prefix of the writes of a recovery leaves an image that recovers to the same blocks.\<close>

lemma recover_prefix:
  fixes E :: image and j :: nat
  assumes "log_image S E"
  defines "E' \<equiv> apply_writes (take j (recover_writes S E)) E"
  shows "log_image S E'" "m \<noteq> S \<Longrightarrow> recovered S E' m = recovered S E m"
proof -
  note I = assms(1)[unfolded log_image_def]
  have "log_image S E' \<and> (m \<noteq> S \<longrightarrow> recovered S E' m = recovered S E m)"
  proof (cases "j \<le> img_count S E")
    case True
    then have E': "E' = apply_writes (take j (install_writes S E)) E" by (simp add: E'_def recover_writes_def)
    have other: "E' m = E m" if "m \<notin> img_home S E ` {..<img_count S E}" for m
      unfolding E' by (rule apply_writes_other) (use set_take_install that in blast)
    have "E' S = E S" by (rule other) (use I in auto)
    moreover have "E' (img_log S i) = E (img_log S i)" if "i < img_count S E" for i
      by (rule other) (use I that in auto)
    ultimately show ?thesis using recovered_cong[of E' S E] other assms(1) by simp
  next
    case False
    then have "E' = (apply_writes (install_writes S E) E)(S := put32 (E S) 0 0)"
      by (simp add: E'_def recover_writes_def)
    then show ?thesis using cleared_image[of "E S" E' S] install_writes_recovered[of S E m] I by simp
  qed
  then show "log_image S E'" "m \<noteq> S \<Longrightarrow> recovered S E' m = recovered S E m" by blast+
qed

section \<open>Recovery\<close>

lemma content_clean:
  assumes "bstate d p {} Pin s" "m \<notin> Pin"
  shows "content d s m = disk s m"
proof (cases "\<exists>b. cached d s m b \<and> valid (bufs s b) \<noteq> 0")
  case True
  then obtain b where b: "cached d s m b" "valid (bufs s b) \<noteq> 0" by blast
  then have lt: "b < NBUF" "blockno (bufs s b) = m" by (auto simp: cached_def)
  have "b_refcnt (bufs s b) = 0" using bstateD(3)[OF assms(1) lt(1)] assms(2) lt(2) by (simp add: pinned_def)
  then have "data (bufs s b) = disk s m"
    using bcache_okD(4)[OF bstateD(1)[OF assms(1)] lt(1)] b(2) lt(2) by (simp add: buf_ok_def)
  then show ?thesis using content_cached[OF bstateD(1)[OF assms(1)] b] by simp
next
  case False
  then have "find (\<lambda>b. dev (bufs s b) = d \<and> blockno (bufs s b) = m \<and> valid (bufs s b) \<noteq> 0) [0..<NBUF] = None"
    by (auto simp: find_None_iff cached_def)
  then show ?thesis by (simp add: content_def)
qed

lemma log_fields_ok:
  fixes s :: "'z klog_scheme"
  shows "bstate d p K Pin s \<Longrightarrow> bstate d p K Pin (s\<lparr>log_start := a, log_dev := e\<rparr>)"
proof -
  let ?t = "s\<lparr>log_start := a, log_dev := e\<rparr>"
  have *: "cached d ?t = cached d s" "buf_ok d ?t = buf_ok d s" "lock_ok p ?t = lock_ok p s"
    "pinned d Pin ?t = pinned d Pin s" "bufs ?t = bufs s" "slocks ?t = slocks s" "cur ?t = cur s" "held ?t = held s"
    by (simp_all add: fun_eq_iff cached_def buf_ok_def lock_ok_def pinned_def)
  show "bstate d p K Pin s \<Longrightarrow> bstate d p K Pin ?t" unfolding bstate_def bcache_ok_def * .
qed

lemma read_head_ok:
  fixes s :: "'z klog_scheme"
  assumes "bstate d p {} {} s" "log_dev s = d" "sint (get32 (disk s (head_block s)) 0) \<le> int LOGBLOCKS"
  shows "\<exists>s'. read_head s = Ok () s' \<and> bstate d p {} {} s' \<and> disk s' = disk s \<and> diskw s' = diskw s
    \<and> log_start s' = log_start s \<and> log_dev s' = d \<and> lh_n (lh s') = sint (get32 (disk s (head_block s)) 0)
    \<and> (\<forall>i < nat (lh_n (lh s')). lh_block (lh s') i = sint (get32 (disk s (head_block s)) (i + 1)))"
proof -
  let ?S = "head_block s"
  have cS: "content d s ?S = disk s ?S" by (rule content_clean[OF assms(1)]) simp
  obtain a s1 where r1: "bread d ?S s = Ok a s1" "bstate d p {a} {} s1" "blockno (bufs s1 a) = ?S" "data (bufs s1 a) = disk s ?S"
    "bio_frame p s s1" "disk s1 = disk s" "diskw s1 = diskw s"
    by (rule bread_ok[OF assms(1), of ?S]) (use cS in auto)
  define h where "h = \<lparr>lh_n = sint (get32 (disk s ?S) 0), lh_block = (\<lambda>i. if i < nat (sint (get32 (disk s ?S) 0))
    then sint (get32 (disk s ?S) (i + 1)) else lh_block (lh s1) i)\<rparr>"
  obtain s2 where r2: "brelse a (s1\<lparr>lh := h\<rparr>) = Ok () s2" "bstate d p ({a} - {a}) {} s2" "bio_frame p (s1\<lparr>lh := h\<rparr>) s2"
    "disk s2 = disk s1" "diskw s2 = diskw s1"
    by (rule brelse_ok[OF lh_ok(1)[OF r1(2), of h], of a]) (use r1(3,4,6) in auto)
  have "{a} - {a} = {}" by auto
  note st = r2(2)[unfolded this]
  have "read_head s = brelse a (s1\<lparr>lh := h\<rparr>)"
    unfolding read_head_def assms(2) r1(1) bind.simps Let_def r1(4) h_def using assms(3) by simp
  then show ?thesis
    using r1(6,7) r2(1,4,5) st frame_log[OF r1(5)] frame_log[OF r2(3)] assms(2)
    by (intro exI[of _ s2]) (simp, simp add: h_def)
qed

lemma head_log: "of_int (log_start s + int i + 1) = img_log (of_int (log_start s)) i"
  by (simp add: img_log_def)

lemma header_data_0: "lh_n h = 0 \<Longrightarrow> header_data h bs = put32 bs 0 0"
  by (simp add: header_data_def)

lemma initlog_ok:
  fixes r :: "'z klog_scheme"
  assumes "bstate d q {} {} r" "log_image S (disk r)" "S = of_int start"
  shows "\<exists>r'. initlog d start r = Ok () r' \<and> bstate d q {} {} r'
    \<and> disk r' = apply_writes (recover_writes S (disk r)) (disk r) \<and> diskw r' = diskw r @ recover_writes S (disk r)"
proof -
  let ?E = "disk r" and ?r = "r\<lparr>log_start := start, log_dev := d\<rparr>"
  let ?n = "img_count S ?E"
  note I = assms(2)[unfolded log_image_def]
  have cnt: "sint (get32 (?E S) 0) = int ?n" using I by (simp add: img_count_def)
  obtain r1 where r1: "read_head ?r = Ok () r1" "bstate d q {} {} r1" "disk r1 = ?E" "diskw r1 = diskw r"
    "log_start r1 = start" "log_dev r1 = d" "lh_n (lh r1) = int ?n" "\<forall>i<?n. lh_block (lh r1) i = sint (get32 (?E S) (i + 1))"
  proof -
    have "log_dev ?r = d" "of_int (log_start ?r) = S" "disk ?r = ?E" "diskw ?r = diskw r" "log_start ?r = start" using assms(3) by simp_all
    note e = this
    have "int ?n \<le> int LOGBLOCKS" using I by simp
    from read_head_ok[OF log_fields_ok[OF assms(1), where a = start and e = d], unfolded e, unfolded assms(3)[symmetric] cnt, OF refl this]
    obtain t where t: "read_head ?r = Ok () t" "bstate d q {} {} t" "disk t = ?E" "diskw t = diskw r"
      "log_start t = start" "log_dev t = d" "lh_n (lh t) = int ?n"
      "\<forall>i<nat (lh_n (lh t)). lh_block (lh t) i = sint (get32 (?E S) (i + 1))" by blast
    show thesis by (rule that[OF t(1-7)]) (use t(7,8) in simp)
  qed
  have hb: "home_block r1 i = img_home S ?E i" if "i < ?n" for i
    using r1(8) that by (simp add: home_block_def img_home_def)
  have lb: "log_block r1 i = img_log S i" for i using r1(5) assms(3) by (simp add: log_block_def img_log_def)
  have him: "home_block r1 ` {..<?n} = img_home S ?E ` {..<?n}" using hb by simp
  have inj: "inj_on (home_block r1) {..<?n} = inj_on (img_home S ?E) {..<?n}" by (rule inj_on_cong) (simp add: hb)
  have lay: "log_layout ?n r1" using I unfolding log_layout_def inj lb r1(5) assms(3)[symmetric] by (simp add: hb)
  have cl: "content d r1 m = ?E m" for m using content_clean[OF r1(2)] r1(3) by simp
  have hw: "home_writes r1 ?n = install_writes S ?E"
    using hb cl r1(6) by (simp add: home_writes_def install_writes_def lb)
  obtain r2 where r2: "install_trans True r1 = Ok () r2" "bstate d q {} {} r2"
    "wrote q r1 (install_writes S ?E) r2"
    using home_loop[OF r1(2,6) lay, of True ?n] cl r1(3,7) I hw by (auto simp: install_trans_def)
  note f2 = frame_log[OF wrote_frame[OF r2(3)]]
  define u where "u = set_lh_n 0 r2"
  have u: "bstate d q {} {} u" "log_dev u = d" "log_start u = start" "lh_n (lh u) = 0" "disk u = disk r2" "diskw u = diskw r2"
    using lh_ok(1)[OF r2(2)] f2 r1(5,6) by (simp_all add: u_def set_lh_n_def)
  have "S \<notin> fst ` set (install_writes S ?E)" using I by (auto simp: install_writes_def)
  then have "disk r2 S = ?E S" using r2(3) r1(3) by (simp add: wrote_def apply_writes_other)
  then have Su: "content d u S = ?E S" using content_clean[OF u(1)] u(5) by simp
  obtain r3 where r3: "write_head u = Ok () r3" "bstate d q {} {} r3" "wrote q u [(S, put32 (?E S) 0 0)] r3"
    using write_head_ok[of u q "{}", unfolded u(2,3) assms(3)[symmetric] Su header_data_0[OF u(4)], OF u(1)] by (simp, blast)
  have "initlog d start r = Ok () r3"
    using r1(1) r2(1) r3(1) by (simp add: initlog_def recover_from_log_def u_def)
  then show ?thesis using r3(2,3) r2(3) u(5,6) r1(3,4) by (auto simp: wrote_def recover_writes_def)
qed

lemma recovered_after: "log_image S E \<Longrightarrow> m \<noteq> S \<Longrightarrow> apply_writes (recover_writes S E) E m = recovered S E m"
  using install_writes_recovered[of S E m] by (simp add: recover_writes_def log_image_def)

text \<open>
  The disk images after crashes: \<open>crashes d start E F\<close> when the machine, started any number of times from a
  disk that held \<open>E\<close>, went down each time between two writes of its recovery, or after them, and the disk holds \<open>F\<close> now.
\<close>

inductive crashes :: "u32 \<Rightarrow> int \<Rightarrow> image \<Rightarrow> image \<Rightarrow> bool" for d start where
  off: "crashes d start E E"
| crash: "crashes d start E F \<Longrightarrow> bstate d q {} {} (r :: klog) \<Longrightarrow> disk r = F \<Longrightarrow> diskw r = []
    \<Longrightarrow> initlog d start r = Ok () r' \<Longrightarrow> crashes d start E (apply_writes (take j (diskw r')) F)"

lemma crashes_recovered:
  assumes "crashes d start E F" "log_image (of_int start) E"
  shows "log_image (of_int start) F \<and> (\<forall>m. m \<noteq> of_int start \<longrightarrow> recovered (of_int start) F m = recovered (of_int start) E m)"
  using assms
proof (induction rule: crashes.induct)
  case (crash E F q r r' j)
  then have F: "log_image (of_int start) F" "\<And>m. m \<noteq> of_int start \<Longrightarrow> recovered (of_int start) F m = recovered (of_int start) E m"
    by blast+
  have "diskw r' = recover_writes (of_int start) F"
    using initlog_ok[OF crash(2), of "of_int start" start] F(1) crash(3-5) by auto
  then show ?case using recover_prefix[OF F(1), where j = j] F(2) by simp
qed simp

text \<open>The image a crash during a commit leaves recovers to the old blocks up to the write of the header, to the new ones from then on.\<close>

lemma commit_prefix:
  fixes s :: "'z klog_scheme" and k :: nat
  assumes "bstate d p {} (home_block s ` {..<n}) s" "log_dev s = d" "lh_n (lh s) = int n" "n < NBUF" "log_layout n s"
    "length (disk s (head_block s)) = 1024" "get32 (disk s (head_block s)) 0 = 0"
  defines "E \<equiv> apply_writes (take k (commit_writes s n)) (disk s)"
  shows "log_image (head_block s) E \<and> (\<forall>m. m \<noteq> head_block s \<longrightarrow> m \<notin> log_block s ` {..<n}
    \<longrightarrow> recovered (head_block s) E m = (if n < k then content d s m else disk s m))"
proof -
  let ?S = "head_block s" and ?c = "content d s"
  define h where "h = header_data (lh s) (disk s ?S)"
  note L = log_layoutD[OF assms(5)]
  have cS: "?c ?S = disk s ?S" by (rule content_clean[OF assms(1)]) (use L(6) in auto)
  have A: "log_writes s n = map (\<lambda>i. (log_block s i, ?c (home_block s i))) [0..<n]"
    using assms(2) by (simp add: log_writes_def)
  have ws: "commit_writes s n = log_writes s n @ [(?S, h)] @ map (\<lambda>i. (home_block s i, ?c (home_block s i))) [0..<n] @ [(?S, put32 h 0 0)]"
    by (simp add: commit_writes_def Let_def A h_def cS assms(2) header_data_0)
  have nS: "?S \<notin> fst ` set (log_writes s n)" using L(5) by (auto simp: image_iff)
  show ?thesis
  proof (cases "n < k")
    case False
    then have E: "E = apply_writes (take k (log_writes s n)) (disk s)" by (simp add: E_def ws log_writes_def)
    have sub: "fst ` set (take k (log_writes s n)) \<subseteq> fst ` set (log_writes s n)" using set_take_subset by (intro image_mono)
    have "E ?S = disk s ?S" unfolding E by (rule apply_writes_other) (use sub nS in blast)
    then have z: "img_count ?S E = 0" "length (E ?S) = 1024" "sint (get32 (E ?S) 0) \<ge> 0"
      using assms(6,7) by (simp_all add: img_count_def)
    have "E m = disk s m" if "m \<notin> log_block s ` {..<n}" for m
      unfolding E by (rule apply_writes_other) (use sub that in auto)
    then show ?thesis using False log_image_0[OF z] recovered_0[OF z(1)] by simp
  next
    case True
    define F where "F = (apply_writes (log_writes s n) (disk s))(?S := h)"
    have FS: "F ?S = h" by (simp add: F_def)
    note hd = header_data_get[of "lh s" "disk s ?S", folded h_def, OF _ assms(6)]
    have n30: "nat (lh_n (lh s)) \<le> 30" using assms(3,4) by simp
    have "sint (of_int (int n) :: u32) = int n" using assms(4) by (simp add: signed_of_int signed_take_bit_int_eq_self del: of_int_of_nat_eq)
    then have "sint (get32 h 0) = int n" using hd(2)[OF n30] assms(3) by simp
    then have cnt: "img_count ?S F = n" "sint (get32 (F ?S) 0) \<ge> 0" by (simp_all add: img_count_def FS)
    have home: "img_home ?S F i = home_block s i" if "i < n" for i
      using hd(3)[OF n30, of i] that assms(3) by (simp add: img_home_def FS home_block_def)
    have lg: "img_log ?S = log_block s" by (simp add: img_log_def log_block_def fun_eq_iff)
    have Flog: "F (log_block s i) = ?c (home_block s i)" if "i < n" for i
      using apply_writes_in[OF distinct_log_writes[OF assms(5)], of "log_block s i" "?c (home_block s i)" "disk s"] L(3)[OF that] that
      by (simp add: F_def A)
    have inj: "inj_on (img_home ?S F) {..<n} = inj_on (home_block s) {..<n}" by (rule inj_on_cong) (simp add: home)
    have F: "log_image ?S F"
      using assms(4,5) cnt(2) hd(1)[OF n30] by (simp add: log_image_def log_layout_def cnt(1) inj FS home lg)
    have "install_writes ?S F = map (\<lambda>i. (home_block s i, ?c (home_block s i))) [0..<n]"
      using home Flog by (simp add: install_writes_def cnt(1) lg)
    then have cw: "commit_writes s n = (log_writes s n @ [(?S, h)]) @ recover_writes ?S F"
      by (simp add: ws recover_writes_def FS)
    have len: "length (log_writes s n @ [(?S, h)]) = n + 1" by (simp add: log_writes_def)
    have E: "E = apply_writes (take (k - (n + 1)) (recover_writes ?S F)) F"
      unfolding E_def cw using take_beyond[of "log_writes s n @ [(?S, h)]" k, unfolded len] True by (simp add: F_def)
    have "recovered ?S F m = ?c m" if m: "m \<noteq> ?S" "m \<notin> log_block s ` {..<n}" for m
    proof (cases "find (\<lambda>i. img_home ?S F i = m) [0..<n]")
      case None
      then have "m \<notin> home_block s ` {..<n}" using home by (auto simp: find_None_iff)
      then have "?c m = disk s m" by (rule content_clean[OF assms(1)])
      moreover have "F m = disk s m" using m by (simp add: F_def apply_writes_other)
      ultimately show ?thesis using None by (simp add: recovered_def cnt(1))
    next
      case (Some i)
      then have "i < n" "home_block s i = m" using home by (auto simp: find_Some_iff)
      then show ?thesis using Some Flog by (simp add: recovered_def cnt(1) lg)
    qed
    then show ?thesis using recover_prefix[OF F, where j = "k - (n + 1)"] True unfolding E[symmetric] by simp
  qed
qed

section \<open>Crash safety\<close>

text \<open>
  C1. Crash safety of the log. A commit of a transaction of \<open>n\<close> blocks returns, with every block outside the log
  holding what the cache held for it. When the machine goes down after any number \<open>k\<close> of
  the commit's disk writes, and then any number of times during the recoveries that follow, the first recovery
  that runs to its end returns, and the disk then has, in every block outside the log, the contents
  from before the transaction when the header had not been written, and those of the whole transaction when it had.
\<close>

theorem log_crash_atomic:
  fixes s :: "'z klog_scheme"
  assumes "bstate d p {} (home_block s ` {..<n}) s" "log_dev s = d" "lh_n (lh s) = int n" "0 < n" "n < NBUF" "log_layout n s"
    "length (disk s (head_block s)) = 1024" "get32 (disk s (head_block s)) 0 = 0"
  shows "\<exists>s' ws. commit s = Ok () s' \<and> diskw s' = diskw s @ ws
    \<and> (\<forall>m. m \<noteq> head_block s \<longrightarrow> m \<notin> log_block s ` {..<n} \<longrightarrow> disk s' m = content d s m)
    \<and> (\<forall>k F q r. crashes d (log_start s) (apply_writes (take k ws) (disk s)) F \<longrightarrow> bstate d q {} {} (r :: klog) \<longrightarrow> disk r = F \<longrightarrow>
         (\<exists>r'. initlog d (log_start s) r = Ok () r'
            \<and> (\<forall>m. m \<noteq> head_block s \<longrightarrow> m \<notin> log_block s ` {..<n} \<longrightarrow>
                 disk r' m = (if n < k then content d s m else disk s m))))"
proof -
  let ?S = "head_block s"
  obtain s' where s': "commit s = Ok () s'" "bstate d p {} {} s'" "disk s' = apply_writes (commit_writes s n) (disk s)"
    "diskw s' = diskw s @ commit_writes s n"
    using commit_ok[OF assms(1-6)] by blast
  note P = commit_prefix[OF assms(1-3,5-8)]
  have "disk s' m = content d s m" if "m \<noteq> ?S" "m \<notin> log_block s ` {..<n}" for m
  proof -
    have E: "apply_writes (take (2 * n + 2) (commit_writes s n)) (disk s) = disk s'"
      using s'(3) by (simp add: commit_writes_def Let_def)
    have "content d s ?S = disk s ?S" by (rule content_clean[OF assms(1)]) (use log_layoutD(6)[OF assms(6)] in auto)
    then have h: "length (header_data (lh s) (content d s ?S)) = 1024" using assms(3,5,7) header_data_get(1) by simp
    have "disk s' ?S = put32 (header_data (lh s) (content d s ?S)) 0 0"
      using s'(3) assms(2) by (simp add: commit_writes_def Let_def header_data_0)
    then have "recovered ?S (disk s') = disk s'" by (rule cleared_image(2)[OF h])
    then show ?thesis using P[of "2 * n + 2"] that unfolding E by simp
  qed
  moreover have "\<exists>r'. initlog d (log_start s) r = Ok () r' \<and> (\<forall>m. m \<noteq> ?S \<longrightarrow> m \<notin> log_block s ` {..<n} \<longrightarrow>
                 disk r' m = (if n < k then content d s m else disk s m))"
    if c: "crashes d (log_start s) (apply_writes (take k (commit_writes s n)) (disk s)) F" "bstate d q {} {} r" "disk r = F" for k F q and r :: klog
  proof -
    note R = crashes_recovered[OF c(1) P[THEN conjunct1]]
    obtain r' where "initlog d (log_start s) r = Ok () r'" "disk r' = apply_writes (recover_writes ?S F) F"
      using initlog_ok[OF c(2), of ?S "log_start s"] R c(3) by blast
    then show ?thesis using recovered_after[of ?S F] R P[of k] by (intro exI[of _ r']) simp
  qed
  ultimately show ?thesis using s'(1,4) by blast
qed

text \<open>A booted machine whose log starts at block 2, and the same with block 40 changed in a transaction.\<close>

definition zero_log :: klog where
  "zero_log = kbio.extend zero_bio (klog.fields 2 0 0 1 \<lparr>lh_n = 1, lh_block = (\<lambda>_. 40)\<rparr>)"

definition demo_log :: klog where
  "demo_log = upd_buf 0 (\<lambda>b. b\<lparr>valid := 1, dev := 1, blockno := 40, b_refcnt := 1, data := replicate 1024 7\<rparr>) (binit zero_log)"

lemma zero_log_fields:
  "cur zero_log = Some 0" "held zero_log = {}" "bufs zero_log = (\<lambda>_. zero_buf)" "disk zero_log = (\<lambda>_. replicate 1024 0)" "diskw zero_log = []"
  "log_start zero_log = 2" "log_dev zero_log = 1" "lh zero_log = \<lparr>lh_n = 1, lh_block = (\<lambda>_. 40)\<rparr>"
  using zero_bio_fields by (simp_all add: zero_log_def kbio.defs klog.defs)

lemma zero_log_boot: "bstate 1 0 {} {} (binit (zero_log\<lparr>disk := D\<rparr>))" "disk (binit (zero_log\<lparr>disk := D\<rparr>)) = D"
  using binit_ok[of "zero_log\<lparr>disk := D\<rparr>" 0 1] by (simp_all add: zero_log_fields zero_buf_def)

lemma binit_log: "log_start (binit s) = log_start s" "log_dev (binit s) = log_dev s" "lh (binit s) = lh s"
proof -
  have "log_start (binit s) = log_start s \<and> log_dev (binit s) = log_dev s \<and> lh (binit s) = lh s"
    unfolding binit_def Let_def
    by (rule fold_invariant[where Q = "\<lambda>_. True"]) (simp_all add: initsleeplock_def upd_buf_def upd_slock_def)
  then show "log_start (binit s) = log_start s" "log_dev (binit s) = log_dev s" "lh (binit s) = lh s" by simp_all
qed

lemma demo_log_fields:
  "bufs demo_log = (bufs (binit zero_log))(0 := (bufs (binit zero_log) 0)\<lparr>valid := 1, dev := 1, blockno := 40, b_refcnt := 1, data := replicate 1024 7\<rparr>)"
  "disk demo_log = (\<lambda>_. replicate 1024 0)" "diskw demo_log = []" "log_start demo_log = 2" "log_dev demo_log = 1"
  "lh demo_log = \<lparr>lh_n = 1, lh_block = (\<lambda>_. 40)\<rparr>" "slocks demo_log = slocks (binit zero_log)" "cur demo_log = cur (binit zero_log)"
  "held demo_log = held (binit zero_log)"
  using binit_ok(3,4)[of zero_log 0 1] by (simp_all add: demo_log_def upd_buf_def binit_log zero_log_fields zero_buf_def)

lemma demo_log_state: "bstate 1 0 {} {40} demo_log" "content 1 demo_log 40 = replicate 1024 7"
proof -
  let ?z = "binit zero_log"
  have z: "bstate 1 0 {} {} ?z" "\<And>m b. \<not> cached 1 ?z m b"
    using binit_ok(1,6)[of zero_log 0 1] by (simp_all add: zero_log_fields zero_buf_def)
  note D = bstateD[OF z(1)] and C = bcache_okD[OF bstateD(1)[OF z(1)]]
  have c: "cached 1 demo_log m b \<longleftrightarrow> b = 0 \<and> m = 40" for m b
    using z(2)[of m b] by (auto simp: cached_def demo_log_fields)
  have nd: "dev (bufs ?z b) \<noteq> 1" if "b < NBUF" for b using z(2)[of "blockno (bufs ?z b)" b] that by (simp add: cached_def)
  have "buf_ok 1 demo_log b" if "b < NBUF" for b
    using C(4)[OF that] nd[OF that] by (auto simp: buf_ok_def demo_log_fields)
  moreover have "\<exists>xs. ring (bufs demo_log) xs" using C(7) ring_cong[of "bufs demo_log" "bufs ?z"] by (simp add: demo_log_fields)
  ultimately have ok: "bcache_ok 1 0 {} demo_log"
    using C(1-3) by (simp add: bcache_ok_def c demo_log_fields(8,9))
  have "b_refcnt (bufs demo_log b) = (if pinned 1 {40} demo_log b then 1 else 0)" if "b < NBUF" for b
    using D(3)[OF that] nd[OF that] by (auto simp: pinned_def demo_log_fields)
  moreover have "sl_locked (slocks demo_log (buf_lock b)) = 0" if "b < NBUF" for b
    using D(4)[OF that] by (auto simp: demo_log_fields)
  ultimately show "bstate 1 0 {} {40} demo_log"
    using ok c[of 40 0] by (auto simp: bstate_def demo_log_fields(1))
  show "content 1 demo_log 40 = replicate 1024 7"
    using content_cached[OF ok, of 40 0] by (simp add: c demo_log_fields(1))
qed

lemma get32_zeros: "get32 (replicate 1024 0) 0 = 0"
proof -
  have "replicate 4 (0 :: u8) = [0, 0, 0, 0]" by (simp add: numeral_eq_Suc)
  then show ?thesis by (simp add: get32_def)
qed

theorem log_crash_atomic_witness:
  "\<exists>s'. commit demo_log = Ok () s' \<and> disk s' 40 = replicate 1024 7
    \<and> (\<exists>r'. initlog 1 2 (binit (zero_log\<lparr>disk := apply_writes (take 1 (diskw s')) (disk demo_log)\<rparr>)) = Ok () r' \<and> disk r' 40 = replicate 1024 0)
    \<and> (\<exists>r'. initlog 1 2 (binit (zero_log\<lparr>disk := apply_writes (take 2 (diskw s')) (disk demo_log)\<rparr>)) = Ok () r' \<and> disk r' 40 = replicate 1024 7)"
proof -
  have h: "home_block demo_log ` {..<1} = {40}" "log_block demo_log ` {..<1} = {3}" "head_block demo_log = 2"
    by (auto simp: home_block_def log_block_def demo_log_fields)
  have lay: "log_layout 1 demo_log" by (simp add: log_layout_def home_block_def log_block_def demo_log_fields inj_on_def)
  have z: "get32 (disk demo_log (head_block demo_log)) 0 = 0" "length (disk demo_log (head_block demo_log)) = 1024"
    by (simp_all add: demo_log_fields get32_zeros)
  have n: "lh_n (lh demo_log) = int 1" "log_dev demo_log = 1" "(0 :: nat) < 1" "1 < NBUF" by (simp_all add: demo_log_fields)
  have st: "bstate 1 0 {} (home_block demo_log ` {..<1}) demo_log" unfolding h by (rule demo_log_state(1))
  obtain s' ws where s': "commit demo_log = Ok () s'" "diskw s' = diskw demo_log @ ws"
    "\<forall>m. m \<noteq> head_block demo_log \<longrightarrow> m \<notin> log_block demo_log ` {..<1} \<longrightarrow> disk s' m = content 1 demo_log m"
    and r: "\<forall>k F q r. crashes 1 (log_start demo_log) (apply_writes (take k ws) (disk demo_log)) F \<longrightarrow> bstate 1 q {} {} (r :: klog) \<longrightarrow> disk r = F \<longrightarrow>
      (\<exists>r'. initlog 1 (log_start demo_log) r = Ok () r' \<and> (\<forall>m. m \<noteq> head_block demo_log \<longrightarrow> m \<notin> log_block demo_log ` {..<1} \<longrightarrow>
                 disk r' m = (if 1 < k then content 1 demo_log m else disk demo_log m)))"
    using log_crash_atomic[OF st n(2,1,3,4) lay z(2,1)] by blast
  have ws: "diskw s' = ws" using s'(2) by (simp add: demo_log_fields)
  have "disk s' 40 = replicate 1024 7" using s'(3) demo_log_state(2) unfolding h by simp
  moreover have "\<exists>r'. initlog 1 2 (binit (zero_log\<lparr>disk := apply_writes (take k ws) (disk demo_log)\<rparr>)) = Ok () r'
    \<and> disk r' 40 = (if 1 < k then replicate 1024 7 else replicate 1024 0)" for k
    using r[rule_format, OF crashes.off zero_log_boot, of k] demo_log_state(2) demo_log_fields(2,4) unfolding h by fastforce
  from this[of 1] this[of 2] calculation show ?thesis using s'(1) ws by (intro exI[of _ s']) simp
qed

end
