(* ===== verification/Pipeprops.thy ===== *)
theory Pipeprops
  imports Pipe Frame Logprops
begin

text \<open>
  Pipes are bounded first-in first-out queues of bytes, also when their counters wrap around: what the
  ring holds as a list, the contract of a bounded queue and its proof for the ring, and what
  \<^verbatim>\<open>pipewrite\<close> and \<^verbatim>\<open>piperead\<close> do to the list and to the memory of their processes.
\<close>

section \<open>The contract of a bounded queue\<close>

locale bounded_queue =
  fixes ok :: "'q \<Rightarrow> bool" and items :: "'q \<Rightarrow> 'b list" and put :: "'b \<Rightarrow> 'q \<Rightarrow> 'q" and peek :: "'q \<Rightarrow> 'b"
    and skip :: "nat \<Rightarrow> 'q \<Rightarrow> 'q" and full :: "'q \<Rightarrow> bool" and cap :: nat
  assumes put: "ok q \<Longrightarrow> \<not> full q \<Longrightarrow> ok (put x q) \<and> items (put x q) = items q @ [x]"
    and skip: "ok q \<Longrightarrow> n \<le> length (items q) \<Longrightarrow> ok (skip n q) \<and> items (skip n q) = drop n (items q)"
    and peek: "ok q \<Longrightarrow> items q \<noteq> [] \<Longrightarrow> peek q = hd (items q)"
    and full: "ok q \<Longrightarrow> full q \<longleftrightarrow> length (items q) = cap"
    and bounded: "ok q \<Longrightarrow> length (items q) \<le> cap"
begin

lemma put_list:
  "ok q \<Longrightarrow> length (items q) + length xs \<le> cap \<Longrightarrow> ok (fold put xs q) \<and> items (fold put xs q) = items q @ xs"
proof (induction xs arbitrary: q)
  case (Cons x xs)
  then have "\<not> full q" using full by simp
  then have "ok (put x q) \<and> items (put x q) = items q @ [x]" using Cons.prems put by blast
  then show ?case using Cons.IH[of "put x q"] Cons.prems by simp
qed simp

text \<open>Whatever mix of bytes goes in and out, they come out in the order they went in.\<close>

lemma fifo:
  assumes "ok q" "length (items q) + length xs \<le> cap" "n \<le> length (items q) + length xs"
  shows "take n (items (fold put xs q)) @ items (skip n (fold put xs q)) = items q @ xs"
proof -
  note q = put_list[OF assms(1,2)]
  then have "items (skip n (fold put xs q)) = drop n (items (fold put xs q))"
    using skip[of "fold put xs q" n] assms(3) by simp
  then show ?thesis using q by (simp only: append_take_drop_id)
qed

end

section \<open>The ring\<close>

definition pipe_len :: "pipe \<Rightarrow> nat" where
  "pipe_len q = unat (nwrite q - nread q)"

definition pipe_ok :: "pipe \<Rightarrow> bool" where
  "pipe_ok q \<longleftrightarrow> pipe_len q \<le> PIPESIZE"

definition pipe_bytes :: "pipe \<Rightarrow> u8 list" where
  "pipe_bytes q = map (\<lambda>k. pdata q ((unat (nread q) + k) mod PIPESIZE)) [0..<pipe_len q]"

definition pipe_skip :: "nat \<Rightarrow> pipe \<Rightarrow> pipe" where
  "pipe_skip k q = q\<lparr>nread := nread q + of_nat k\<rparr>"

lemma length_pipe_bytes [simp]: "length (pipe_bytes q) = pipe_len q"
  by (simp add: pipe_bytes_def)

text \<open>The ring's size divides the range of the counters, so a position survives their wrap-around.\<close>

lemma counter_mod: "unat (x + of_nat k :: u32) mod PIPESIZE = (unat x + k) mod PIPESIZE"
proof -
  have "unat (x + of_nat k) = (unat x + k) mod 2 ^ 32"
    by (simp add: unat_word_ariths unat_of_nat mod_simps)
  moreover have "(512 :: nat) dvd 2 ^ 32" by simp
  ultimately show ?thesis by (simp only: mod_mod_cancel)
qed

lemma unat_eq_of_nat_id: "of_nat (unat x) = x"
  by simp

lemma pipe_full_iff: "pipe_full q \<longleftrightarrow> pipe_len q = PIPESIZE"
proof
  assume "pipe_full q"
  then have "nwrite q - nread q = 512" by (simp add: pipe_full_def)
  then show "pipe_len q = PIPESIZE" by (simp add: pipe_len_def)
next
  assume "pipe_len q = PIPESIZE"
  then have "of_nat (unat (nwrite q - nread q)) = (of_nat 512 :: u32)" by (simp add: pipe_len_def)
  then have "nwrite q - nread q = of_nat 512" unfolding unat_eq_of_nat_id .
  then show "pipe_full q" by (simp add: pipe_full_def algebra_simps)
qed

lemma pipe_empty_iff: "nread q = nwrite q \<longleftrightarrow> pipe_bytes q = []"
  by (auto simp: pipe_bytes_def pipe_len_def unat_eq_zero)

lemma pipe_put_ok:
  assumes "pipe_ok q" "\<not> pipe_full q"
  shows "pipe_ok (pipe_put c q) \<and> pipe_bytes (pipe_put c q) = pipe_bytes q @ [c]"
proof -
  have lt: "pipe_len q < 512" using assms by (simp add: pipe_ok_def pipe_full_iff)
  have "unat (nwrite q - nread q + 1) = pipe_len q + 1"
    using lt by (simp add: pipe_len_def unat_word_ariths(1)[of _ 1])
  then have len: "pipe_len (pipe_put c q) = pipe_len q + 1" by (simp add: pipe_len_def pipe_put_def algebra_simps)
  have "nwrite q = nread q + of_nat (pipe_len q)" by (simp add: pipe_len_def)
  then have pos: "unat (nwrite q) mod 512 = (unat (nread q) + pipe_len q) mod 512" using counter_mod by simp
  have "(unat (nread q) + k) mod 512 \<noteq> (unat (nread q) + pipe_len q) mod 512" if "k < pipe_len q" for k
  proof
    assume "(unat (nread q) + k) mod 512 = (unat (nread q) + pipe_len q) mod 512"
    then have "512 dvd pipe_len q - k"
      using that mod_eq_dvd_iff_nat[of "unat (nread q) + k" "unat (nread q) + pipe_len q" 512] by simp
    then show False using that lt by (auto dest: dvd_imp_le)
  qed
  then show ?thesis using lt len pos by (simp add: pipe_ok_def pipe_bytes_def pipe_put_def)
qed

lemma pipe_skip_ok:
  assumes "pipe_ok q" "n \<le> length (pipe_bytes q)"
  shows "pipe_ok (pipe_skip n q) \<and> pipe_bytes (pipe_skip n q) = drop n (pipe_bytes q)"
proof -
  have n: "n \<le> pipe_len q" using assms(2) by simp
  have "nwrite q - (nread q + of_nat n) = of_nat (pipe_len q - n)"
    using n by (simp add: of_nat_diff pipe_len_def algebra_simps)
  moreover have "unat (of_nat (pipe_len q - n) :: u32) = pipe_len q - n"
    using assms(1) by (simp add: pipe_ok_def unat_of_nat)
  ultimately have len: "pipe_len (pipe_skip n q) = pipe_len q - n"
    unfolding pipe_len_def[of "pipe_skip n q"] by (simp add: pipe_skip_def)
  have "(unat (nread q + of_nat n) + k) mod 512 = (unat (nread q) + (n + k)) mod 512" for k
    unfolding counter_mod[symmetric] by (simp add: add.assoc)
  then have "pipe_bytes (pipe_skip n q) = drop n (pipe_bytes q)"
    using n by (intro nth_equalityI) (simp_all add: len pipe_bytes_def, simp add: pipe_skip_def)
  then show ?thesis using assms(1) len by (simp add: pipe_ok_def)
qed

interpretation pipe_queue: bounded_queue pipe_ok pipe_bytes pipe_put pipe_peek pipe_skip pipe_full PIPESIZE
proof unfold_locales
  fix q assume "pipe_ok q" "pipe_bytes q \<noteq> []"
  then have "0 < pipe_len q" by (metis length_greater_0_conv length_pipe_bytes)
  then show "pipe_peek q = hd (pipe_bytes q)" by (simp add: pipe_peek_def pipe_bytes_def upt_conv_Cons)
qed (simp_all add: pipe_put_ok pipe_skip_ok pipe_full_iff, simp add: pipe_ok_def)

section \<open>Writing and reading\<close>

lemma upd_pipe_simps [simp]:
  "pipes (upd_pipe pi f s) = (pipes s)(pi := f (pipes s pi))" "mem (upd_pipe pi f s) = mem s" "held (upd_pipe pi f s) = held s"
  "procs (upd_pipe pi f s) = procs s" "cur (upd_pipe pi f s) = cur s"
  by (simp_all add: upd_pipe_def)

lemma upd_pipe_upd_pipe [simp]: "upd_pipe pi f (upd_pipe pi g s) = upd_pipe pi (\<lambda>q. f (g q)) s"
  by (simp add: upd_pipe_def)

lemma killed_eq: "L_proc p \<notin> held s \<Longrightarrow> killed p s = Ok (killed_flag (procs s p)) s"
  by (simp add: killed_def)

lemma user_bytes_Suc:
  "user_bytes m pt va (Suc n) = m (uaddr (umap m pt) va) # user_bytes m pt (va + 1) n"
  by (simp add: user_bytes_def upt_conv_Cons map_Suc_upt[symmetric] add.commute add.left_commute del: map_Suc_upt upt_Suc)

lemma accessible_mono: "accessible f w va n \<Longrightarrow> k \<le> n \<Longrightarrow> accessible f w va k"
  by (auto simp: accessible_def)

text \<open>The writer's loop moves its bytes into the ring up to the first it has no room for, and then sleeps.\<close>

lemma pipewrite_loop_eq:
  assumes "ptree 2 (mem s) (pagetable (procs s pr)) N" "0 \<notin> N"
    "accessible (umap (mem s) (pagetable (procs s pr))) False (addr + of_nat i) left"
    "pipe_ok (pipes s pi)" "readopen (pipes s pi) \<noteq> 0" "killed_flag (procs s pr) = 0" "L_proc pr \<notin> held s"
    "n = min left (PIPESIZE - length (pipe_bytes (pipes s pi)))"
    "B = user_bytes (mem s) (pagetable (procs s pr)) (addr + of_nat i) left"
  shows "pipewrite_loop pi addr pr i left s =
    (let s' = upd_pipe pi (fold pipe_put (take n B)) s in
     bind (wakeup (Ch_nread pi) s') (\<lambda>_ s.
       if n = left then bind (release (L_pipe pi) s) (\<lambda>_ s. Ok (int (i + left)) s)
       else sleep (Ch_nwrite pi) (L_pipe pi) s))"
  using assms
proof (induction left arbitrary: i s n B)
  case 0
  then show ?case by (simp add: Let_def upd_pipe_def)
next
  case (Suc left)
  let ?q = "pipes s pi" and ?pt = "pagetable (procs s pr)"
  note q = Suc.prems(4)
  note kill = killed_eq[OF Suc.prems(7)]
  show ?case
  proof (cases "pipe_full ?q")
    case True
    then have "n = 0" using Suc.prems(8) pipe_queue.full[OF q] by simp
    then show ?thesis using True Suc.prems(5,6) by (simp add: kill Let_def upd_pipe_def)
  next
    case False
    have "accessible (umap (mem s) ?pt) False (addr + of_nat i) 1" by (rule accessible_mono[OF Suc.prems(3)]) simp
    from copyin_reads[OF Suc.prems(1,2) this]
    have ci: "copyin ?pt (addr + of_nat i) 1 s = Ok (0, [hd B]) s"
      using Suc.prems(9) by (simp add: user_bytes_Suc) (simp add: user_bytes_def)
    let ?t = "upd_pipe pi (pipe_put (hd B)) s"
    have t: "pipe_ok (pipes ?t pi)" "pipe_bytes (pipes ?t pi) = pipe_bytes ?q @ [hd B]" using pipe_queue.put[OF q False] by simp_all
    have B: "B = hd B # user_bytes (mem ?t) (pagetable (procs ?t pr)) (addr + of_nat (Suc i)) left"
      using Suc.prems(9) by (simp add: user_bytes_Suc add.commute add.left_commute)
    have acc: "accessible (umap (mem ?t) (pagetable (procs ?t pr))) False (addr + of_nat (Suc i)) left"
      using accessible_next[OF Suc.prems(3), of 1] by (simp add: add.commute add.left_commute)
    let ?n = "min left (PIPESIZE - length (pipe_bytes (pipes ?t pi)))"
    have ro: "readopen (pipes ?t pi) \<noteq> 0" using Suc.prems(5) by (simp add: pipe_put_def)
    note IH = Suc.IH[of ?t "Suc i", OF _ Suc.prems(2) acc t(1) ro _ _ refl refl]
    have "length (pipe_bytes ?q) < PIPESIZE" using False pipe_queue.full[OF q] pipe_queue.bounded[OF q] by simp
    then have n: "n = Suc ?n" using Suc.prems(8) t(2) by simp
    have "take n B = hd B # take ?n (user_bytes (mem ?t) (pagetable (procs ?t pr)) (addr + of_nat (Suc i)) left)"
      unfolding n by (subst B) simp
    moreover have "pipewrite_loop pi addr pr i (Suc left) s = pipewrite_loop pi addr pr (Suc i) left ?t"
      using Suc.prems(5,6) False ci by (simp add: kill)
    ultimately show ?thesis using IH Suc.prems(1,6,7) by (simp add: n Let_def comp_def cong: if_cong)
  qed
qed

text \<open>
  The bytes from \<open>va\<close> on can be written: they are mapped user_writable, no two of them are the same byte of memory, and
  none lies in a page-table page.
\<close>

definition user_writable :: "memory \<Rightarrow> addr \<Rightarrow> addr set \<Rightarrow> u64 \<Rightarrow> nat \<Rightarrow> bool" where
  "user_writable m pt N va n \<longleftrightarrow> ptree 2 m pt N \<and> 0 \<notin> N \<and> accessible (umap m pt) True va n
     \<and> (\<forall>i e. i < n \<longrightarrow> umap m pt (va + of_nat i) = Some e \<longrightarrow> PTE2PA e \<notin> N)
     \<and> inj_on (\<lambda>i. uaddr (umap m pt) (va + of_nat i)) {..<n}"

lemma user_writable_Suc:
  assumes "user_writable m pt N va (Suc n)"
  shows "user_writable m pt N va 1" "user_writable m pt N (va + 1) n"
proof -
  show "user_writable m pt N va 1" using assms accessible_mono[of _ True va "Suc n" 1]
    by (auto simp: user_writable_def inj_on_def)
  have "inj_on (\<lambda>i. uaddr (umap m pt) (va + 1 + of_nat i)) {..<n}"
  proof (rule inj_onI)
    fix i j assume "i \<in> {..<n}" "j \<in> {..<n}" "uaddr (umap m pt) (va + 1 + of_nat i) = uaddr (umap m pt) (va + 1 + of_nat j)"
    then show "i = j"
      using assms unfolding user_writable_def by (auto simp: add.assoc dest: inj_onD[of _ _ "Suc i" "Suc j"])
  qed
  moreover have "PTE2PA e \<notin> N" if "i < n" "umap m pt (va + 1 + of_nat i) = Some e" for i e
    using assms that unfolding user_writable_def by (auto simp: add.assoc dest!: spec[of _ "Suc i"])
  moreover have "accessible (umap m pt) True (va + 1) n"
    using assms accessible_next[of _ True va "Suc n" 1] by (simp add: user_writable_def)
  ultimately show "user_writable m pt N (va + 1) n" using assms by (auto simp: user_writable_def)
qed

lemma piperead_copy_ok:
  assumes "user_writable (mem s) (pagetable (procs s pr)) N va left" "va = addr + of_nat i" "pipe_ok (pipes s pi)"
    "k = min left (length (pipe_bytes (pipes s pi)))" "f = umap (mem s) (pagetable (procs s pr))"
  shows "\<exists>m. piperead_copy pi addr pr i left s = Ok (int (i + k)) (upd_pipe pi (pipe_skip k) (s\<lparr>mem := m\<rparr>))
    \<and> (\<forall>j<k. m (uaddr f (va + of_nat j)) = pipe_bytes (pipes s pi) ! j) \<and> umap m (pagetable (procs s pr)) = f
    \<and> (\<forall>x. (\<forall>j<k. x \<noteq> uaddr f (va + of_nat j)) \<longrightarrow> m x = mem s x)"
  using assms
proof (induction left arbitrary: i s va k)
  case 0
  then show ?case by (intro exI[of _ "mem s"]) (simp add: upd_pipe_def pipe_skip_def)
next
  case (Suc left)
  let ?q = "pipes s pi" and ?pt = "pagetable (procs s pr)"
  show ?case
  proof (cases "pipe_bytes ?q = []")
    case True
    then show ?thesis using Suc.prems pipe_empty_iff[of ?q]
      by (intro exI[of _ "mem s"]) (simp add: upd_pipe_def pipe_skip_def)
  next
    case False
    note w = user_writable_Suc[OF Suc.prems(1)]
    obtain m where m: "copyout ?pt va [pipe_peek ?q] s = Ok 0 (s\<lparr>mem := m\<rparr>)" "ptree 2 m ?pt N" "umap m ?pt = f"
      "m (uaddr f va) = pipe_peek ?q" "\<forall>x. x \<noteq> uaddr f va \<longrightarrow> m x = mem s x"
      using copyout_writes[of s ?pt N va "[pipe_peek ?q]"] w(1) Suc.prems(5) unfolding user_writable_def by auto
    let ?t = "upd_pipe pi (pipe_skip 1) (s\<lparr>mem := m\<rparr>)"
    have q: "pipe_ok (pipe_skip 1 ?q)" "pipe_bytes (pipe_skip 1 ?q) = tl (pipe_bytes ?q)"
      using pipe_queue.skip[OF Suc.prems(3), of 1] False by (auto simp: Suc_le_eq drop_Suc simp flip: length_pipe_bytes)
    have "user_writable m ?pt N (va + 1) left" using w(2) m(2,3) Suc.prems(5) by (simp add: user_writable_def)
    then have "user_writable (mem ?t) (pagetable (procs ?t pr)) N (va + 1) left" by simp
    note wt = this
    define k' where "k' = min left (length (tl (pipe_bytes ?q)))"
    have k: "k = Suc k'" using Suc.prems(4) False by (cases "pipe_bytes ?q") (simp_all add: k'_def flip: length_pipe_bytes)
    obtain m' where m': "piperead_copy pi addr pr (Suc i) left ?t = Ok (int (Suc i + k')) (upd_pipe pi (pipe_skip k') (?t\<lparr>mem := m'\<rparr>))"
      "\<forall>j<k'. m' (uaddr f (va + 1 + of_nat j)) = tl (pipe_bytes ?q) ! j" "umap m' ?pt = f"
      "\<forall>x. (\<forall>j<k'. x \<noteq> uaddr f (va + 1 + of_nat j)) \<longrightarrow> m' x = m x"
    proof -
      have t: "pipes ?t pi = pipe_skip 1 ?q" "mem ?t = m" "procs ?t = procs s" by simp_all
      have va: "va + 1 = addr + of_nat (Suc i)" using Suc.prems(2) by (simp add: algebra_simps)
      show thesis using Suc.IH[OF wt va, unfolded t q(2), OF q(1) k'_def m(3)[symmetric]] that by blast
    qed
    have first: "uaddr f va \<noteq> uaddr f (va + 1 + of_nat j)" if "j < left" for j
      using Suc.prems(1,5) that unfolding user_writable_def
      by (auto simp: add.assoc dest: inj_onD[of _ _ "0 :: nat" "Suc j"])
    have m0: "m' (uaddr f va) = hd (pipe_bytes ?q)"
      using m'(4) m(4) first pipe_queue.peek[OF Suc.prems(3) False] by (auto simp: k'_def)
    have "m' (uaddr f (va + of_nat j)) = pipe_bytes ?q ! j" if "j < k" for j
      using that m0 m'(2) False by (cases j; cases "pipe_bytes ?q") (auto simp: k add.assoc)
    moreover have "m' x = mem s x" if "\<forall>j<k. x \<noteq> uaddr f (va + of_nat j)" for x
    proof -
      have "x \<noteq> uaddr f va" using that[rule_format, of 0] k by simp
      moreover have "x \<noteq> uaddr f (va + 1 + of_nat j)" if "j < k'" for j
        using \<open>\<forall>j<k. x \<noteq> _\<close>[rule_format, of "Suc j"] that k by (simp add: add.assoc)
      ultimately show ?thesis using m'(4) m(5) by simp
    qed
    moreover have "piperead_copy pi addr pr i (Suc left) s = Ok (int (i + k)) (upd_pipe pi (pipe_skip k) (s\<lparr>mem := m'\<rparr>))"
    proof -
      have "piperead_copy pi addr pr i (Suc left) s = piperead_copy pi addr pr (Suc i) left ?t"
        using m(1) False Suc.prems(2) pipe_empty_iff[of ?q] by (simp add: pipe_skip_def upd_pipe_def)
      moreover have "upd_pipe pi (pipe_skip k') (?t\<lparr>mem := m'\<rparr>) = upd_pipe pi (pipe_skip k) (s\<lparr>mem := m'\<rparr>)"
        by (simp add: upd_pipe_def pipe_skip_def k add.assoc)
      ultimately show ?thesis using m'(1) by (simp only: k add_Suc_shift)
    qed
    ultimately show ?thesis using m'(3) by blast
  qed
qed

lemma pipewrite_eq:
  fixes s :: "'z kpipe_scheme"
  assumes "cur s = Some p" "held s = {}" "ptree 2 (mem s) (pagetable (procs s p)) N" "0 \<notin> N"
    "accessible (umap (mem s) (pagetable (procs s p))) False a n"
    "pipe_ok (pipes s pi)" "readopen (pipes s pi) \<noteq> 0" "killed_flag (procs s p) = 0"
    "B = user_bytes (mem s) (pagetable (procs s p)) a n" "k = PIPESIZE - length (pipe_bytes (pipes s pi))"
  shows "n \<le> k \<Longrightarrow> pipewrite pi a (int n) s = Ok (int n) (s\<lparr>pipes := (pipes s)(pi := fold pipe_put B (pipes s pi)), procs := woken (Ch_nread pi) s\<rparr>)"
    "k < n \<Longrightarrow> pipewrite pi a (int n) s = Block (s\<lparr>pipes := (pipes s)(pi := fold pipe_put (take k B) (pipes s pi)),
      procs := (woken (Ch_nread pi) s)(p := (procs s p)\<lparr>chan := Some (Ch_nwrite pi), state := SLEEPING\<rparr>), cur := None\<rparr>)"
proof -
  let ?s = "s\<lparr>held := {L_pipe pi}\<rparr>"
  have loop: "pipewrite pi a (int n) s = pipewrite_loop pi a p 0 n ?s"
    using assms(1,2) by (simp add: pipewrite_def)
  have w: "wakeup c (upd_pipe pi f ?s) = Ok () ((upd_pipe pi f ?s)\<lparr>procs := woken c s\<rparr>)" for c f
  proof -
    have "woken c (upd_pipe pi f ?s) = woken c s" by (simp add: woken_def fun_eq_iff)
    then show ?thesis by (subst wakeup_eq) (simp_all)
  qed
  note L = pipewrite_loop_eq[of ?s p N a 0 n pi, OF _ assms(4) _ _ _ _ _ refl refl]
  have hd: "s\<lparr>held := {}\<rparr> = s" using assms(2) by simp
  {
    assume "n \<le> k"
    then have "min n (PIPESIZE - length (pipe_bytes (pipes ?s pi))) = n" using assms(10) by simp
    note L' = L[unfolded this]
    have "length B = n" using assms(9) by (simp add: user_bytes_def)
    then show "pipewrite pi a (int n) s = Ok (int n) (s\<lparr>pipes := (pipes s)(pi := fold pipe_put B (pipes s pi)), procs := woken (Ch_nread pi) s\<rparr>)"
      unfolding loop using L' assms hd by (simp add: w Let_def) (simp add: upd_pipe_def)
  }
  {
    assume "k < n"
    then have "min n (PIPESIZE - length (pipe_bytes (pipes ?s pi))) = k" using assms(10) by simp
    note L' = L[unfolded this]
    show "pipewrite pi a (int n) s = Block (s\<lparr>pipes := (pipes s)(pi := fold pipe_put (take k B) (pipes s pi)),
      procs := (woken (Ch_nread pi) s)(p := (procs s p)\<lparr>chan := Some (Ch_nwrite pi), state := SLEEPING\<rparr>), cur := None\<rparr>)"
      unfolding loop using L' assms hd \<open>k < n\<close> by (simp add: w Let_def sleep_eq[where p = p]) (simp add: upd_pipe_def)
  }
qed

lemma piperead_eq:
  fixes s :: "'z kpipe_scheme"
  assumes "cur s = Some p" "held s = {}" "user_writable (mem s) (pagetable (procs s p)) N a n" "pipe_ok (pipes s pi)"
    "f = umap (mem s) (pagetable (procs s p))" "k = min n (length (pipe_bytes (pipes s pi)))"
    "pipe_bytes (pipes s pi) \<noteq> [] \<or> writeopen (pipes s pi) = 0"
  shows "\<exists>m. piperead pi a (int n) s = Ok (int k)
      (s\<lparr>mem := m, pipes := (pipes s)(pi := pipe_skip k (pipes s pi)), procs := woken (Ch_nwrite pi) s\<rparr>)
    \<and> user_bytes m (pagetable (procs s p)) a k = take k (pipe_bytes (pipes s pi))
    \<and> (\<forall>x. (\<forall>j<k. x \<noteq> uaddr f (a + of_nat j)) \<longrightarrow> m x = mem s x)"
proof -
  let ?s = "s\<lparr>held := {L_pipe pi}\<rparr>"
  obtain m where m: "piperead_copy pi a p 0 n ?s = Ok (int k) (upd_pipe pi (pipe_skip k) (?s\<lparr>mem := m\<rparr>))"
    "\<forall>j<k. m (uaddr f (a + of_nat j)) = pipe_bytes (pipes s pi) ! j" "umap m (pagetable (procs s p)) = f"
    "\<forall>x. (\<forall>j<k. x \<noteq> uaddr f (a + of_nat j)) \<longrightarrow> m x = mem s x"
    using piperead_copy_ok[of ?s p N a n a 0 pi k f] assms(3-6) by auto
  have ub: "user_bytes m (pagetable (procs s p)) a k = take k (pipe_bytes (pipes s pi))"
    using m(2) assms(6) by (intro nth_equalityI) (simp_all add: user_bytes_def m(3))
  let ?t = "upd_pipe pi (pipe_skip k) (?s\<lparr>mem := m\<rparr>)"
  have w: "wakeup c ?t = Ok () (?t\<lparr>procs := woken c s\<rparr>)" for c
  proof -
    have "woken c ?t = woken c s" by (simp add: woken_def fun_eq_iff)
    then show ?thesis by (subst wakeup_eq) (simp_all)
  qed
  have "\<not> (nread (pipes s pi) = nwrite (pipes s pi) \<and> writeopen (pipes s pi) \<noteq> 0)" using assms(7) pipe_empty_iff by blast
  then have "piperead_loop pi a (int n) p ?s = bind (piperead_copy pi a p 0 n ?s) (\<lambda>r s.
        bind (wakeup (Ch_nwrite pi) s) (\<lambda>_ s. bind (release (L_pipe pi) s) (\<lambda>_ s. Ok r s)))"
    unfolding piperead_loop_def by auto
  then have "piperead pi a (int n) s = Ok (int k)
      (s\<lparr>mem := m, pipes := (pipes s)(pi := pipe_skip k (pipes s pi)), procs := woken (Ch_nwrite pi) s\<rparr>)"
    using assms(1,2) by (simp add: piperead_def m(1) w) (simp add: upd_pipe_def)
  then show ?thesis using ub m(4) by blast
qed

text \<open>
  C23. Writing to a pipe. When the ring has room for all \<open>n\<close> bytes, \<^verbatim>\<open>pipewrite\<close> returns \<open>n\<close> and the ring holds what it held followed
  by the writer's bytes; otherwise it takes the bytes that fit, the ring is full and the writer sleeps until
  there is room. In both cases every reader that waits for data is made runnable. The counters may wrap around.
\<close>

theorem pipewrite_appends:
  fixes s :: "'z kpipe_scheme"
  assumes "cur s = Some p" "held s = {}" "ptree 2 (mem s) (pagetable (procs s p)) N" "0 \<notin> N"
    "accessible (umap (mem s) (pagetable (procs s p))) False a n"
    "pipe_ok (pipes s pi)" "readopen (pipes s pi) \<noteq> 0" "killed_flag (procs s p) = 0"
  shows "\<exists>t k. k = min n (PIPESIZE - length (pipe_bytes (pipes s pi)))
    \<and> pipewrite pi a (int n) s = (if k = n then Ok (int n) t else Block t)
    \<and> pipe_ok (pipes t pi) \<and> held t = {}
    \<and> pipe_bytes (pipes t pi) = pipe_bytes (pipes s pi) @ take k (user_bytes (mem s) (pagetable (procs s p)) a n)
    \<and> (k < n \<longrightarrow> pipe_full (pipes t pi) \<and> state (procs t p) = SLEEPING \<and> chan (procs t p) = Some (Ch_nwrite pi))
    \<and> (\<forall>q<NPROC. q \<noteq> p \<longrightarrow> state (procs s q) = SLEEPING \<longrightarrow> chan (procs s q) = Some (Ch_nread pi) \<longrightarrow> state (procs t q) = RUNNABLE)"
proof -
  let ?q = "pipes s pi" and ?B = "user_bytes (mem s) (pagetable (procs s p)) a n"
  let ?k = "PIPESIZE - length (pipe_bytes ?q)"
  note E = pipewrite_eq[OF assms refl refl]
  have lB: "length ?B = n" by (simp add: user_bytes_def)
  have le: "length (pipe_bytes ?q) \<le> PIPESIZE" by (rule pipe_queue.bounded[OF assms(6)])
  have wk: "state (woken (Ch_nread pi) s q) = RUNNABLE"
    if "q < NPROC" "q \<noteq> p" "state (procs s q) = SLEEPING" "chan (procs s q) = Some (Ch_nread pi)" for q
    using that assms(1) by (simp add: woken_def wake_def)
  note P = pipe_queue.put_list[OF assms(6)]
  show ?thesis
  proof (cases "n \<le> ?k")
    case True
    then show ?thesis using E(1)[OF True] P[of ?B] lB le wk assms(2)
      by (intro exI[of _ "s\<lparr>pipes := (pipes s)(pi := fold pipe_put ?B ?q), procs := woken (Ch_nread pi) s\<rparr>"] exI[of _ n]) simp
  next
    case False
    have Q: "pipe_ok (fold pipe_put (take ?k ?B) ?q)" "pipe_bytes (fold pipe_put (take ?k ?B) ?q) = pipe_bytes ?q @ take ?k ?B"
      using P[of "take ?k ?B"] lB le False by simp_all
    moreover have "pipe_full (fold pipe_put (take ?k ?B) ?q)"
      using pipe_queue.full[OF Q(1)] Q(2) lB le False by (metis (no_types, lifting) add_diff_inverse_nat length_append length_take linorder_not_le min.absorb2 nat_le_linear)
    ultimately show ?thesis using E(2) False wk assms(2)
      by (intro exI[of _ "s\<lparr>pipes := (pipes s)(pi := fold pipe_put (take ?k ?B) ?q),
      procs := (woken (Ch_nread pi) s)(p := (procs s p)\<lparr>chan := Some (Ch_nwrite pi), state := SLEEPING\<rparr>), cur := None\<rparr>"] exI[of _ ?k]) simp
  qed
qed

text \<open>
  C22. What goes into a pipe comes out of it, in order: after a process has written \<open>n\<close> bytes that fit, a process that reads up to \<open>n'\<close> gets the
  first of the bytes that were in the ring before, followed by the writer's; they stand in its memory from the address it
  gave, nothing else in memory has changed, and the rest stays in the ring.
\<close>

theorem pipe_delivers_in_order:
  fixes s :: "'z kpipe_scheme"
  assumes "cur s = Some p" "held s = {}" "ptree 2 (mem s) (pagetable (procs s p)) N" "0 \<notin> N"
    "accessible (umap (mem s) (pagetable (procs s p))) False a n"
    "pipe_ok (pipes s pi)" "readopen (pipes s pi) \<noteq> 0" "killed_flag (procs s p) = 0"
    "length (pipe_bytes (pipes s pi)) + n \<le> PIPESIZE" "0 < n"
    "user_writable (mem s) (pagetable (procs s r)) N' a' n'"
  shows "\<exists>t u k L. pipewrite pi a (int n) s = Ok (int n) t \<and> piperead pi a' (int n') (t\<lparr>cur := Some r\<rparr>) = Ok (int k) u
    \<and> L = pipe_bytes (pipes s pi) @ user_bytes (mem s) (pagetable (procs s p)) a n \<and> k = min n' (length L)
    \<and> user_bytes (mem u) (pagetable (procs s r)) a' k = take k L \<and> pipe_bytes (pipes u pi) = drop k L
    \<and> (\<forall>x. (\<forall>j<k. x \<noteq> uaddr (umap (mem s) (pagetable (procs s r))) (a' + of_nat j)) \<longrightarrow> mem u x = mem s x)"
proof -
  let ?q = "pipes s pi" and ?B = "user_bytes (mem s) (pagetable (procs s p)) a n"
  let ?t = "s\<lparr>pipes := (pipes s)(pi := fold pipe_put ?B ?q), procs := woken (Ch_nread pi) s\<rparr>"
  let ?L = "pipe_bytes ?q @ ?B"
  have lB: "length ?B = n" by (simp add: user_bytes_def)
  have w: "pipewrite pi a (int n) s = Ok (int n) ?t" using pipewrite_eq(1)[OF assms(1-8) refl refl] assms(9) by simp
  have Q: "pipe_ok (fold pipe_put ?B ?q)" "pipe_bytes (fold pipe_put ?B ?q) = ?L"
    using pipe_queue.put_list[OF assms(6), of ?B] assms(9) lB by simp_all
  let ?k = "min n' (length ?L)"
  have t: "cur (?t\<lparr>cur := Some r\<rparr>) = Some r" "held (?t\<lparr>cur := Some r\<rparr>) = {}"
    "user_writable (mem (?t\<lparr>cur := Some r\<rparr>)) (pagetable (procs (?t\<lparr>cur := Some r\<rparr>) r)) N' a' n'"
    "pipe_ok (pipes (?t\<lparr>cur := Some r\<rparr>) pi)"
    "pipe_bytes (pipes (?t\<lparr>cur := Some r\<rparr>) pi) \<noteq> [] \<or> writeopen (pipes (?t\<lparr>cur := Some r\<rparr>) pi) = 0"
    using assms(2,10,11) Q lB by auto
  from piperead_eq[OF t(1-4) refl refl t(5)] obtain m where
    "piperead pi a' (int n') (?t\<lparr>cur := Some r\<rparr>) = Ok (int ?k) (?t\<lparr>cur := Some r, mem := m,
      pipes := (pipes ?t)(pi := pipe_skip ?k (fold pipe_put ?B ?q)), procs := woken (Ch_nwrite pi) (?t\<lparr>cur := Some r\<rparr>)\<rparr>)"
    "user_bytes m (pagetable (procs s r)) a' ?k = take ?k ?L"
    "\<forall>x. (\<forall>j<?k. x \<noteq> uaddr (umap (mem s) (pagetable (procs s r))) (a' + of_nat j)) \<longrightarrow> m x = mem s x"
    using Q(2) by auto
  moreover have "pipe_bytes (pipe_skip ?k (fold pipe_put ?B ?q)) = drop ?k ?L"
    using pipe_queue.skip[OF Q(1), of ?k] Q(2) by simp
  ultimately show ?thesis using w
    by (intro exI[of _ ?t] exI[of _ "?t\<lparr>cur := Some r, mem := m,
      pipes := (pipes ?t)(pi := pipe_skip ?k (fold pipe_put ?B ?q)), procs := woken (Ch_nwrite pi) (?t\<lparr>cur := Some r\<rparr>)\<rparr>"] exI[of _ ?k] exI[of _ ?L]) simp
qed

section \<open>The invariant of the ring\<close>

abbreviation pipes_ok :: "'z kpipe_scheme \<Rightarrow> bool" where
  "pipes_ok s \<equiv> \<forall>pi. pipe_ok (pipes s pi)"

lemma pipes_rest:
  fixes s :: "'z kpipe_scheme"
  assumes "stays rest (rest s) m"
  shows "stays pipes (pipes s) m"
  by (rule stays_rest[OF assms]) (simp add: rest_def)

lemma pipes_ok_rest [stays]:
  fixes s :: "'z kpipe_scheme"
  assumes "pipes_ok s = b"
  shows "stays pipes_ok b (acquire l s)" "stays pipes_ok b (release l s)" "stays pipes_ok b (killed p s)"
    "stays pipes_ok b (wakeup ch s)" "stays pipes_ok b (sleep ch l s)" "stays pipes_ok b (kfree pa s)"
    "stays pipes_ok b (copyin pt va n s)" "stays pipes_ok b (copyout pt va bs s)"
  unfolding assms[symmetric]
  by (rule stays_rest; (intro stays refl | simp add: rest_def))+

lemma pipes_ok_upd: "pipes_ok s \<Longrightarrow> pipe_ok (f (pipes s pi)) \<Longrightarrow> pipes_ok (upd_pipe pi f s)"
  by simp

lemma pipewrite_loop_inv:
  fixes s :: "'z kpipe_scheme"
  shows "pipes_ok s \<Longrightarrow> stays pipes_ok True (pipewrite_loop pi a pr i n s)"
proof (induction n arbitrary: i s)
  case 0
  then show ?case by (auto intro!: stays)
next
  case (Suc n)
  have step: "stays pipes_ok True (bind (copyin (pagetable (procs t pr)) (a + of_nat i) 1 t) (\<lambda>(r, bs) s.
       if r = -1 then
         bind (wakeup (Ch_nread pi) s) (\<lambda>_ s.
         bind (release (L_pipe pi) s) (\<lambda>_ s. Ok (int i) s))
       else pipewrite_loop pi a pr (Suc i) n (upd_pipe pi (pipe_put (hd bs)) s)))"
    if t: "pipes_ok t" "\<not> pipe_full (pipes t pi)" for t :: "'z kpipe_scheme"
  proof (rule stays_bind_via[OF pipes_rest[OF rest_vm(8)[OF refl]]])
    fix u :: "'z kpipe_scheme" assume u: "pipes u = pipes t"
    then show "pipes_ok u = True" using t(1) by simp
    show "stays pipes_ok True ((case x of (r, bs) \<Rightarrow> \<lambda>s. if r = -1 then bind (wakeup (Ch_nread pi) s) (\<lambda>_ s.
         bind (release (L_pipe pi) s) (\<lambda>_ s. Ok (int i) s))
       else pipewrite_loop pi a pr (Suc i) n (upd_pipe pi (pipe_put (hd bs)) s)) u)" for x
      by (intro stays Suc.IH pipes_ok_upd) (use u t pipe_put_ok in simp_all)
  qed
  show ?case unfolding pipewrite_loop.simps
    by (intro stays step) (simp_all add: Suc.prems)
qed

lemma piperead_copy_inv:
  fixes s :: "'z kpipe_scheme"
  shows "pipes_ok s \<Longrightarrow> stays pipes_ok True (piperead_copy pi a pr i n s)"
proof (induction n arbitrary: i s)
  case 0
  then show ?case by simp
next
  case (Suc n)
  have step: "stays pipes_ok True (bind (copyout (pagetable (procs t pr)) (a + of_nat i) bs t) (\<lambda>r s.
        if r = -1 then Ok (if i = 0 then -1 else int i) s
        else piperead_copy pi a pr (Suc i) n (upd_pipe pi (\<lambda>q. q\<lparr>nread := nread q + 1\<rparr>) s)))"
    if t: "pipes_ok t" "nread (pipes t pi) \<noteq> nwrite (pipes t pi)" for t :: "'z kpipe_scheme" and bs
  proof (rule stays_bind_via[OF pipes_rest[OF rest_vm(7)[OF refl]]])
    fix u :: "'z kpipe_scheme" assume u: "pipes u = pipes t"
    then show "pipes_ok u = True" using t(1) by simp
    have "1 \<le> length (pipe_bytes (pipes t pi))" using t(2) pipe_empty_iff[of "pipes t pi"] by (simp add: Suc_le_eq flip: length_greater_0_conv)
    then have "pipe_ok (pipe_skip 1 (pipes t pi))" using pipe_skip_ok t(1) by blast
    then show "stays pipes_ok True (if x = -1 then Ok (if i = 0 then -1 else int i) u
        else piperead_copy pi a pr (Suc i) n (upd_pipe pi (\<lambda>q. q\<lparr>nread := nread q + 1\<rparr>) u))" for x
      by (intro stays Suc.IH pipes_ok_upd) (use u t in \<open>simp_all add: pipe_skip_def\<close>)
  qed
  show ?case unfolding piperead_copy.simps by (intro stays step) (simp_all add: Suc.prems)
qed

lemma piperead_loop_inv: "pipes_ok s \<Longrightarrow> stays pipes_ok True (piperead_loop pi a n pr s)"
  unfolding piperead_loop_def by (intro stays piperead_copy_inv) simp_all

lemma pipe_ok_open [simp]: "pipe_ok (q\<lparr>readopen := x\<rparr>) = pipe_ok q" "pipe_ok (q\<lparr>writeopen := x\<rparr>) = pipe_ok q"
  by (simp_all add: pipe_ok_def pipe_len_def)

text \<open>
  C24. The ring never holds more than \<^verbatim>\<open>PIPESIZE\<close> bytes: a call of \<^verbatim>\<open>pipewrite\<close>, \<^verbatim>\<open>piperead\<close> or \<^verbatim>\<open>pipeclose\<close> keeps this of every pipe, with any
  arguments and page tables, whether it returns or goes to sleep, and so does a sleeping one when it goes on.
\<close>

theorem pipe_invariant:
  assumes "pipes_ok s"
  shows "stays pipes_ok True (pipewrite pi a n s) \<and> stays pipes_ok True (piperead pi a n s) \<and> stays pipes_ok True (pipeclose pi w s)
    \<and> stays pipes_ok True (pipewrite_loop pi a pr i k s) \<and> stays pipes_ok True (piperead_loop pi a n pr s)"
proof (intro conjI)
  show "stays pipes_ok True (pipewrite pi a n s)"
    unfolding pipewrite_def by (intro stays pipewrite_loop_inv) (simp_all add: assms)
  show "stays pipes_ok True (piperead pi a n s)"
    unfolding piperead_def by (intro stays piperead_loop_inv) (simp_all add: assms)
  show "stays pipes_ok True (pipeclose pi w s)"
    unfolding pipeclose_def by (intro stays) (simp_all add: assms)
qed (rule pipewrite_loop_inv[OF assms] piperead_loop_inv[OF assms])+

text \<open>A machine with one pipe whose counters are about to wrap around, in process 0's hands.\<close>

definition demo_pipe :: kpipe where
  "demo_pipe = kcons.extend (kfs.extend (klog.extend zero_log
      (kfs.fields \<lparr>magic = FSMAGIC, sb_size = 2000, nblocks = 1954, ninodes = 200, nlog = 31, logstart = 2, inodestart = 33, bmapstart = 46\<rparr>
        (\<lambda>_. \<lparr>i_dev = 0, inum = 0, ref = 0, i_valid = 0, i_type = 0, major = 0, minor = 0, nlink = 0, isize = 0, addrs = (\<lambda>_. 0)\<rparr>)))
      (kcons.fields (\<lambda>_. 0) 0 0 0 0))
      (kpipe.fields (\<lambda>_. \<lparr>pdata = (\<lambda>_. 0), nread = 0xFFFFFFFF, nwrite = 0xFFFFFFFF, readopen = 1, writeopen = 1\<rparr>))"

lemma demo_pipe_fields:
  "cur demo_pipe = Some 0" "held demo_pipe = {}" "mem demo_pipe = mem small_proc" "procs demo_pipe = procs small_proc"
  "pipes demo_pipe = (\<lambda>_. \<lparr>pdata = (\<lambda>_. 0), nread = 0xFFFFFFFF, nwrite = 0xFFFFFFFF, readopen = 1, writeopen = 1\<rparr>)"
  by (simp_all add: demo_pipe_def zero_log_def zero_bio_def kslp.defs kshm.defs kulock.defs kproc.defs kbio.defs klog.defs kfs.defs kcons.defs kpipe.defs small_proc_def)

lemma demo_pipe_ok: "pipe_ok (pipes demo_pipe pi)" "pipe_bytes (pipes demo_pipe pi) = []" "readopen (pipes demo_pipe pi) \<noteq> 0"
  by (simp_all add: demo_pipe_fields pipe_ok_def pipe_len_def pipe_bytes_def)

lemma demo_user:
  "ptree 2 (mem demo_pipe) (pagetable (procs demo_pipe 0)) user_tables" "0 \<notin> user_tables" "killed_flag (procs demo_pipe 0) = 0"
  "accessible (umap (mem demo_pipe) (pagetable (procs demo_pipe 0))) False 0x10 2"
  "user_writable (mem demo_pipe) (pagetable (procs demo_pipe 0)) user_tables 0x20 2"
proof -
  have p: "pn (0x10 + of_nat i) = 0" "pn (0x20 + of_nat i) = 0" if "i < 2" for i
    using that by (auto simp: pn_def less_2_cases_iff)
  have u: "uaddr (umap (mem small_proc) 0x80002000) (0x20 + of_nat i) = 0x80005020 + of_nat i" if "i < 2" for i
    using that by (auto simp: uaddr_def small_proc_fields small_user_table(2) user_pte_facts p
        less_2_cases_iff PGROUNDDOWN_def)
  show pt: "ptree 2 (mem demo_pipe) (pagetable (procs demo_pipe 0)) user_tables" "0 \<notin> user_tables" "killed_flag (procs demo_pipe 0) = 0"
    using small_proc_table by (simp_all add: pt_ok_def demo_pipe_fields small_proc_fields) (simp add: small_proc_def plain_proc_def)
  have inj: "inj_on (\<lambda>i. uaddr (umap (mem small_proc) 0x80002000) (0x20 + of_nat i)) {..<2}"
    using u by (auto simp: inj_on_def less_2_cases_iff)
  show "accessible (umap (mem demo_pipe) (pagetable (procs demo_pipe 0))) False 0x10 2"
    by (auto simp: accessible_def demo_pipe_fields small_proc_fields small_user_table(2) user_pte_facts p)
  have "accessible (umap (mem small_proc) 0x80002000) True 0x20 2"
    by (auto simp: accessible_def small_proc_fields small_user_table(2) user_pte_facts p)
  then show "user_writable (mem demo_pipe) (pagetable (procs demo_pipe 0)) user_tables 0x20 2"
    using pt(1,2) inj unfolding user_writable_def demo_pipe_fields small_proc_fields
    by (auto simp: small_user_table(2) user_pte_facts p split: if_splits)
qed

theorem pipewrite_appends_witness:
  "\<exists>t. pipewrite 0x80007000 0x10 2 demo_pipe = Ok 2 t \<and> length (pipe_bytes (pipes t 0x80007000)) = 2"
  using pipewrite_appends[OF demo_pipe_fields(1,2) demo_user(1,2,4) demo_pipe_ok(1,3) demo_user(3), of "0x80007000"]
  by (auto simp: demo_pipe_ok user_bytes_def simp flip: length_pipe_bytes)

theorem pipe_delivers_in_order_witness:
  "\<exists>t u. pipewrite 0x80007000 0x10 2 demo_pipe = Ok 2 t \<and> piperead 0x80007000 0x20 2 (t\<lparr>cur := Some 0\<rparr>) = Ok 2 u
    \<and> user_bytes (mem u) 0x80002000 0x20 2 = user_bytes (mem demo_pipe) 0x80002000 0x10 2"
proof -
  have n: "length (pipe_bytes (pipes demo_pipe 0x80007000)) + 2 \<le> PIPESIZE" unfolding demo_pipe_ok by simp
  have pt: "pagetable (procs demo_pipe 0) = 0x80002000" by (simp add: demo_pipe_fields small_proc_fields)
  have len: "length (user_bytes m q va 2) = 2" for m q va by (simp add: user_bytes_def)
  from pipe_delivers_in_order[OF demo_pipe_fields(1,2) demo_user(1,2,4) demo_pipe_ok(1,3) demo_user(3) n _ demo_user(5)]
  obtain t u k L where "pipewrite 0x80007000 0x10 (int 2) demo_pipe = Ok (int 2) t" "piperead 0x80007000 0x20 (int 2) (t\<lparr>cur := Some 0\<rparr>) = Ok (int k) u"
    "L = user_bytes (mem demo_pipe) 0x80002000 0x10 2" "k = min 2 (length L)" "user_bytes (mem u) 0x80002000 0x20 k = take k L"
    unfolding demo_pipe_ok pt by auto
  then show ?thesis by (auto simp: len)
qed

theorem pipe_invariant_witness:
  "\<exists>t. piperead 0x80007000 0x20 2 demo_pipe = Block t \<and> pipes_ok t"
proof -
  have "piperead 0x80007000 0x20 2 demo_pipe = Block (demo_pipe\<lparr>procs := (procs demo_pipe)(0 := (procs demo_pipe 0)\<lparr>chan := Some (Ch_nread 0x80007000), state := SLEEPING\<rparr>),
    cur := None\<rparr>)"
    using demo_pipe_fields demo_user(3) by (simp add: piperead_def piperead_loop_def killed_eq sleep_eq)
  moreover have "pipes_ok demo_pipe" using demo_pipe_ok by blast
  ultimately show ?thesis using pipe_invariant[of demo_pipe "0x80007000" "0x20" 2] by auto
qed

end
