(* ===== verification/Ugrep.thy ===== *)
theory Ugrep
  imports Machine
begin

text \<open>
  \<^verbatim>\<open>user/grep.c\<close>: the matcher and the line scanner. A \<^verbatim>\<open>char *\<close> into a string is the list of the bytes from there to the
  NUL. The \<^verbatim>\<open>read\<close> system call is the argument \<open>rd\<close>: asked for \<open>n\<close> bytes it answers a count, the bytes it
  stored and the state of the input after it.
\<close>

section \<open>The code\<close>

abbreviation (input) c_star :: u8 where "c_star \<equiv> 0x2A"
abbreviation (input) c_dot :: u8 where "c_dot \<equiv> 0x2E"
abbreviation (input) c_dollar :: u8 where "c_dollar \<equiv> 0x24"
abbreviation (input) c_caret :: u8 where "c_caret \<equiv> 0x5E"
abbreviation (input) c_nl :: u8 where "c_nl \<equiv> 0x0A"

function matchhere :: "u8 list \<Rightarrow> u8 list \<Rightarrow> bool" and matchstar :: "u8 \<Rightarrow> u8 list \<Rightarrow> u8 list \<Rightarrow> bool" where
  "matchhere [] ts = True"
| "matchhere (c # re) ts =
     (if re \<noteq> [] \<and> hd re = c_star then matchstar c (tl re) ts
      else if c = c_dollar \<and> re = [] then ts = []
      else if ts \<noteq> [] \<and> (c = c_dot \<or> c = hd ts) then matchhere re (tl ts)
      else False)"
| "matchstar c re ts =
     (if matchhere re ts then True
      else if ts \<noteq> [] \<and> (hd ts = c \<or> c = c_dot) then matchstar c re (tl ts)
      else False)"
  by pat_completeness auto
termination
  by (relation "measure (\<lambda>x. case x of Inl (re, ts) \<Rightarrow> 2 * (length re + length ts)
        | Inr (c, re, ts) \<Rightarrow> 2 * (length re + length ts) + 1)") (auto simp: neq_Nil_conv)

declare matchhere.simps(2) [simp del] matchstar.simps [simp del]

fun match_loop :: "u8 list \<Rightarrow> u8 list \<Rightarrow> bool" where
  "match_loop re [] = matchhere re []"
| "match_loop re (t # ts) = (if matchhere re (t # ts) then True else match_loop re ts)"

definition match :: "u8 list \<Rightarrow> u8 list \<Rightarrow> bool" where
  "match re ts = (if re \<noteq> [] \<and> hd re = c_caret then matchhere (tl re) ts else match_loop re ts)"

text \<open>\<^verbatim>\<open>strchr(p, '\n')\<close> in the buffer, as the distance from \<^verbatim>\<open>p\<close>: the search ends at a NUL.\<close>

fun find_nl :: "u8 list \<Rightarrow> nat option" where
  "find_nl [] = None"
| "find_nl (b # bs) = (if b = 0 then None else if b = c_nl then Some 0 else map_option Suc (find_nl bs))"

lemma find_nl_less: "find_nl bs = Some i \<Longrightarrow> i < length bs"
  by (induction bs arbitrary: i) (auto split: if_splits)

text \<open>The loop over the lines in the buffer: what it writes, and the bytes it keeps for the next round.\<close>

function grep_lines :: "u8 list \<Rightarrow> u8 list \<Rightarrow> u8 list \<times> u8 list" where
  "grep_lines re p =
     (case find_nl p of
        None \<Rightarrow> ([], p)
      | Some i \<Rightarrow>
          let line = take i p; (out, rest) = grep_lines re (drop (Suc i) p) in
          ((if match re line then line @ [c_nl] else []) @ out, rest))"
  by pat_completeness auto
termination
  by (relation "measure (\<lambda>(re, p). length p)") (auto dest: find_nl_less)

declare grep_lines.simps [simp del]

partial_function (option) grep_loop ::
  "(nat \<Rightarrow> 'w \<Rightarrow> int \<times> u8 list \<times> 'w) \<Rightarrow> u8 list \<Rightarrow> u8 list \<Rightarrow> u8 list \<Rightarrow> 'w \<Rightarrow> (u8 list \<times> 'w) option" where
  "grep_loop rd re buf out w =
     (case rd (1024 - length buf - 1) w of (n, bs, w) \<Rightarrow>
        if n > 0 then
          case grep_lines re (buf @ bs) of (o', rest) \<Rightarrow> grep_loop rd re rest (out @ o') w
        else Some (out, w))"

definition grep :: "(nat \<Rightarrow> 'w \<Rightarrow> int \<times> u8 list \<times> 'w) \<Rightarrow> u8 list \<Rightarrow> 'w \<Rightarrow> (u8 list \<times> 'w) option" where
  "grep rd re w = grep_loop rd re [] [] w"

section \<open>What a pattern means\<close>

datatype item = One u8 | Star u8

fun items :: "u8 list \<Rightarrow> item list" where
  "items [] = []"
| "items [c] = (if c = c_dollar then [] else [One c])"
| "items (c # d # re) = (if d = c_star then Star c # items re else One c # items (d # re))"

text \<open>The pattern ends in an unstarred \<^verbatim>\<open>$\<close>.\<close>

fun at_end :: "u8 list \<Rightarrow> bool" where
  "at_end [] = False"
| "at_end [c] = (c = c_dollar)"
| "at_end (c # d # re) = (if d = c_star then at_end re else at_end (d # re))"

definition admits :: "u8 \<Rightarrow> u8 \<Rightarrow> bool" where
  "admits c t \<longleftrightarrow> c = c_dot \<or> c = t"

fun lang :: "item list \<Rightarrow> u8 list set" where
  "lang [] = {[]}"
| "lang (One c # is) = {t # w |t w. admits c t \<and> w \<in> lang is}"
| "lang (Star c # is) = {u @ w |u w. (\<forall>t\<in>set u. admits c t) \<and> w \<in> lang is}"

definition prefix_in :: "item list \<Rightarrow> bool \<Rightarrow> u8 list \<Rightarrow> bool" where
  "prefix_in is e ts \<longleftrightarrow> (\<exists>u v. ts = u @ v \<and> u \<in> lang is \<and> (e \<longrightarrow> v = []))"

lemma prefix_in_Nil [simp]: "prefix_in [] e ts \<longleftrightarrow> e \<longrightarrow> ts = []"
  by (auto simp: prefix_in_def)

lemma prefix_in_One: "prefix_in (One c # is) e ts \<longleftrightarrow> ts \<noteq> [] \<and> admits c (hd ts) \<and> prefix_in is e (tl ts)"
proof
  assume "prefix_in (One c # is) e ts"
  then obtain u v where "ts = u @ v" "u \<in> lang (One c # is)" "e \<longrightarrow> v = []" unfolding prefix_in_def by blast
  then obtain t w where "ts = t # w @ v" "admits c t" "w \<in> lang is" "e \<longrightarrow> v = []" by auto
  then show "ts \<noteq> [] \<and> admits c (hd ts) \<and> prefix_in is e (tl ts)" unfolding prefix_in_def by auto
next
  assume r: "ts \<noteq> [] \<and> admits c (hd ts) \<and> prefix_in is e (tl ts)"
  then obtain u v where "tl ts = u @ v" "u \<in> lang is" "e \<longrightarrow> v = []" unfolding prefix_in_def by blast
  then show "prefix_in (One c # is) e ts"
    using r unfolding prefix_in_def by (intro exI[of _ "hd ts # u"] exI[of _ v]) (cases ts; simp)
qed

lemma prefix_in_Star:
  "prefix_in (Star c # is) e ts \<longleftrightarrow>
     prefix_in is e ts \<or> ts \<noteq> [] \<and> admits c (hd ts) \<and> prefix_in (Star c # is) e (tl ts)"
proof
  assume "prefix_in (Star c # is) e ts"
  then obtain u v where "ts = u @ v" "u \<in> lang (Star c # is)" "e \<longrightarrow> v = []" unfolding prefix_in_def by blast
  then obtain x w where x: "ts = (x @ w) @ v" "\<forall>t\<in>set x. admits c t" "w \<in> lang is" "e \<longrightarrow> v = []" by auto
  show "prefix_in is e ts \<or> ts \<noteq> [] \<and> admits c (hd ts) \<and> prefix_in (Star c # is) e (tl ts)"
  proof (cases x)
    case Nil
    then show ?thesis using x unfolding prefix_in_def by auto
  next
    case (Cons t x')
    then have "tl ts = (x' @ w) @ v" "x' @ w \<in> lang (Star c # is)" using x by auto
    then have "prefix_in (Star c # is) e (tl ts)" using x(4) unfolding prefix_in_def by blast
    then show ?thesis using x Cons by simp
  qed
next
  assume "prefix_in is e ts \<or> ts \<noteq> [] \<and> admits c (hd ts) \<and> prefix_in (Star c # is) e (tl ts)"
  then show "prefix_in (Star c # is) e ts"
  proof
    assume "prefix_in is e ts"
    then obtain u v where "ts = u @ v" "u \<in> lang is" "e \<longrightarrow> v = []" unfolding prefix_in_def by blast
    moreover have "u \<in> lang (Star c # is)" using \<open>u \<in> lang is\<close> unfolding lang.simps by (intro CollectI exI[of _ "[]"] exI[of _ u]) simp
    ultimately show ?thesis unfolding prefix_in_def by blast
  next
    assume r: "ts \<noteq> [] \<and> admits c (hd ts) \<and> prefix_in (Star c # is) e (tl ts)"
    then obtain u v where u: "tl ts = u @ v" "u \<in> lang (Star c # is)" "e \<longrightarrow> v = []" unfolding prefix_in_def by blast
    then obtain x w where "u = x @ w" "\<forall>t\<in>set x. admits c t" "w \<in> lang is" by auto
    then have "hd ts # u \<in> lang (Star c # is)"
      using r unfolding lang.simps by (intro CollectI exI[of _ "hd ts # x"] exI[of _ w]) simp
    moreover have "ts = (hd ts # u) @ v" using u(1) r by (cases ts) auto
    ultimately show ?thesis using u(3) unfolding prefix_in_def by blast
  qed
qed

lemma matchhere_items: "matchhere re ts \<longleftrightarrow> prefix_in (items re) (at_end re) ts"
  and matchstar_items: "matchstar c re ts \<longleftrightarrow> prefix_in (Star c # items re) (at_end re) ts"
proof (induction re ts and c re ts rule: matchhere_matchstar.induct)
  case (2 c re ts)
  show ?case
  proof (cases re)
    case Nil
    then show ?thesis using 2 by (auto simp: matchhere.simps(2) prefix_in_One admits_def)
  next
    case (Cons d re')
    then show ?thesis using 2 by (auto simp: matchhere.simps(2) prefix_in_One admits_def)
  qed
next
  case (3 c re ts)
  then show ?case by (subst matchstar.simps, subst prefix_in_Star) (auto simp: admits_def)
qed simp

section \<open>The matcher\<close>

lemma match_loop_iff: "match_loop re ts \<longleftrightarrow> (\<exists>pre suf. ts = pre @ suf \<and> matchhere re suf)"
proof (induction ts)
  case (Cons t ts)
  show ?case
  proof
    assume "match_loop re (t # ts)"
    then show "\<exists>pre suf. t # ts = pre @ suf \<and> matchhere re suf"
      using Cons by (auto split: if_splits) (metis append_Cons)
  next
    assume "\<exists>pre suf. t # ts = pre @ suf \<and> matchhere re suf"
    then obtain pre suf where "t # ts = pre @ suf" "matchhere re suf" by blast
    then show "match_loop re (t # ts)" using Cons by (cases pre) auto
  qed
qed simp

text \<open>
  C30. The matcher of \<^verbatim>\<open>grep\<close> decides whether some part of the line is in the language of the pattern, where a byte stands for
  itself, a dot for any byte, a star for any number of what stands before it; a leading caret asks for the beginning of the
  line and a final dollar for its end.
\<close>

theorem match_correct:
  "match re ts \<longleftrightarrow>
     (let anchored = (re \<noteq> [] \<and> hd re = c_caret); body = (if anchored then tl re else re) in
      \<exists>pre u post. ts = pre @ u @ post \<and> u \<in> lang (items body) \<and> (anchored \<longrightarrow> pre = []) \<and> (at_end body \<longrightarrow> post = []))"
proof (cases "re \<noteq> [] \<and> hd re = c_caret")
  case True
  then show ?thesis by (auto simp: match_def Let_def matchhere_items prefix_in_def)
next
  case False
  then show ?thesis unfolding match_def Let_def match_loop_iff matchhere_items prefix_in_def by auto
qed

text \<open>The pattern \<^verbatim>\<open>^ab*$\<close>.\<close>

theorem match_correct_witness:
  "match [0x5e, 0x61, 0x62, 0x2a, 0x24] [0x61, 0x62, 0x62] \<and> [0x61, 0x62, 0x62] \<in> lang [One 0x61, Star 0x62]
    \<and> [0x61, 0x63] \<notin> lang [One 0x61, Star 0x62]"
proof -
  let ?re = "[0x5e, 0x61, 0x62, 0x2a, 0x24] :: u8 list"
  have "match ?re [0x61, 0x62, 0x62]" "\<not> match ?re [0x61, 0x63]" by code_simp+
  moreover have "items (tl ?re) = [One 0x61, Star 0x62]" "at_end (tl ?re)" "hd ?re = c_caret" by code_simp+
  ultimately show ?thesis using match_correct[of ?re "[0x61, 0x62, 0x62]"] match_correct[of ?re "[0x61, 0x63]"] by (simp add: Let_def)
qed

section \<open>The scanner\<close>

text \<open>
  An input that delivers the bytes \<open>content w\<close>: every read returns some of the next bytes, at most as many as asked for, and none
  only at the end.
\<close>

definition delivers :: "(nat \<Rightarrow> 'w \<Rightarrow> int \<times> 'b list \<times> 'w) \<Rightarrow> ('w \<Rightarrow> 'b list) \<Rightarrow> bool" where
  "delivers rd content \<longleftrightarrow> (\<forall>n w. case rd n w of (k, bs, w') \<Rightarrow>
     k = int (length bs) \<and> length bs \<le> n \<and> content w = bs @ content w' \<and> (0 < n \<longrightarrow> content w \<noteq> [] \<longrightarrow> bs \<noteq> []))"

definition line_ok :: "u8 list \<Rightarrow> bool" where
  "line_ok l \<longleftrightarrow> 0 \<notin> set l \<and> c_nl \<notin> set l"

abbreviation terminated :: "u8 list list \<Rightarrow> u8 list" where
  "terminated ls \<equiv> concat (map (\<lambda>l. l @ [c_nl]) ls)"

lemma find_nl_line: "line_ok l \<Longrightarrow> find_nl (l @ c_nl # bs) = Some (length l)" "line_ok l \<Longrightarrow> find_nl l = None"
  by (induction l) (auto simp: line_ok_def)

lemma grep_lines_whole:
  "\<forall>l\<in>set ls. line_ok l \<Longrightarrow> line_ok r \<Longrightarrow> grep_lines re (terminated ls @ r) = (terminated (filter (match re) ls), r)"
proof (induction ls)
  case Nil
  then show ?case by (simp add: grep_lines.simps find_nl_line)
next
  case (Cons l ls)
  then have "find_nl (l @ c_nl # terminated ls @ r) = Some (length l)" by (simp add: find_nl_line)
  then show ?case using Cons by (subst grep_lines.simps) simp
qed

text \<open>The text read so far, as whole lines and the beginning of the next.\<close>

lemma split_lines:
  assumes "0 \<notin> set bs"
  shows "\<exists>ls r. bs = terminated ls @ r \<and> line_ok r \<and> (\<forall>l\<in>set ls. line_ok l)"
  using assms
proof (induction bs)
  case Nil
  then show ?case by (intro exI[of _ "[]"]) (simp add: line_ok_def)
next
  case (Cons b bs)
  then obtain ls r where IH: "bs = terminated ls @ r" "line_ok r" "\<forall>l\<in>set ls. line_ok l" by auto
  show ?case
  proof (cases "b = c_nl")
    case True
    then show ?thesis using IH by (intro exI[of _ "[] # ls"] exI[of _ r]) (auto simp: line_ok_def)
  next
    case False
    then show ?thesis
    proof (cases ls)
      case Nil
      then show ?thesis using IH False Cons.prems by (intro exI[of _ "[]"] exI[of _ "b # r"]) (auto simp: line_ok_def)
    next
      case (Cons l ls')
      then show ?thesis using IH False \<open>0 \<notin> set (b # bs)\<close>
        by (intro exI[of _ "(b # l) # ls'"] exI[of _ r]) (auto simp: line_ok_def)
    qed
  qed
qed

lemma terminated_split:
  "terminated ls @ r @ x = terminated ks \<Longrightarrow> line_ok r \<Longrightarrow> \<forall>l\<in>set ls. line_ok l \<Longrightarrow> \<forall>k\<in>set ks. line_ok k
    \<Longrightarrow> \<exists>ks'. ks = ls @ ks' \<and> r @ x = terminated ks'"
proof (induction ls arbitrary: ks)
  case (Cons l ls)
  show ?case
  proof (cases ks)
    case Nil
    then show ?thesis using Cons.prems(1) by simp
  next
    case (Cons k ks')
    have eq: "l @ c_nl # (terminated ls @ r @ x) = k @ c_nl # terminated ks'" using Cons.prems(1) Cons by simp
    have "l = k"
      using find_nl_line(1)[of l "terminated ls @ r @ x"] find_nl_line(1)[of k "terminated ks'"] eq Cons.prems(3,4) Cons
      by (metis append_eq_append_conv list.set_intros(1) option.inject)
    then show ?thesis using Cons.IH[of ks'] Cons.prems eq Cons by simp
  qed
qed simp

lemma grep_loop_lines:
  assumes "delivers rd content" "r @ content w = terminated ks" "line_ok r" "\<forall>k\<in>set ks. line_ok k \<and> length k < 1023"
  shows "\<exists>w'. grep_loop rd re r out w = Some (out @ terminated (filter (match re) ks), w')"
  using assms(2-4)
proof (induction "length (content w)" arbitrary: w r ks out rule: less_induct)
  case less
  obtain k bs w' where rd: "rd (1024 - length r - 1) w = (k, bs, w')" by (metis prod_cases3)
  then have d: "k = int (length bs)" "content w = bs @ content w'"
    "0 < 1024 - length r - 1 \<longrightarrow> content w \<noteq> [] \<longrightarrow> bs \<noteq> []"
    using assms(1) unfolding delivers_def by (auto dest!: spec[of _ "1024 - length r - 1"] spec[of _ w])
  show ?case
  proof (cases ks)
    case Nil
    then have "bs = []" "r = []" using less.prems(1) d(2) by auto
    then show ?thesis using rd d(1) Nil by (subst grep_loop.simps) simp
  next
    case (Cons k1 ks1)
    have "length r < 1023"
    proof (rule ccontr)
      assume long: "\<not> length r < 1023"
      have "r @ content w = k1 @ c_nl # terminated ks1" using less.prems(1) Cons by simp
      then have "(r @ content w) ! length k1 = c_nl" by simp
      moreover have "length k1 < length r" using long less.prems(3) Cons by auto
      ultimately have "c_nl \<in> set r" by (metis nth_append nth_mem)
      then show False using less.prems(2) by (simp add: line_ok_def)
    qed
    moreover have "content w \<noteq> []"
      using less.prems(1,2) Cons by (auto simp: line_ok_def)
    ultimately have ne: "bs \<noteq> []" using d(3) by simp
    have "set (r @ bs) \<subseteq> set (terminated ks)" using less.prems(1) d(2) by (metis Un_upper1 append.assoc set_append)
    moreover have "0 \<notin> set (terminated ks)" using less.prems(3) by (auto simp: line_ok_def)
    ultimately have "0 \<notin> set (r @ bs)" by blast
    then obtain ls r' where s: "r @ bs = terminated ls @ r'" "line_ok r'" "\<forall>l\<in>set ls. line_ok l"
      using split_lines by blast
    have "terminated ls @ r' @ content w' = terminated ks" using less.prems(1) d(2) s(1) by (metis append.assoc)
    then obtain ks' where ks': "ks = ls @ ks'" "r' @ content w' = terminated ks'"
      using terminated_split s(2,3) less.prems(3) by blast
    have "length (content w') < length (content w)" using d(2) ne by simp
    from less.hyps[OF this ks'(2) s(2), of "out @ terminated (filter (match re) ls)"] less.prems(3) ks'(1)
    obtain w'' where "grep_loop rd re r' (out @ terminated (filter (match re) ls)) w'
        = Some ((out @ terminated (filter (match re) ls)) @ terminated (filter (match re) ks'), w'')" by auto
    then show ?thesis using rd d(1) ne s ks'(1) grep_lines_whole[of ls r' re]
      by (subst grep_loop.simps) auto
  qed
qed


text \<open>An input that hands out its bytes three at a time.\<close>

definition drip :: "nat \<Rightarrow> u8 list \<Rightarrow> int \<times> u8 list \<times> u8 list" where
  "drip n w = (let k = min n 3 in (int (length (take k w)), take k w, drop k w))"

lemma drip_delivers: "delivers drip (\<lambda>w. w)"
  by (auto simp: delivers_def drip_def Let_def)


end
