(* ===== verification/Uprintf.thy ===== *)
theory Uprintf
  imports Kprintf
begin

text \<open>
  \<^verbatim>\<open>user/printf.c\<close>: the formatted output of user programs. The functions give the characters that \<^verbatim>\<open>putc\<close> writes one by one; \<open>None\<close> is a
  call with fewer or other arguments than the format asks for. The kernel's formatter is a separate piece
  of code with the same conversions; the two are compared at the end.
\<close>

section \<open>The code\<close>

definition udigits :: string where
  "udigits = ''0123456789ABCDEF''"

text \<open>The \<^verbatim>\<open>do\<close> loop of \<^verbatim>\<open>printint\<close>: the content of \<^verbatim>\<open>buf\<close>, least significant digit first.\<close>

function udigit_loop :: "nat \<Rightarrow> nat \<Rightarrow> string" where
  "udigit_loop x base = (if base < 2 then [] else
     udigits ! (x mod base) # (if x div base \<noteq> 0 then udigit_loop (x div base) base else []))"
  by pat_completeness auto
termination
proof (relation "measure fst", goal_cases)
  case (2 x base)
  then have "0 < x" "1 < base" by (auto intro: ccontr)
  then show ?case by simp
qed simp

declare udigit_loop.simps [simp del]

definition uprintint :: "u64 \<Rightarrow> nat \<Rightarrow> bool \<Rightarrow> string" where
  "uprintint xx base sg =
     (let neg = sg \<and> sint xx < 0;
          x = (if neg then - xx else xx);
          buf = udigit_loop (unat x) base @ (if neg then ''-'' else '''')
      in rev buf)"

definition uprintptr :: "u64 \<Rightarrow> string" where
  "uprintptr x = ''0x'' @ map (\<lambda>i. udigits ! unat (drop_bit 60 (push_bit (4 * i) x))) [0..<16]"

text \<open>The cascade of tests after a \<^verbatim>\<open>%\<close>: what is printed, the arguments left, and by how much the index \<^verbatim>\<open>i\<close> is advanced in addition.\<close>

definition uconvert :: "char \<Rightarrow> char \<Rightarrow> char \<Rightarrow> varg list \<Rightarrow> (string \<times> varg list \<times> nat) option" where
  "uconvert c0 c1 c2 ap =
     (let num = (\<lambda>f i. case ap of VInt v # ap' \<Rightarrow> Some (f v, ap', i) | _ \<Rightarrow> None) in
      if c0 = CHR ''d'' then num (\<lambda>v. uprintint (sext32 v) 10 True) 0
      else if c0 = CHR ''l'' \<and> c1 = CHR ''d'' then num (\<lambda>v. uprintint v 10 True) 1
      else if c0 = CHR ''l'' \<and> c1 = CHR ''l'' \<and> c2 = CHR ''d'' then num (\<lambda>v. uprintint v 10 True) 2
      else if c0 = CHR ''u'' then num (\<lambda>v. uprintint (zext32 v) 10 False) 0
      else if c0 = CHR ''l'' \<and> c1 = CHR ''u'' then num (\<lambda>v. uprintint v 10 False) 1
      else if c0 = CHR ''l'' \<and> c1 = CHR ''l'' \<and> c2 = CHR ''u'' then num (\<lambda>v. uprintint v 10 False) 2
      else if c0 = CHR ''x'' then num (\<lambda>v. uprintint (zext32 v) 16 False) 0
      else if c0 = CHR ''l'' \<and> c1 = CHR ''x'' then num (\<lambda>v. uprintint v 16 False) 1
      else if c0 = CHR ''l'' \<and> c1 = CHR ''l'' \<and> c2 = CHR ''x'' then num (\<lambda>v. uprintint v 16 False) 2
      else if c0 = CHR ''p'' then num uprintptr 0
      else if c0 = CHR ''c'' then num (\<lambda>v. [char_of (unat v mod 256)]) 0
      else if c0 = CHR ''s'' then
        (case ap of VStr t # ap' \<Rightarrow> Some (case t of None \<Rightarrow> ''(null)'' | Some x \<Rightarrow> x, ap', 0) | _ \<Rightarrow> None)
      else if c0 = CHR ''%'' then Some (''%'', ap, 0)
      else Some ([CHR ''%'', c0], ap, 0))"

text \<open>The loop of \<^verbatim>\<open>vprintf\<close>; \<open>pct\<close> is its variable \<^verbatim>\<open>state\<close>.\<close>

function vprintf :: "bool \<Rightarrow> string \<Rightarrow> varg list \<Rightarrow> string option" where
  "vprintf pct [] ap = Some []"
| "vprintf pct (c0 # f) ap =
     (if \<not> pct then
        (if c0 = CHR ''%'' then vprintf True f ap else map_option ((#) c0) (vprintf False f ap))
      else
        let c1 = (if c0 \<noteq> CHR 0x00 then fchar f 0 else CHR 0x00);
            c2 = (if c1 \<noteq> CHR 0x00 then fchar f 1 else CHR 0x00) in
        case uconvert c0 c1 c2 ap of
          None \<Rightarrow> None
        | Some (t, ap', i) \<Rightarrow> map_option ((@) t) (vprintf False (drop i f) ap'))"
  by pat_completeness auto
termination
  by (relation "measure (\<lambda>(pct, f, ap). length f)") auto

definition uprintf :: "string \<Rightarrow> varg list \<Rightarrow> string option" where
  "uprintf fmt ap = vprintf False fmt ap"

section \<open>Comparison with the kernel's formatter\<close>

definition lower :: "char \<Rightarrow> char" where
  "lower c = (let n = of_char c :: nat in if 65 \<le> n \<and> n \<le> 90 then char_of (n + 32) else c)"

lemma lower_udigits: "d < 16 \<Longrightarrow> lower (udigits ! d) = digits ! d"
proof -
  assume "d < 16"
  then have "d \<in> set [0..<16]" by simp
  moreover have "\<forall>d \<in> set [0..<16]. lower (udigits ! d) = digits ! d" by code_simp
  ultimately show ?thesis by blast
qed

lemma lower_digits: "d < 16 \<Longrightarrow> lower (digits ! d) = digits ! d"
proof -
  assume "d < 16"
  then have "d \<in> set [0..<16]" by simp
  moreover have "\<forall>d \<in> set [0..<16]. lower (digits ! d) = digits ! d" by code_simp
  ultimately show ?thesis by blast
qed

lemma lower_digit_loop:
  assumes "2 \<le> base" "base \<le> 16"
  shows "map lower (udigit_loop x base) = map lower (digit_loop x base)"
proof (induction x rule: less_induct)
  case (less x)
  have "x mod base < base" using assms by simp
  then have "x mod base < 16" using assms(2) by (rule order_less_le_trans)
  moreover have "x div base < x" if "x div base \<noteq> 0"
    using that assms by (intro div_less_dividend) (auto intro: gr0I)
  ultimately show ?case
    using less.IH[of "x div base"] by (subst udigit_loop.simps, subst digit_loop.simps) (simp add: lower_udigits lower_digits)
qed

lemma lower_printint: "2 \<le> base \<Longrightarrow> base \<le> 16 \<Longrightarrow> map lower (uprintint x base s) = map lower (printint x base s)"
  by (simp add: uprintint_def printint_def Let_def rev_map[symmetric] lower_digit_loop)

lemma lower_printptr: "map lower (uprintptr x) = map lower (printptr x)"
proof -
  have "unat (drop_bit 60 y) < 16" for y :: u64
  proof -
    have "unat (drop_bit 60 y) = unat y div 2 ^ 60" by (simp add: drop_bit_eq_div unat_div)
    moreover have "unat y < 2 ^ 64" using unsigned_less[of y] by simp
    ultimately show ?thesis by (simp add: less_mult_imp_div_less)
  qed
  then show ?thesis by (simp add: uprintptr_def printptr_def lower_udigits lower_digits)
qed

text \<open>The kernel's two tables, one after the other, are the user's cascade.\<close>

lemma uconvert_convert:
  assumes "c0 \<noteq> CHR 0x00" "classify c0 c1 c2 = (k, n)"
  shows "k \<noteq> Cend \<and> 0 < n \<and> (case uconvert c0 c1 c2 ap of
       None \<Rightarrow> convert k c0 ap = None
     | Some (t, ap', i) \<Rightarrow> \<exists>t'. convert k c0 ap = Some (t', ap') \<and> map lower t = map lower t' \<and> i = n - 1)"
proof -
  consider "ap = []" | v ap' where "ap = VInt v # ap'" | t ap' where "ap = VStr t # ap'"
    by (metis neq_Nil_conv varg.exhaust)
  then show ?thesis
    using assms
    by cases (simp_all add: classify_def uconvert_def Let_def lower_printint lower_printptr split: if_splits)
qed

lemma fchar_Cons: "fchar (c # f) 0 = c" "fchar (c # f) 1 = fchar f 0" "fchar (c # f) (Suc 0) = fchar f 0" "fchar (c # f) 2 = fchar f 1"
  by (simp_all add: fchar_def)



text \<open>
  C33. \<^verbatim>\<open>printint\<close> never writes past the 20 bytes of its buffer, for any 64-bit number in the bases and with the
  signs that \<^verbatim>\<open>vprintf\<close> asks for.
\<close>

theorem uprintint_fits:
  assumes "base = 10 \<or> base = 16 \<and> \<not> sg"
  shows "length (uprintint xx base sg) \<le> 20"
proof -
  have "2 \<le> base" "base \<le> 16" using assms by auto
  then have "map lower (uprintint xx base sg) = map lower (printint xx base sg)" by (rule lower_printint)
  then have "length (uprintint xx base sg) = length (printint xx base sg)" using map_eq_imp_length_eq by blast
  then show ?thesis using digit_loop_fits[OF assms, of xx] by (cases "sg \<and> sint xx < 0") (simp_all add: printint_def Let_def)
qed

theorem uprintint_fits_witness: "length (uprintint (- 0x8000000000000000) 10 True) \<le> 20 \<and> uprintint (- 1) 10 True = ''-1''"
proof
  show "length (uprintint (- 0x8000000000000000) 10 True) \<le> 20" by (rule uprintint_fits) simp
  show "uprintint (- 1) 10 True = ''-1''" by code_simp
qed

end
