(* ===== verification/Ulib.thy ===== *)
theory Ulib
  imports Cstring
begin

text \<open>
  \<^verbatim>\<open>user/ulib.c\<close>: the string and memory routines of user programs, over the process's byte-addressed memory. A loop that runs until it
  sees a NUL byte may run forever, which is the value \<open>None\<close>. System calls are arguments: \<open>rd\<close> is \<^verbatim>\<open>read\<close> on the standard
  input, asked for a number of bytes, and answers a count, the bytes and the state after it.
\<close>

section \<open>The code\<close>

partial_function (option) ustrcpy :: "memory \<Rightarrow> addr \<Rightarrow> addr \<Rightarrow> memory option" where
  "ustrcpy m s t = (let m' = m(s := m t) in if m t \<noteq> 0 then ustrcpy m' (s + 1) (t + 1) else Some m')"

partial_function (option) ustrcmp :: "memory \<Rightarrow> addr \<Rightarrow> addr \<Rightarrow> int option" where
  "ustrcmp m p q = (if m p \<noteq> 0 \<and> m p = m q then ustrcmp m (p + 1) (q + 1) else Some (uint (m p) - uint (m q)))"

partial_function (option) ustrlen_loop :: "memory \<Rightarrow> addr \<Rightarrow> nat \<Rightarrow> nat option" where
  "ustrlen_loop m s n = (if m (s + of_nat n) = 0 then Some n else ustrlen_loop m s (Suc n))"

definition ustrlen :: "memory \<Rightarrow> addr \<Rightarrow> nat option" where
  "ustrlen m s = ustrlen_loop m s 0"

definition umemset :: "memory \<Rightarrow> addr \<Rightarrow> int \<Rightarrow> nat \<Rightarrow> memory" where
  "umemset m dst c n = fold (\<lambda>i m. m(dst + of_nat i := of_int c)) [0..<n] m"

text \<open>A null result is the address 0.\<close>

partial_function (option) ustrchr :: "memory \<Rightarrow> addr \<Rightarrow> u8 \<Rightarrow> addr option" where
  "ustrchr m s c = (if m s = 0 then Some 0 else if m s = c then Some s else ustrchr m (s + 1) c)"

text \<open>The loop of \<^verbatim>\<open>gets\<close> with room for \<open>n\<close> more bytes before the NUL: the bytes it stores.\<close>

fun ugets_loop :: "(nat \<Rightarrow> 'w \<Rightarrow> int \<times> u8 list \<times> 'w) \<Rightarrow> nat \<Rightarrow> 'w \<Rightarrow> u8 list \<times> 'w" where
  "ugets_loop rd 0 w = ([], w)"
| "ugets_loop rd (Suc n) w =
     (case rd 1 w of (cc, bs, w) \<Rightarrow>
        if cc < 1 then ([], w)
        else let c = hd bs in
          if c = 0x0A \<or> c = 0x0D then ([c], w)
          else case ugets_loop rd n w of (cs, w) \<Rightarrow> (c # cs, w))"

definition ugets :: "(nat \<Rightarrow> 'w \<Rightarrow> int \<times> u8 list \<times> 'w) \<Rightarrow> memory \<Rightarrow> addr \<Rightarrow> int \<Rightarrow> 'w \<Rightarrow> memory \<times> 'w" where
  "ugets rd m buf mx w = (case ugets_loop rd (nat (mx - 1)) w of (cs, w) \<Rightarrow> (write_bytes m buf (cs @ [0]), w))"

text \<open>\<^verbatim>\<open>stat\<close> over the system calls \<^verbatim>\<open>open\<close> (for reading), \<^verbatim>\<open>fstat\<close> and \<^verbatim>\<open>close\<close>.\<close>

definition ustat :: "('n \<Rightarrow> 'w \<Rightarrow> int \<times> 'w) \<Rightarrow> (int \<Rightarrow> 'w \<Rightarrow> int \<times> 'st \<times> 'w) \<Rightarrow> (int \<Rightarrow> 'w \<Rightarrow> int \<times> 'w) \<Rightarrow>
    'n \<Rightarrow> 'w \<Rightarrow> int \<times> 'st option \<times> 'w" where
  "ustat opn fst' cls n w =
     (case opn n w of (fd, w) \<Rightarrow>
        if fd < 0 then (-1, None, w)
        else case fst' fd w of (r, st, w) \<Rightarrow>
          case cls fd w of (_, w) \<Rightarrow> (r, Some st, w))"

text \<open>
  The loop of \<^verbatim>\<open>atoi\<close> on the bytes of the string; a value outside the range of \<^verbatim>\<open>int\<close> is an overflow, which C leaves undefined:
  \<open>None\<close>.
\<close>

fun uatoi_loop :: "int \<Rightarrow> u8 list \<Rightarrow> int option" where
  "uatoi_loop n [] = Some n"
| "uatoi_loop n (b # bs) =
     (if 48 \<le> b \<and> b \<le> 57 then
        (if n * 10 + uint b > 2147483647 then None else uatoi_loop (n * 10 + uint b - 48) bs)
      else Some n)"

definition uatoi :: "u8 list \<Rightarrow> int option" where
  "uatoi bs = uatoi_loop 0 bs"

definition umemmove :: "memory \<Rightarrow> addr \<Rightarrow> addr \<Rightarrow> int \<Rightarrow> memory" where
  "umemmove m dst src n =
     (if src > dst then copy_forward m dst src (nat n)
      else copy_backward m (dst + of_int n) (src + of_int n) (nat n))"

fun umemcmp :: "memory \<Rightarrow> addr \<Rightarrow> addr \<Rightarrow> nat \<Rightarrow> int" where
  "umemcmp m p1 p2 0 = 0"
| "umemcmp m p1 p2 (Suc n) =
     (if m p1 \<noteq> m p2 then uint (m p1) - uint (m p2) else umemcmp m (p1 + 1) (p2 + 1) n)"

definition umemcpy :: "memory \<Rightarrow> addr \<Rightarrow> addr \<Rightarrow> nat \<Rightarrow> memory" where
  "umemcpy m dst src n = umemmove m dst src (sint (of_nat n :: u32))"

section \<open>Strings\<close>

lemma ustrlen_loop_cstr: "cstr m (s + of_nat n) bs \<Longrightarrow> ustrlen_loop m s n = Some (n + length bs)"
proof (induction bs arbitrary: n)
  case Nil
  then show ?case by (simp add: ustrlen_loop.simps)
next
  case (Cons b bs)
  have "s + of_nat n + 1 = s + of_nat (Suc n)" by simp
  then have "ustrlen_loop m s (Suc n) = Some (Suc n + length bs)" using Cons by (metis cstr.simps(2))
  then show ?case using Cons.prems by (subst ustrlen_loop.simps) simp
qed

fun cmp_strings :: "u8 list \<Rightarrow> u8 list \<Rightarrow> int" where
  "cmp_strings [] [] = 0"
| "cmp_strings [] (y # ys) = - uint y"
| "cmp_strings (x # xs) [] = uint x"
| "cmp_strings (x # xs) (y # ys) = (if x = y then cmp_strings xs ys else uint x - uint y)"

lemma ustrcmp_cstr: "cstr m p xs \<Longrightarrow> cstr m q ys \<Longrightarrow> ustrcmp m p q = Some (cmp_strings xs ys)"
proof (induction xs ys arbitrary: p q rule: cmp_strings.induct)
  case (4 x xs y ys)
  then show ?case by (subst ustrcmp.simps) auto
qed (auto simp: ustrcmp.simps)

lemma cmp_strings_0: "0 \<notin> set xs \<Longrightarrow> 0 \<notin> set ys \<Longrightarrow> cmp_strings xs ys = 0 \<longleftrightarrow> xs = ys"
  by (induction xs ys rule: cmp_strings.induct) (auto simp: uint_0_iff simp flip: word_uint_eq_iff)

lemma find_map_list: "find P (map f xs) = map_option f (find (\<lambda>x. P (f x)) xs)"
  by (induction xs) auto

lemma ustrchr_cstr:
  assumes "cstr m s bs" "c \<noteq> 0"
  shows "ustrchr m s c = Some (case find (\<lambda>i. bs ! i = c) [0..<length bs] of None \<Rightarrow> 0 | Some i \<Rightarrow> s + of_nat i)"
  using assms(1)
proof (induction bs arbitrary: s)
  case Nil
  then show ?case by (simp add: ustrchr.simps)
next
  case (Cons b bs)
  then have IH: "ustrchr m (s + 1) c = Some (case find (\<lambda>i. bs ! i = c) [0..<length bs] of None \<Rightarrow> 0 | Some i \<Rightarrow> s + 1 + of_nat i)"
    by simp
  have shift: "find (\<lambda>i. (b # bs) ! i = c) (map Suc [0..<length bs]) = map_option Suc (find (\<lambda>i. bs ! i = c) [0..<length bs])"
    by (simp add: find_map_list)
  have upt: "[0..<length (b # bs)] = 0 # map Suc [0..<length bs]" by (simp add: upt_conv_Cons map_Suc_upt del: upt_Suc)
  show ?case
  proof (cases "b = c")
    case True
    then show ?thesis unfolding upt using Cons.prems by (subst ustrchr.simps) simp
  next
    case False
    then show ?thesis unfolding upt using Cons.prems IH shift
      by (subst ustrchr.simps) (simp add: algebra_simps split: option.split)
  qed
qed

lemma ustrcpy_cstr:
  assumes "cstr m t bs" "apart t (length bs) s (Suc (length bs))" "unat s + Suc (length bs) \<le> 2 ^ 64"
  shows "\<exists>m'. ustrcpy m s t = Some m' \<and> cstr m' s bs \<and> same_outside m m' s (Suc (length bs))"
  using assms
proof (induction bs arbitrary: m s t)
  case Nil
  then show ?case by (subst ustrcpy.simps) (auto simp: same_outside_def)
next
  case (Cons b bs)
  let ?m = "m(s := b)"
  have s1: "unat (s + 1) = Suc (unat s)" using Cons.prems(3) by (intro unat_Suc) simp
  have "cstr ?m (t + 1) bs" using Cons.prems apart_next[of t b bs s "length (b # bs)" m b] by simp
  moreover have "apart (t + 1) (length bs) (s + 1) (Suc (length bs))" using apart_Suc Cons.prems(2) by simp
  moreover have "unat (s + 1) + Suc (length bs) \<le> 2 ^ 64" using s1 Cons.prems(3) by simp
  ultimately obtain m' where m': "ustrcpy ?m (s + 1) (t + 1) = Some m'" "cstr m' (s + 1) bs"
      "same_outside ?m m' (s + 1) (Suc (length bs))"
    using Cons.IH by blast
  have "m' s = b" using first_byte_stays[OF m'(3)] Cons.prems(3) by simp
  moreover have "ustrcpy m s t = Some m'" using Cons.prems(1) m'(1) by (subst ustrcpy.simps) (simp add: Let_def)
  ultimately show ?case using m'(2) Cons.prems(1) same_outside_step[OF m'(3)] by simp
qed


definition hi_memory :: memory where
  "hi_memory = (\<lambda>_. 0)(0x100 := 0x68, 0x101 := 0x69)"


section \<open>Memory\<close>

text \<open>
  C35. The two implementations of \<^verbatim>\<open>memmove\<close>, the kernel's and the user library's, choose the direction of the copy by different tests
  and have the same effect: the destination gets what the source held before the call, also when they overlap.
\<close>

theorem memmove_user_kernel:
  assumes "unat dst + n \<le> 2 ^ 64" "unat src + n < 2 ^ 64"
  shows "umemmove m dst src (int n) = memmove m dst src n \<and> umemmove m dst src (int n) = write_bytes m dst (read_bytes m src n)"
proof -
  have "umemmove m dst src (int n) = write_bytes m dst (read_bytes m src n)"
  proof (cases "src > dst")
    case True
    then have "dst \<le> src" by simp
    then have "copy_forward m dst src n x = write_bytes m dst (read_bytes m src n) x" for x
      using assms copy_forward_at[of dst n src m x] write_read_at[of m dst src n x] by simp
    then show ?thesis using True by (simp add: umemmove_def fun_eq_iff)
  next
    case False
    then have "unat src \<le> unat dst" by (simp add: word_le_nat_alt not_less)
    then have "copy_backward m (dst + of_nat n) (src + of_nat n) n x = write_bytes m dst (read_bytes m src n) x" for x
      using assms copy_backward_at[of dst n src m x] write_read_at[of m dst src n x] by simp
    then show ?thesis using False by (simp add: umemmove_def fun_eq_iff)
  qed
  then show ?thesis using memmove_copies[OF assms] by simp
qed

theorem memmove_user_kernel_witness:
  "umemmove hi_memory 0x101 0x100 2 = memmove hi_memory 0x101 0x100 2 \<and> umemmove hi_memory 0x101 0x100 2 0x102 = 0x69"
proof -
  have "write_bytes hi_memory 0x101 (read_bytes hi_memory 0x100 2) 0x102 = 0x69"
    by (simp add: write_read_at hi_memory_def)
  then show ?thesis using memmove_user_kernel[of "0x101" 2 "0x100" hi_memory] by (simp, metis)
qed

end
