(* ===== verification/Umalloc.thy ===== *)
theory Umalloc
  imports Machine
begin

text \<open>
  \<^verbatim>\<open>user/umalloc.c\<close>: the allocator of user programs. A \<^verbatim>\<open>Header\<close> is 16 bytes, its address names it, and the
  two fields of the headers are functions of that address: the view of the heap as structures, which programs that stay inside their blocks
  do not disturb. Sizes count headers. \<open>b0\<close> is the address of the static \<^verbatim>\<open>base\<close>; the system call \<^verbatim>\<open>sbrk\<close> is an argument.
  The searches follow pointers and may run forever on a corrupt list, which is the value \<open>None\<close>.
\<close>

section \<open>The code\<close>

record uheap =
  hptr :: "addr \<Rightarrow> addr"
  hsize :: "addr \<Rightarrow> u32"
  freep :: addr

text \<open>\<^verbatim>\<open>p + p->s.size\<close>.\<close>

definition after :: "uheap \<Rightarrow> addr \<Rightarrow> addr" where
  "after h p = p + 16 * ucast (hsize h p)"

partial_function (option) free_search :: "uheap \<Rightarrow> addr \<Rightarrow> addr \<Rightarrow> addr option" where
  "free_search h bp p =
     (if bp > p \<and> bp < hptr h p then Some p
      else if p \<ge> hptr h p \<and> (bp > p \<or> bp < hptr h p) then Some p
      else free_search h bp (hptr h p))"

definition free_link :: "addr \<Rightarrow> addr \<Rightarrow> uheap \<Rightarrow> uheap" where
  "free_link bp p h =
     (let h = (if after h bp = hptr h p
               then h\<lparr>hsize := (hsize h)(bp := hsize h bp + hsize h (hptr h p)), hptr := (hptr h)(bp := hptr h (hptr h p))\<rparr>
               else h\<lparr>hptr := (hptr h)(bp := hptr h p)\<rparr>);
          h = (if after h p = bp
               then h\<lparr>hsize := (hsize h)(p := hsize h p + hsize h bp), hptr := (hptr h)(p := hptr h bp)\<rparr>
               else h\<lparr>hptr := (hptr h)(p := bp)\<rparr>)
      in h\<lparr>freep := p\<rparr>)"

definition ufree :: "addr \<Rightarrow> uheap \<Rightarrow> uheap option" where
  "ufree ap h =
     (let bp = ap - 16 in
      case free_search h bp (freep h) of
        None \<Rightarrow> None
      | Some p \<Rightarrow> Some (free_link bp p h))"

text \<open>The result is the header \<^verbatim>\<open>freep\<close>, 0 when \<^verbatim>\<open>sbrk\<close> fails.\<close>

definition morecore :: "(int \<Rightarrow> 'w \<Rightarrow> addr \<times> 'w) \<Rightarrow> u32 \<Rightarrow> uheap \<Rightarrow> 'w \<Rightarrow> (addr \<times> uheap \<times> 'w) option" where
  "morecore sbrk nu h w =
     (let nu = (if nu < 4096 then 4096 else nu) in
      case sbrk (sint (ucast (ucast nu * 16 :: u64) :: u32)) w of (p, w) \<Rightarrow>
        if p = - 1 then Some (0, h, w)
        else case ufree (p + 16) (h\<lparr>hsize := (hsize h)(p := nu)\<rparr>) of
            None \<Rightarrow> None
          | Some h \<Rightarrow> Some (freep h, h, w))"

text \<open>What is taken from the block \<open>p\<close>, which is large enough: all of it, or its end.\<close>

definition carve :: "u32 \<Rightarrow> addr \<Rightarrow> addr \<Rightarrow> uheap \<Rightarrow> addr \<times> uheap" where
  "carve nunits prevp p h =
     (if hsize h p = nunits
      then (p + 16, h\<lparr>hptr := (hptr h)(prevp := hptr h p), freep := prevp\<rparr>)
      else
        let h = h\<lparr>hsize := (hsize h)(p := hsize h p - nunits)\<rparr>;
            p = after h p
        in (p + 16, h\<lparr>hsize := (hsize h)(p := nunits), freep := prevp\<rparr>))"

partial_function (option) malloc_loop ::
  "(int \<Rightarrow> 'w \<Rightarrow> addr \<times> 'w) \<Rightarrow> u32 \<Rightarrow> addr \<Rightarrow> addr \<Rightarrow> uheap \<Rightarrow> 'w \<Rightarrow> (addr \<times> uheap \<times> 'w) option" where
  "malloc_loop sbrk nunits prevp p h w =
     (if hsize h p \<ge> nunits then (case carve nunits prevp p h of (r, h) \<Rightarrow> Some (r, h, w))
      else if p = freep h then
        (case morecore sbrk nunits h w of
           None \<Rightarrow> None
         | Some (p, h, w) \<Rightarrow> if p = 0 then Some (0, h, w) else malloc_loop sbrk nunits p (hptr h p) h w)
      else malloc_loop sbrk nunits p (hptr h p) h w)"

definition units :: "u32 \<Rightarrow> u32" where
  "units nbytes = ucast ((ucast nbytes + 15) div 16 + 1 :: u64)"

definition malloc :: "addr \<Rightarrow> (int \<Rightarrow> 'w \<Rightarrow> addr \<times> 'w) \<Rightarrow> u32 \<Rightarrow> uheap \<Rightarrow> 'w \<Rightarrow> (addr \<times> uheap \<times> 'w) option" where
  "malloc b0 sbrk nbytes h w =
     (let h = (if freep h = 0 then h\<lparr>hptr := (hptr h)(b0 := b0), freep := b0, hsize := (hsize h)(b0 := 0)\<rparr> else h)
      in malloc_loop sbrk (units nbytes) (freep h) (hptr h (freep h)) h w)"

text \<open>\<^verbatim>\<open>thread_create\<close> and \<^verbatim>\<open>thread_join\<close> of \<^verbatim>\<open>ulib.c\<close>, over the system calls \<^verbatim>\<open>clone\<close> (given the top of the stack) and \<^verbatim>\<open>join\<close>: the result and what \<^verbatim>\<open>*stack\<close> holds.\<close>

definition thread_create :: "addr \<Rightarrow> (int \<Rightarrow> 'w \<Rightarrow> addr \<times> 'w) \<Rightarrow> (addr \<Rightarrow> 'w \<Rightarrow> int \<times> 'w) \<Rightarrow> addr \<Rightarrow> uheap \<Rightarrow> 'w \<Rightarrow>
    (int \<times> addr \<times> uheap \<times> 'w) option" where
  "thread_create b0 sbrk clone stack h w =
     (case malloc b0 sbrk 4096 h w of
        None \<Rightarrow> None
      | Some (s, h, w) \<Rightarrow>
          if s = 0 then Some (-1, stack, h, w)
          else case clone (s + 4096) w of (pid, w) \<Rightarrow>
            if pid < 0 then map_option (\<lambda>h. (-1, 0, h, w)) (ufree s h)
            else Some (pid, s, h, w))"

definition thread_join :: "('w \<Rightarrow> int \<times> 'w) \<Rightarrow> addr option \<Rightarrow> uheap \<Rightarrow> 'w \<Rightarrow> (int \<times> addr option \<times> uheap \<times> 'w) option" where
  "thread_join join stack h w =
     (case join w of (pid, w) \<Rightarrow>
        if pid < 0 then Some (-1, stack, h, w)
        else case stack of
            Some s \<Rightarrow> if s \<noteq> 0 then map_option (\<lambda>h. (pid, Some 0, h, w)) (ufree s h) else Some (pid, stack, h, w)
          | None \<Rightarrow> Some (pid, stack, h, w))"

section \<open>The free list\<close>

definition fin :: "uheap \<Rightarrow> addr \<Rightarrow> nat" where
  "fin h x = unat x + 16 * unat (hsize h x)"

fun seg :: "uheap \<Rightarrow> addr \<Rightarrow> addr list \<Rightarrow> addr \<Rightarrow> bool" where
  "seg h x [] e \<longleftrightarrow> x = e"
| "seg h x (a # as) e \<longleftrightarrow> x = a \<and> seg h (hptr h a) as e"

text \<open>A circular list in the order of addresses from \<open>b0\<close> on; between any two blocks there is a gap.\<close>

definition flist :: "uheap \<Rightarrow> addr \<Rightarrow> addr list \<Rightarrow> bool" where
  "flist h b0 xs \<longleftrightarrow> xs \<noteq> [] \<and> seg h b0 xs b0 \<and> sorted_wrt (\<lambda>x y. fin h x < unat y) xs \<and> freep h \<in> set xs
     \<and> hsize h b0 = 0 \<and> (\<forall>x\<in>set xs. fin h x < 2 ^ 36) \<and> 0 < unat b0"

definition bytes :: "addr \<Rightarrow> u32 \<Rightarrow> nat set" where
  "bytes x n = {unat x ..< unat x + 16 * unat n}"

definition free_bytes :: "uheap \<Rightarrow> addr list \<Rightarrow> nat set" where
  "free_bytes h xs = (\<Union>x\<in>set xs. bytes x (hsize h x))"

lemma seg_append: "seg h x (as @ bs) e \<longleftrightarrow> (\<exists>y. seg h x as y \<and> seg h y bs e)"
  by (induction as arbitrary: x) auto

lemma seg_cong: "\<forall>a\<in>set as. hptr h' a = hptr h a \<Longrightarrow> seg h' x as e = seg h x as e"
  by (induction as arbitrary: x) auto

lemma unat_after:
  assumes "fin h p < 2 ^ 36"
  shows "unat (after h p) = fin h p"
proof -
  have "unat (ucast (hsize h p) :: u64) = unat (hsize h p)"
  proof -
    have "unat (hsize h p) < 2 ^ 32" using unsigned_less[of "hsize h p"] by simp
    then have "unat (hsize h p) < 2 ^ 64" by simp
    then show ?thesis by (simp add: unsigned_ucast_eq take_bit_nat_eq_self)
  qed
  then have "unat (16 * ucast (hsize h p) :: u64) = 16 * unat (hsize h p)"
    using assms unfolding fin_def by (simp add: unat_word_ariths)
  then show ?thesis using assms unfolding after_def fin_def by (simp add: unat_word_ariths)
qed

lemma after_eq: "fin h p < 2 ^ 36 \<Longrightarrow> after h p = q \<longleftrightarrow> fin h p = unat q"
  using unat_after[of h p] by (metis word_unat_eq_iff)

lemma flist_distinct: "sorted_wrt (\<lambda>x y. fin h x < unat y) xs \<Longrightarrow> distinct xs"
proof (induction xs)
  case (Cons x xs)
  have "unat x \<le> fin h x" by (simp add: fin_def)
  then show ?case using Cons by auto
qed simp

lemma flist_nth:
  assumes "flist h b0 xs" "i < length xs"
  shows "hptr h (xs ! i) = (if Suc i < length xs then xs ! Suc i else b0)"
proof -
  have "xs = take i xs @ xs ! i # drop (Suc i) xs" using assms(2) by (rule id_take_nth_drop)
  then have "seg h b0 (take i xs @ xs ! i # drop (Suc i) xs) b0" using assms(1) by (simp add: flist_def)
  then have s: "seg h (hptr h (xs ! i)) (drop (Suc i) xs) b0" by (auto simp: seg_append)
  show ?thesis
  proof (cases "Suc i < length xs")
    case True
    then have "drop (Suc i) xs = xs ! Suc i # drop (Suc (Suc i)) xs" by (rule Cons_nth_drop_Suc[symmetric])
    then show ?thesis using s True by simp
  qed (use s in simp)
qed

lemma flist_hd: "flist h b0 xs \<Longrightarrow> xs ! 0 = b0"
  unfolding flist_def by (cases xs) auto

lemma flist_less:
  assumes "flist h b0 xs" "i < j" "j < length xs"
  shows "fin h (xs ! i) < unat (xs ! j)"
  using assms unfolding flist_def by (auto simp: sorted_wrt_iff_nth_less)

section \<open>Freeing\<close>

text \<open>The search stops at the block before \<open>bp\<close>, wherever it starts.\<close>

lemma free_search_finds:
  assumes "flist h b0 xs" "k < length xs" "unat (xs ! k) < unat bp" "Suc k < length xs \<longrightarrow> unat bp < unat (xs ! Suc k)"
    "i < length xs"
  shows "free_search h bp (xs ! i) = Some (xs ! k)"
proof -
  let ?n = "length xs"
  have up: "unat (xs ! i) \<le> unat (xs ! j)" if "i \<le> j" "j < ?n" for i j
    using flist_less[OF assms(1), of i j] that by (cases "i = j") (auto simp: fin_def)
  have b0: "unat b0 < unat bp" using up[of 0 k] assms(2,3) flist_hd[OF assms(1)] by simp
  have step: "free_search h bp (xs ! i) = (if i = k then Some (xs ! k) else free_search h bp (xs ! (Suc i mod ?n)))"
    if i: "i < ?n" for i
  proof (cases "Suc i < ?n")
    case True
    have n: "hptr h (xs ! i) = xs ! Suc i" using flist_nth[OF assms(1) i] True by simp
    have lt: "unat (xs ! i) < unat (xs ! Suc i)" using flist_less[OF assms(1) _ True, of i] by (simp add: fin_def)
    have "unat (xs ! i) < unat bp \<and> unat bp < unat (xs ! Suc i) \<longleftrightarrow> i = k"
    proof
      assume r: "unat (xs ! i) < unat bp \<and> unat bp < unat (xs ! Suc i)"
      show "i = k"
      proof (rule ccontr)
        assume "i \<noteq> k"
        then consider "Suc i \<le> k" | "Suc k \<le> i" by linarith
        then show False
        proof cases
          case 1
          then show False using up[of "Suc i" k] r assms(2,3) by simp
        next
          case 2
          then show False using up[of "Suc k" i] r assms(4) i by simp
        qed
      qed
    qed (use assms(3,4) True in simp)
    then show ?thesis using lt n True by (subst free_search.simps) (auto simp: word_less_nat_alt word_le_nat_alt)
  next
    case False
    then have e: "Suc i = ?n" using i by simp
    have n: "hptr h (xs ! i) = b0" using flist_nth[OF assms(1) i] False by simp
    have "unat b0 \<le> unat (xs ! i)" using up[of 0 i] i flist_hd[OF assms(1)] by simp
    moreover have "unat (xs ! i) < unat bp \<longleftrightarrow> i = k"
    proof
      assume r: "unat (xs ! i) < unat bp"
      show "i = k"
      proof (rule ccontr)
        assume "i \<noteq> k"
        then have "Suc k \<le> i" "Suc k < ?n" using assms(2) e by simp_all
        then show False using up[of "Suc k" i] r assms(4) i by simp
      qed
    qed (use assms(3) in simp)
    ultimately show ?thesis using n e b0 flist_hd[OF assms(1)]
      by (subst free_search.simps) (auto simp: word_less_nat_alt word_le_nat_alt)
  qed
  have "free_search h bp (xs ! i) = Some (xs ! k)" if "i < ?n" "(i + d) mod ?n = k" for d i
    using that
  proof (induction d arbitrary: i)
    case 0
    then show ?case using step[of i] by simp
  next
    case (Suc d)
    have "(Suc i mod ?n + d) mod ?n = k" using Suc.prems(2) by (simp add: mod_simps)
    moreover have "Suc i mod ?n < ?n" by (rule mod_less_divisor) (use Suc.prems(1) in linarith)
    ultimately show ?case using step[OF Suc.prems(1)] Suc.IH by simp
  qed
  moreover have "(i + (k + ?n - i)) mod ?n = k" using assms(2,5) by simp
  ultimately show ?thesis using assms(5) by blast
qed

text \<open>\<open>bp\<close> goes between \<open>p\<close> and \<open>zs\<close>.\<close>

definition free_place :: "uheap \<Rightarrow> addr \<Rightarrow> addr \<Rightarrow> addr \<Rightarrow> addr list \<Rightarrow> addr list \<Rightarrow> bool" where
  "free_place h b0 bp p ys zs \<longleftrightarrow> flist h b0 (ys @ p # zs)
     \<and> unat b0 < unat bp \<and> fin h p \<le> unat bp \<and> unat p < unat bp
     \<and> (zs \<noteq> [] \<longrightarrow> fin h bp \<le> unat (hd zs)) \<and> 0 < hsize h bp \<and> fin h bp < 2 ^ 36"

text \<open>The block reaches up to the next one; the rest of the list, the size and the successor it then has.\<close>

definition joins :: "uheap \<Rightarrow> addr \<Rightarrow> addr list \<Rightarrow> bool" where
  "joins h bp zs \<longleftrightarrow> zs \<noteq> [] \<and> fin h bp = unat (hd zs)"

definition rest_after :: "uheap \<Rightarrow> addr \<Rightarrow> addr list \<Rightarrow> addr list" where
  "rest_after h bp zs = (if joins h bp zs then tl zs else zs)"

definition size_with :: "uheap \<Rightarrow> addr \<Rightarrow> addr list \<Rightarrow> u32" where
  "size_with h bp zs = (if joins h bp zs then hsize h bp + hsize h (hd zs) else hsize h bp)"

definition succ_with :: "uheap \<Rightarrow> addr \<Rightarrow> addr \<Rightarrow> addr list \<Rightarrow> addr" where
  "succ_with h bp p zs = (if joins h bp zs then hptr h (hd zs) else hptr h p)"

lemma start_le_fin: "unat x \<le> fin h x"
  by (simp add: fin_def)

lemma flist_split:
  assumes "flist h b0 (ys @ p # zs)"
  shows "seg h b0 ys p" "seg h (hptr h p) zs b0" "sorted_wrt (\<lambda>x y. fin h x < unat y) ys" "sorted_wrt (\<lambda>x y. fin h x < unat y) zs"
    "\<forall>y\<in>set ys. fin h y < unat p" "\<forall>z\<in>set zs. fin h p < unat z" "\<forall>y\<in>set ys. \<forall>z\<in>set zs. fin h y < unat z"
    "hsize h b0 = 0" "\<forall>x\<in>set (ys @ p # zs). fin h x < 2 ^ 36" "0 < unat b0"
    "hptr h p = (if zs = [] then b0 else hd zs)"
    "p \<notin> set ys" "p \<notin> set zs" "set ys \<inter> set zs = {}"
proof -
  show "seg h b0 ys p" "seg h (hptr h p) zs b0" "sorted_wrt (\<lambda>x y. fin h x < unat y) ys" "sorted_wrt (\<lambda>x y. fin h x < unat y) zs"
    "\<forall>y\<in>set ys. fin h y < unat p" "\<forall>z\<in>set zs. fin h p < unat z" "\<forall>y\<in>set ys. \<forall>z\<in>set zs. fin h y < unat z"
    "hsize h b0 = 0" "\<forall>x\<in>set (ys @ p # zs). fin h x < 2 ^ 36" "0 < unat b0"
    using assms by (auto simp: flist_def seg_append sorted_wrt_append)
  then show "hptr h p = (if zs = [] then b0 else hd zs)" by (cases zs) auto
  have "distinct (ys @ p # zs)" using flist_distinct assms unfolding flist_def by blast
  then show "p \<notin> set ys" "p \<notin> set zs" "set ys \<inter> set zs = {}" by auto
qed

lemma free_placeD:
  assumes "free_place h b0 bp p ys zs"
  shows "flist h b0 (ys @ p # zs)" "unat b0 < unat bp" "fin h p \<le> unat bp" "unat p < unat bp" "fin h bp < 2 ^ 36"
    "zs \<noteq> [] \<Longrightarrow> fin h bp \<le> unat (hd zs)" "unat bp < fin h bp"
  using assms by (auto simp: free_place_def fin_def word_less_nat_alt)

lemma above_hd:
  assumes "sorted_wrt (\<lambda>x y. fin h x < unat y) zs" "z \<in> set zs"
  shows "unat (hd zs) \<le> unat z"
proof (cases zs)
  case (Cons a as)
  then consider "z = a" | "fin h a < unat z" using assms by auto
  then show ?thesis using Cons start_le_fin[of a h] by cases auto
qed (use assms in simp)

lemma free_place_notin:
  assumes "free_place h b0 bp p ys zs"
  shows "bp \<noteq> p" "bp \<notin> set ys" "bp \<notin> set zs"
proof -
  note D = free_placeD[OF assms] and F = flist_split[OF free_placeD(1)[OF assms]]
  show "bp \<noteq> p" using D(4) by auto
  show "bp \<notin> set ys" using F(5) start_le_fin[of bp h] D(4) by fastforce
  show "bp \<notin> set zs"
  proof
    assume b: "bp \<in> set zs"
    then have "zs \<noteq> []" by auto
    then have "fin h bp \<le> unat (hd zs)" by (rule D(6))
    then show False using above_hd[OF F(4) b] D(7) by simp
  qed
qed

lemma free_link_eq:
  assumes "free_place h b0 bp p ys zs"
  defines "n \<equiv> size_with h bp zs" and "nx \<equiv> succ_with h bp p zs"
  shows "free_link bp p h =
     (if fin h p = unat bp
      then h\<lparr>hsize := (hsize h)(bp := n, p := hsize h p + n), hptr := (hptr h)(bp := nx, p := nx), freep := p\<rparr>
      else h\<lparr>hsize := (hsize h)(bp := n), hptr := (hptr h)(bp := nx, p := bp), freep := p\<rparr>)"
proof -
  note D = free_placeD[OF assms(1)] and F = flist_split[OF free_placeD(1)[OF assms(1)]] and N = free_place_notin[OF assms(1)]
  define h1 where "h1 = h\<lparr>hsize := (hsize h)(bp := n), hptr := (hptr h)(bp := nx)\<rparr>"
  have "after h bp = hptr h p \<longleftrightarrow> joins h bp zs"
    unfolding after_eq[OF D(5)] F(11) joins_def using D(2,7) by auto
  then have "(if after h bp = hptr h p
      then h\<lparr>hsize := (hsize h)(bp := hsize h bp + hsize h (hptr h p)), hptr := (hptr h)(bp := hptr h (hptr h p))\<rparr>
      else h\<lparr>hptr := (hptr h)(bp := hptr h p)\<rparr>) = h1"
    using F(11) by (auto simp: h1_def n_def nx_def size_with_def succ_with_def joins_def)
  moreover have "after h1 p = bp \<longleftrightarrow> fin h p = unat bp"
  proof -
    have "after h1 p = after h p" using N(1) by (simp add: after_def h1_def)
    then show ?thesis using after_eq[of h p] F(9) by simp
  qed
  ultimately show ?thesis using N(1) by (simp add: free_link_def Let_def h1_def)
qed

lemma rest_after_facts:
  assumes "free_place h b0 bp p ys zs"
  defines "n \<equiv> size_with h bp zs" and "ws \<equiv> rest_after h bp zs"
  shows "seg h (succ_with h bp p zs) ws b0 \<and> sorted_wrt (\<lambda>x y. fin h x < unat y) ws \<and> set ws \<subseteq> set zs
    \<and> hsize h bp \<le> n \<and> unat bp + 16 * unat n < 2 ^ 36 \<and> (\<forall>z\<in>set ws. unat bp + 16 * unat n < unat z)
    \<and> bytes bp n \<union> free_bytes h ws = bytes bp (hsize h bp) \<union> free_bytes h zs"
proof (cases "joins h bp zs")
  case True
  note D = free_placeD[OF assms(1)] and F = flist_split[OF free_placeD(1)[OF assms(1)]]
  obtain a as where zs: "zs = a # as" using True by (cases zs) (auto simp: joins_def)
  have eq: "unat bp + 16 * unat (hsize h bp) = unat a" using True zs by (simp add: joins_def fin_def)
  have lim: "unat a + 16 * unat (hsize h a) < 2 ^ 36" using F(9) zs by (simp add: fin_def)
  have un: "unat n = unat (hsize h bp) + unat (hsize h a)"
    using eq lim True zs unfolding n_def size_with_def by (simp add: unat_word_ariths)
  then have f: "unat bp + 16 * unat n = fin h a" using eq by (simp add: fin_def)
  have "bytes bp n = bytes bp (hsize h bp) \<union> bytes a (hsize h a)"
    using eq f unfolding bytes_def fin_def by auto
  then show ?thesis using f lim un F(2,4) True zs
    by (auto simp: word_le_nat_alt ws_def rest_after_def succ_with_def free_bytes_def fin_def)
next
  case False
  note D = free_placeD[OF assms(1)] and F = flist_split[OF free_placeD(1)[OF assms(1)]]
  have "fin h bp < unat z" if "z \<in> set zs" for z
  proof -
    have "zs \<noteq> []" using that by auto
    then show ?thesis using above_hd[OF F(4) that] D(6) False by (fastforce simp: joins_def)
  qed
  then show ?thesis using False D(5) F(2,4) by (simp add: ws_def rest_after_def succ_with_def n_def size_with_def fin_def)
qed

lemma free_bytes_append: "free_bytes h (as @ bs) = free_bytes h as \<union> free_bytes h bs"
  by (auto simp: free_bytes_def)

lemma free_bytes_Cons: "free_bytes h (a # as) = bytes a (hsize h a) \<union> free_bytes h as"
  by (auto simp: free_bytes_def)

lemma free_bytes_cong: "\<forall>x\<in>set xs. hsize h' x = hsize h x \<Longrightarrow> free_bytes h' xs = free_bytes h xs"
  by (auto simp: free_bytes_def)

lemma free_link_flist:
  assumes "free_place h b0 bp p ys zs"
  defines "h' \<equiv> free_link bp p h"
  shows "\<exists>xs'. flist h' b0 xs' \<and> (\<exists>x\<in>set xs'. hsize h bp \<le> hsize h' x) \<and> set xs' \<subseteq> insert bp (set (ys @ p # zs))
    \<and> free_bytes h' xs' = free_bytes h (ys @ p # zs) \<union> bytes bp (hsize h bp)
    \<and> (\<forall>x. x \<noteq> bp \<and> x \<notin> set (ys @ p # zs) \<longrightarrow> hsize h' x = hsize h x)"
proof -
  note D = free_placeD[OF assms(1)] and F = flist_split[OF free_placeD(1)[OF assms(1)]] and N = free_place_notin[OF assms(1)]
    and L = free_link_eq[OF assms(1), folded h'_def]
  define n ws where "n = size_with h bp zs" and "ws = rest_after h bp zs"
  have R: "seg h (succ_with h bp p zs) ws b0" "sorted_wrt (\<lambda>x y. fin h x < unat y) ws" "set ws \<subseteq> set zs"
    "unat bp + 16 * unat n < 2 ^ 36" "\<forall>z\<in>set ws. unat bp + 16 * unat n < unat z"
    "bytes bp n \<union> free_bytes h ws = bytes bp (hsize h bp) \<union> free_bytes h zs"
    using rest_after_facts[OF assms(1)] unfolding n_def ws_def by blast+
  have big: "hsize h bp \<le> n" using rest_after_facts[OF assms(1)] unfolding n_def by blast
  have out: "\<forall>x\<in>set ys \<union> set ws. hptr h' x = hptr h x \<and> hsize h' x = hsize h x"
    using L N F(12,13) R(3) by auto
  have segs: "seg h' b0 ys p" "seg h' (succ_with h bp p zs) ws b0"
    using F(1) R(1) out seg_cong[where as = ys and h = h and h' = h'] seg_cong[where as = ws and h = h and h' = h'] by simp_all
  have fins: "\<forall>x\<in>set ys \<union> set ws. fin h' x = fin h x" using out by (simp add: fin_def)
  have lim: "\<forall>x\<in>set ys \<union> set ws. fin h x < 2 ^ 36" using F(9) R(3) by auto
  have sorts: "sorted_wrt (\<lambda>x y. fin h' x < unat y) ys" "sorted_wrt (\<lambda>x y. fin h' x < unat y) ws"
    using F(3) R(2) fins by (auto elim!: sorted_wrt_mono_rel[rotated])
  have ysbp: "\<forall>y\<in>set ys. fin h y < unat bp" using F(5) D(4) by auto
  have b0p: "hsize h' b0 = 0" if "p = b0 \<Longrightarrow> fin h p \<noteq> unat bp"
    using F(8) L that D(2) by auto
  have pb: "p = b0 \<Longrightarrow> fin h p \<noteq> unat bp" using F(8) D(2) by (auto simp: fin_def)
  have out2: "\<forall>x. x \<noteq> bp \<and> x \<notin> set (ys @ p # zs) \<longrightarrow> hsize h' x = hsize h x" using L by auto
  have fb: "free_bytes h' ys = free_bytes h ys" "free_bytes h' ws = free_bytes h ws" using out by (simp_all add: free_bytes_cong)
  show ?thesis
  proof (cases "fin h p = unat bp")
    case True
    have h': "hptr h' p = succ_with h bp p zs" "hsize h' p = hsize h p + n" "freep h' = p"
      using L True N(1) by (simp_all add: n_def)
    have un: "unat (hsize h p + n) = unat (hsize h p) + unat n"
      using True R(4) unfolding fin_def by (simp add: unat_word_ariths)
    then have f: "fin h' p = unat bp + 16 * unat n" using True h' by (simp add: fin_def)
    have "bytes p (hsize h p + n) = bytes p (hsize h p) \<union> bytes bp n"
      using un True unfolding bytes_def fin_def by auto
    then have "free_bytes h' (ys @ p # ws) = free_bytes h (ys @ p # zs) \<union> bytes bp (hsize h bp)"
      using fb R(6) h'(2) by (auto simp: free_bytes_append free_bytes_Cons)
    moreover have "flist h' b0 (ys @ p # ws)"
      using segs sorts h' f F(5,7,10) R(3,4,5) fins lim b0p[OF pb]
      by (auto simp: flist_def seg_append sorted_wrt_append)
    ultimately show ?thesis using out2 big un h'(2) R(3) by (intro exI[of _ "ys @ p # ws"]) (auto simp: word_le_nat_alt)
  next
    case False
    have h': "hptr h' p = bp" "hptr h' bp = succ_with h bp p zs" "hsize h' p = hsize h p" "hsize h' bp = n" "freep h' = p"
      using L False N(1) by (simp_all add: n_def)
    have f: "fin h' bp = unat bp + 16 * unat n" "fin h' p = fin h p" using h' by (simp_all add: fin_def)
    have "free_bytes h' (ys @ p # bp # ws) = free_bytes h (ys @ p # zs) \<union> bytes bp (hsize h bp)"
      using fb R(6) h'(3,4) by (auto simp: free_bytes_append free_bytes_Cons)
    moreover have "flist h' b0 (ys @ p # bp # ws)"
      using segs sorts h' f F(5,6,7,9,10) R(3,4,5) fins lim b0p[OF pb] ysbp D(3) False
      by (auto simp: flist_def seg_append sorted_wrt_append)
    ultimately show ?thesis using out2 big h'(4) R(3) by (intro exI[of _ "ys @ p # bp # ws"]) auto
  qed
qed

text \<open>A block lies apart from the blocks of the list.\<close>

definition clear_of :: "uheap \<Rightarrow> addr list \<Rightarrow> addr \<Rightarrow> bool" where
  "clear_of h xs bp \<longleftrightarrow> 0 < hsize h bp \<and> fin h bp < 2 ^ 36 \<and> (\<forall>x\<in>set xs. unat x < unat bp \<and> fin h x \<le> unat bp \<or> fin h bp \<le> unat x)"

lemma clear_of_place:
  assumes "flist h b0 xs" "clear_of h xs bp" "unat b0 < unat bp"
  shows "\<exists>ys p zs. xs = ys @ p # zs \<and> free_place h b0 bp p ys zs \<and> free_search h bp (freep h) = Some p"
proof -
  define k where "k = (GREATEST i. i < length xs \<and> unat (xs ! i) < unat bp)"
  have ne: "0 < length xs \<and> unat (xs ! 0) < unat bp" using assms(1,3) flist_hd by (auto simp: flist_def)
  have k: "k < length xs \<and> unat (xs ! k) < unat bp"
    unfolding k_def by (rule GreatestI_nat[of _ 0 "length xs"]) (use ne in auto)
  have above: "unat bp < unat (xs ! Suc k) \<and> fin h bp \<le> unat (xs ! Suc k)" if s: "Suc k < length xs"
  proof -
    have "\<not> unat (xs ! Suc k) < unat bp"
    proof
      assume "unat (xs ! Suc k) < unat bp"
      then have "Suc k \<le> k" unfolding k_def
        using Greatest_le_nat[of "\<lambda>i. i < length xs \<and> unat (xs ! i) < unat bp" "Suc k" "length xs"] s by (auto simp: k_def)
      then show False by simp
    qed
    moreover have "xs ! Suc k \<in> set xs" using s by simp
    ultimately have "fin h bp \<le> unat (xs ! Suc k)" using assms(2) unfolding clear_of_def by blast
    moreover have "unat bp < fin h bp" using assms(2) by (auto simp: clear_of_def fin_def word_less_nat_alt)
    ultimately show ?thesis by simp
  qed
  obtain i where i: "i < length xs" "freep h = xs ! i" using assms(1) by (auto simp: flist_def in_set_conv_nth)
  have "free_search h bp (freep h) = Some (xs ! k)"
    unfolding i(2) by (rule free_search_finds[OF assms(1)]) (use k above i in auto)
  moreover have sp: "xs = take k xs @ xs ! k # drop (Suc k) xs" using k by (simp add: id_take_nth_drop)
  moreover have "fin h (xs ! k) \<le> unat bp"
  proof -
    have "xs ! k \<in> set xs" using k by simp
    then have "fin h (xs ! k) \<le> unat bp \<or> fin h bp \<le> unat (xs ! k)" using assms(2) unfolding clear_of_def by blast
    then show ?thesis using k start_le_fin[of bp h] by linarith
  qed
  moreover have "hd (drop (Suc k) xs) = xs ! Suc k" if "drop (Suc k) xs \<noteq> []" using that by (simp add: hd_drop_conv_nth)
  ultimately have "free_place h b0 bp (xs ! k) (take k xs) (drop (Suc k) xs)"
    using assms k above unfolding free_place_def clear_of_def by auto
  then show ?thesis using sp \<open>free_search h bp (freep h) = Some (xs ! k)\<close> by blast
qed

lemma ufree_block:
  assumes "flist h b0 xs" "clear_of h xs bp" "unat b0 < unat bp"
  shows "\<exists>h' xs'. ufree (bp + 16) h = Some h' \<and> flist h' b0 xs' \<and> (\<exists>x\<in>set xs'. hsize h bp \<le> hsize h' x)
    \<and> set xs' \<subseteq> insert bp (set xs)
    \<and> free_bytes h' xs' = free_bytes h xs \<union> bytes bp (hsize h bp)
    \<and> (\<forall>x. x \<noteq> bp \<and> x \<notin> set xs \<longrightarrow> hsize h' x = hsize h x)"
proof -
  obtain ys p zs where "xs = ys @ p # zs" "free_place h b0 bp p ys zs" "free_search h bp (freep h) = Some p"
    using clear_of_place[OF assms] by blast
  then show ?thesis using free_link_flist[of h b0 bp p ys zs] by (auto simp: ufree_def)
qed

section \<open>Allocating\<close>

lemma mod_shift: "(a::nat) < n \<Longrightarrow> d < n \<Longrightarrow> 0 < d \<Longrightarrow> (a + d) mod n \<noteq> a"
  by (cases "a + d < n") (auto simp: le_mod_geq)

text \<open>The search for a block goes once around the list, from the one after \<open>freep\<close> to \<open>freep\<close>.\<close>

lemma malloc_walk:
  assumes "flist h b0 xs" "f < length xs" "freep h = xs ! f"
  defines "n \<equiv> length xs"
  shows "i < n \<Longrightarrow> d < n \<Longrightarrow> (Suc i + d) mod n = f \<Longrightarrow>
    (\<exists>j<n. nu \<le> hsize h (xs ! (Suc j mod n)) \<and>
       malloc_loop sbrk nu (xs ! i) (xs ! (Suc i mod n)) h w =
         (case carve nu (xs ! j) (xs ! (Suc j mod n)) h of (r, h) \<Rightarrow> Some (r, h, w)))
    \<or> (\<forall>e\<le>d. hsize h (xs ! ((Suc i + e) mod n)) < nu) \<and>
       malloc_loop sbrk nu (xs ! i) (xs ! (Suc i mod n)) h w =
         (case morecore sbrk nu h w of
            None \<Rightarrow> None
          | Some (p, h, w) \<Rightarrow> if p = 0 then Some (0, h, w) else malloc_loop sbrk nu p (hptr h p) h w)"
proof (induction d arbitrary: i)
  case 0
  then have f: "Suc i mod n = f" by simp
  show ?case
  proof (cases "nu \<le> hsize h (xs ! (Suc i mod n))")
    case True
    then show ?thesis using 0(1) by (intro disjI1 exI[of _ i]) (simp add: malloc_loop.simps)
  next
    case False
    then show ?thesis using f assms(3) by (intro disjI2, subst malloc_loop.simps) (simp flip: not_less)
  qed
next
  case (Suc d)
  have n: "0 < n" using Suc.prems by simp
  show ?case
  proof (cases "nu \<le> hsize h (xs ! (Suc i mod n))")
    case True
    then show ?thesis using Suc.prems(1) by (intro disjI1 exI[of _ i]) (simp add: malloc_loop.simps)
  next
    case False
    let ?i = "Suc i mod n"
    have i: "?i < n" using n by simp
    have nf: "xs ! ?i \<noteq> freep h"
    proof
      assume "xs ! ?i = freep h"
      moreover have "distinct xs" using assms(1) flist_distinct by (auto simp: flist_def)
      ultimately have "?i = f" using i assms(2,3) by (auto simp: n_def nth_eq_iff_index_eq)
      moreover have "(?i + Suc d) mod n = (Suc i + Suc d) mod n" by (rule mod_add_left_eq)
      ultimately have "(?i + Suc d) mod n = ?i" using Suc.prems(3) by (simp only:)
      then show False using mod_shift[OF i Suc.prems(2)] by simp
    qed
    have nx: "hptr h (xs ! ?i) = xs ! (Suc ?i mod n)"
    proof (cases "Suc ?i < n")
      case False
      then have "Suc ?i = n" using i by simp
      then show ?thesis using flist_nth[OF assms(1), of ?i] flist_hd[OF assms(1)] i by (simp add: n_def)
    qed (use flist_nth[OF assms(1), of ?i] i in \<open>simp add: n_def\<close>)
    have st: "malloc_loop sbrk nu (xs ! i) (xs ! ?i) h w = malloc_loop sbrk nu (xs ! ?i) (xs ! (Suc ?i mod n)) h w"
      using False nf nx by (subst malloc_loop.simps) simp
    have m: "(Suc ?i + e) mod n = (Suc i + Suc e) mod n" for e using mod_add_left_eq[of "Suc i" n "Suc e"] by simp
    have "(Suc ?i + d) mod n = f" using Suc.prems(3) m[of d] by simp
    note IH = Suc.IH[OF i _ this]
    have "\<forall>e\<le>Suc d. hsize h (xs ! ((Suc i + e) mod n)) < nu" if a: "\<forall>e\<le>d. hsize h (xs ! ((Suc ?i + e) mod n)) < nu"
    proof (intro allI impI)
      fix e assume "e \<le> Suc d"
      then show "hsize h (xs ! ((Suc i + e) mod n)) < nu" using a False m[of "e - 1"] by (cases e) (auto simp: not_le)
    qed
    then show ?thesis using IH Suc.prems(2) unfolding st by fastforce
  qed
qed

text \<open>Taking from a block: what is taken and what stays free are the free bytes there were.\<close>

lemma carve_whole:
  assumes "flist h b0 (ys @ q # p # zs)" "0 < hsize h p"
  shows "\<exists>h'. carve (hsize h p) q p h = (p + 16, h') \<and> flist h' b0 (ys @ q # zs)
    \<and> hsize h' = hsize h \<and> bytes p (hsize h p) \<inter> free_bytes h (ys @ q # zs) = {}"
proof -
  note F = flist_split[of h b0 "ys @ [q]" p zs, simplified, OF assms(1)]
  let ?h = "h\<lparr>hptr := (hptr h)(q := hptr h p), freep := q\<rparr>"
  have fin: "fin ?h x = fin h x" for x by (simp add: fin_def)
  have "q \<notin> set ys" using flist_split(12)[OF assms(1)] .
  moreover have "q \<notin> set zs" using flist_split(13)[OF assms(1)] by simp
  moreover have "hptr h q = p" using flist_split(11)[OF assms(1)] by simp
  ultimately have "seg ?h b0 (ys @ q # zs) b0"
    using flist_split(1,2)[OF assms(1)] seg_cong[where as = ys and h = h and h' = ?h] seg_cong[where as = zs and h = h and h' = ?h]
    by (auto simp: seg_append)
  moreover have "q \<noteq> p" using F(12) by auto
  ultimately have "flist ?h b0 (ys @ q # zs)"
    using assms(1) by (auto simp: flist_def sorted_wrt_append fin)
  moreover have "bytes p (hsize h p) \<inter> bytes x (hsize h x) = {}" if "x \<in> set (ys @ q # zs)" for x
  proof -
    have "fin h x < unat p \<or> fin h p < unat x" using that F(5,6) by auto
    then show ?thesis by (auto simp: bytes_def fin_def)
  qed
  ultimately show ?thesis by (auto simp: carve_def free_bytes_def)
qed

lemma carve_end:
  assumes "flist h b0 (ys @ q # p # zs)" "nu < hsize h p" "0 < nu"
  shows "\<exists>r h'. carve nu q p h = (r + 16, h') \<and> flist h' b0 (ys @ q # p # zs) \<and> hsize h' r = nu
    \<and> unat r + 16 * unat nu = fin h p \<and> unat p < unat r
    \<and> (\<forall>x. x \<noteq> r \<and> x \<noteq> p \<longrightarrow> hsize h' x = hsize h x) \<and> unat p + 16 * unat (hsize h' p) = unat r"
proof -
  note F = flist_split[of h b0 "ys @ [q]" p zs, simplified, OF assms(1)]
  let ?h1 = "h\<lparr>hsize := (hsize h)(p := hsize h p - nu)\<rparr>"
  define r where "r = after ?h1 p"
  let ?h = "?h1\<lparr>hsize := (hsize ?h1)(r := nu), freep := q\<rparr>"
  have sub: "unat (hsize h p - nu) = unat (hsize h p) - unat nu" using assms(2) by (simp add: unat_sub word_less_nat_alt word_le_nat_alt)
  have lt: "unat nu < unat (hsize h p)" "0 < unat nu" using assms(2,3) by (simp_all add: word_less_nat_alt)
  have f1: "fin ?h1 p = unat p + 16 * (unat (hsize h p) - unat nu)" using sub by (simp add: fin_def)
  then have r: "unat r = unat p + 16 * (unat (hsize h p) - unat nu)" unfolding r_def using F(9) by (subst unat_after) (auto simp: fin_def)
  have out: "r \<noteq> x" if "x \<in> set (ys @ q # p # zs)" for x
  proof -
    have "fin h x < unat p \<or> fin h p < unat x \<or> x = p" using that F(5,6) by auto
    then show ?thesis using r lt start_le_fin[of x h] by (auto simp: fin_def)
  qed
  have fin: "fin ?h x \<le> fin h x" if "x \<in> set (ys @ q # p # zs)" for x using out[OF that] sub by (auto simp: fin_def)
  have "flist ?h b0 (ys @ q # p # zs)"
  proof -
    have "hptr ?h = hptr h" by simp
    then have "seg ?h b0 (ys @ q # p # zs) b0" using assms(1) seg_cong[of "ys @ q # p # zs" ?h h] by (simp add: flist_def)
    moreover have "sorted_wrt (\<lambda>x y. fin ?h x < unat y) (ys @ q # p # zs)"
    proof (rule sorted_wrt_mono_rel[of _ "\<lambda>x y. fin h x < unat y"])
      fix x y assume "x \<in> set (ys @ q # p # zs)" "fin h x < unat y"
      then show "fin ?h x < unat y" using fin by (blast intro: le_less_trans)
    next
      show "sorted_wrt (\<lambda>x y. fin h x < unat y) (ys @ q # p # zs)" using assms(1) unfolding flist_def by blast
    qed
    moreover have "hsize ?h b0 = 0"
    proof -
      have "b0 \<in> set (ys @ q # p # zs)" using assms(1) flist_hd[OF assms(1)] by (auto simp: nth_append split: if_splits)
      then show ?thesis using out F(8) lt by auto
    qed
    moreover have "\<forall>x\<in>set (ys @ q # p # zs). fin ?h x < 2 ^ 36" using fin assms(1) unfolding flist_def by (blast intro: le_less_trans)
    ultimately show ?thesis using assms(1) by (simp add: flist_def)
  qed
  moreover have "carve nu q p h = (r + 16, ?h)" using assms(2) by (auto simp: carve_def Let_def r_def)
  moreover have "unat p + 16 * unat (hsize ?h p) = unat r" using r sub out[of p] by simp
  moreover have "unat r + 16 * unat nu = fin h p" "unat p < unat r" using r lt by (simp_all add: fin_def)
  ultimately show ?thesis by (intro exI[of _ r] exI[of _ ?h]) auto
qed

text \<open>
  The block with header \<open>r\<close> has \<open>nu\<close> units, and it and the free blocks are exactly the bytes \<open>G\<close>; only headers in \<open>G\<close> or
  on the list \<open>xs\<close> have changed.
\<close>

definition taken :: "addr \<Rightarrow> u32 \<Rightarrow> addr list \<Rightarrow> nat set \<Rightarrow> uheap \<Rightarrow> addr \<Rightarrow> uheap \<Rightarrow> bool" where
  "taken b0 nu xs G h r h' \<longleftrightarrow> (\<exists>xs'. flist h' b0 xs' \<and> clear_of h' xs' r \<and> unat b0 < unat r \<and> hsize h' r = nu
     \<and> bytes r nu \<inter> free_bytes h' xs' = {} \<and> bytes r nu \<union> free_bytes h' xs' = G
     \<and> (\<forall>x. unat x \<notin> G \<and> x \<notin> set xs \<longrightarrow> hsize h' x = hsize h x))"

lemma carve_split:
  assumes "flist h b0 (ys @ q # p # zs)" "nu \<le> hsize h p" "0 < nu"
  shows "\<exists>r h'. carve nu q p h = (r + 16, h') \<and> taken b0 nu (ys @ q # p # zs) (free_bytes h (ys @ q # p # zs)) h r h'"
proof (cases "hsize h p = nu")
  case True
  note F = flist_split[of h b0 "ys @ [q]" p zs, simplified, OF assms(1)]
  obtain h' where h': "carve nu q p h = (p + 16, h')" "flist h' b0 (ys @ q # zs)" "hsize h' = hsize h"
    "bytes p nu \<inter> free_bytes h (ys @ q # zs) = {}"
    using carve_whole[OF assms(1)] assms(3) True by auto
  have fin: "fin h' x = fin h x" for x using h'(3) by (simp add: fin_def)
  have fb: "free_bytes h' (ys @ q # zs) = free_bytes h (ys @ q # zs)" using h'(3) by (simp add: free_bytes_cong)
  have "clear_of h' (ys @ q # zs) p"
  proof -
    have "unat x < unat p \<and> fin h x \<le> unat p \<or> fin h p \<le> unat x" if "x \<in> set (ys @ q # zs)" for x
      using that F(5,6) start_le_fin[of x h] by fastforce
    then show ?thesis using F(9) h'(3) True assms(3) unfolding clear_of_def fin by auto
  qed
  moreover have "unat b0 < unat p"
  proof -
    have "b0 \<in> set (ys @ [q])" using flist_hd[OF assms(1)] by (cases ys) auto
    then show ?thesis using F(5) start_le_fin[of b0 h] by fastforce
  qed
  moreover have "bytes p nu \<union> free_bytes h (ys @ q # zs) = free_bytes h (ys @ q # p # zs)"
    using True by (auto simp: free_bytes_append free_bytes_Cons)
  ultimately show ?thesis using h' True fb by (intro exI[of _ p] exI[of _ h']) (auto simp: taken_def intro!: exI[of _ "ys @ q # zs"])
next
  case False
  note F = flist_split[of h b0 "ys @ [q]" p zs, simplified, OF assms(1)]
  have "nu < hsize h p" using False assms(2) by simp
  then obtain r h' where h': "carve nu q p h = (r + 16, h')" "flist h' b0 (ys @ q # p # zs)" "hsize h' r = nu"
    "unat r + 16 * unat nu = fin h p" "unat p < unat r" "\<forall>x. x \<noteq> r \<and> x \<noteq> p \<longrightarrow> hsize h' x = hsize h x"
    "unat p + 16 * unat (hsize h' p) = unat r"
    using carve_end[OF assms(1) _ assms(3)] by blast
  have nu: "0 < unat nu" using assms(3) by (simp add: word_less_nat_alt)
  have pos: "fin h x < unat p \<or> fin h p < unat x" if "x \<in> set (ys @ q # zs)" for x using that F(5,6) by auto
  then have ne: "x \<noteq> r \<and> x \<noteq> p" if "x \<in> set (ys @ q # zs)" for x
    using that h'(4,5) nu start_le_fin[of x h] by fastforce
  then have same: "hsize h' x = hsize h x" if "x \<in> set (ys @ q # zs)" for x using that h'(6) by blast
  have "clear_of h' (ys @ q # p # zs) r"
  proof -
    have "unat x < unat r \<and> fin h' x \<le> unat r \<or> fin h' r \<le> unat x" if x: "x \<in> set (ys @ q # zs)" for x
      using pos[OF x] same[OF x] h'(3,4,5) start_le_fin[of x h] by (auto simp: fin_def)
    then show ?thesis using F(9) h'(3,4,5,7) assms(3) unfolding clear_of_def by (auto simp: fin_def)
  qed
  moreover have "unat b0 < unat r"
  proof -
    have "b0 \<in> set (ys @ [q])" using flist_hd[OF assms(1)] by (cases ys) auto
    then show ?thesis using F(5) h'(5) start_le_fin[of b0 h] by fastforce
  qed
  moreover have fb: "free_bytes h' (ys @ q # zs) = free_bytes h (ys @ q # zs)" using same by (intro free_bytes_cong) blast
  moreover have "bytes p (hsize h p) = bytes p (hsize h' p) \<union> bytes r nu" "bytes p (hsize h' p) \<inter> bytes r nu = {}"
    using h'(4,5,7) by (auto simp: bytes_def fin_def)
  moreover have "bytes r nu \<inter> free_bytes h (ys @ q # zs) = {}"
  proof -
    have "bytes r nu \<inter> bytes x (hsize h x) = {}" if x: "x \<in> set (ys @ q # zs)" for x
      using pos[OF x] h'(4,5) by (auto simp: bytes_def fin_def)
    then show ?thesis unfolding free_bytes_def by blast
  qed
  moreover have "free_bytes g (ys @ q # p # zs) = bytes p (hsize g p) \<union> free_bytes g (ys @ q # zs)" for g
    by (auto simp: free_bytes_append free_bytes_Cons)
  moreover have "hsize h' x = hsize h x" if "unat x \<notin> bytes r nu" "x \<noteq> p" for x
  proof -
    have "unat r \<in> bytes r nu" using nu by (simp add: bytes_def)
    then show ?thesis using that h'(6) by metis
  qed
  ultimately have "taken b0 nu (ys @ q # p # zs) (free_bytes h (ys @ q # p # zs)) h r h'"
    unfolding taken_def using h'(2,3) by (intro exI[of _ "ys @ q # p # zs"]) auto
  then show ?thesis using h'(1) by blast
qed

lemma carve_taken:
  assumes "flist h b0 xs" "j < length xs" "nu \<le> hsize h (xs ! (Suc j mod length xs))" "0 < nu"
  shows "\<exists>r h'. carve nu (xs ! j) (xs ! (Suc j mod length xs)) h = (r + 16, h') \<and> taken b0 nu xs (free_bytes h xs) h r h'"
proof -
  have "hsize h (xs ! 0) = 0" using assms(1) flist_hd[OF assms(1)] by (simp add: flist_def)
  then have "Suc j mod length xs \<noteq> 0" using assms(3,4) by (metis leD)
  then have j: "Suc j < length xs" using assms(2) by (metis Suc_lessI mod_self)
  have "xs = take j xs @ xs ! j # xs ! Suc j # drop (Suc (Suc j)) xs"
    using assms(2) j by (metis Cons_nth_drop_Suc id_take_nth_drop)
  then show ?thesis using carve_split[of h b0 "take j xs" "xs ! j" "xs ! Suc j" "drop (Suc (Suc j)) xs" nu] assms j by simp
qed

text \<open>What \<^verbatim>\<open>sbrk\<close> promises: it fails, or the new memory lies above all that the program has.\<close>

definition sbrk_at :: "(int \<Rightarrow> 'w \<Rightarrow> addr \<times> 'w) \<Rightarrow> u32 \<Rightarrow> 'w \<Rightarrow> addr" where
  "sbrk_at sbrk nu w = fst (sbrk (16 * int (unat nu)) w)"

definition sbrk_fresh :: "(int \<Rightarrow> 'w \<Rightarrow> addr \<times> 'w) \<Rightarrow> addr \<Rightarrow> addr list \<Rightarrow> uheap \<Rightarrow> u32 \<Rightarrow> 'w \<Rightarrow> bool" where
  "sbrk_fresh sbrk b0 xs h nu w \<longleftrightarrow> sbrk_at sbrk nu w = - 1 \<or>
     unat b0 < unat (sbrk_at sbrk nu w) \<and> unat (sbrk_at sbrk nu w) + 16 * unat nu < 2 ^ 36
     \<and> (\<forall>x\<in>set xs. unat x < unat (sbrk_at sbrk nu w) \<and> fin h x \<le> unat (sbrk_at sbrk nu w))"

lemma sbrk_arg:
  assumes "unat (nu :: u32) < 2 ^ 27"
  shows "sint (ucast (ucast nu * 16 :: u64) :: u32) = 16 * int (unat nu)"
proof -
  have "unat (ucast nu :: u64) = unat nu"
    using assms by (simp add: unsigned_ucast_eq take_bit_nat_eq_self)
  then have "unat (ucast nu * 16 :: u64) = 16 * unat nu" using assms by (simp add: unat_word_ariths)
  then have "(ucast (ucast nu * 16 :: u64) :: u32) = of_nat (16 * unat nu)" by (metis of_nat_unat)
  then have "(ucast (ucast nu * 16 :: u64) :: u32) = of_int (16 * int (unat nu))" by (simp only: of_int_of_nat_eq of_nat_mult) simp
  moreover have "sint (of_int (16 * int k) :: u32) = 16 * int k" if "k < 2 ^ 27" for k
    using that by (simp only: signed_of_int) (simp add: signed_take_bit_int_eq_self)
  ultimately show ?thesis using assms by (simp only:)
qed

lemma flist_pos:
  assumes "flist h b0 xs" "x \<in> set xs"
  shows "x \<noteq> 0"
proof -
  obtain i where i: "i < length xs" "x = xs ! i" using assms(2) by (auto simp: in_set_conv_nth)
  then have "unat b0 \<le> unat x"
    using flist_less[OF assms(1), of 0 i] flist_hd[OF assms(1)] start_le_fin[of b0 h] by (cases i) auto
  then show ?thesis using assms(1) by (auto simp: flist_def)
qed

lemma morecore_grows:
  assumes "flist h b0 xs" "unat nu < 2 ^ 27" "sbrk_fresh sbrk b0 xs h (max nu 4096) w"
  defines "m \<equiv> max nu 4096" and "p \<equiv> sbrk_at sbrk (max nu 4096) w" and "w' \<equiv> snd (sbrk (16 * int (unat (max nu 4096))) w)"
  shows "(p = - 1 \<longrightarrow> morecore sbrk nu h w = Some (0, h, w')) \<and>
    (p \<noteq> - 1 \<longrightarrow> (\<exists>h' xs'. morecore sbrk nu h w = Some (freep h', h', w') \<and> flist h' b0 xs' \<and> (\<exists>x\<in>set xs'. nu \<le> hsize h' x)
       \<and> set xs' \<subseteq> insert p (set xs) \<and> free_bytes h' xs' = free_bytes h xs \<union> bytes p m
       \<and> (\<forall>x. x \<noteq> p \<and> x \<notin> set xs \<longrightarrow> hsize h' x = hsize h x)))"
proof -
  have m: "(if nu < 4096 then 4096 else nu) = m" by (auto simp: m_def max_def)
  have "unat m < 2 ^ 27" using assms(2) by (simp add: m_def max_def)
  note arg = sbrk_arg[OF this]
  have sb: "sbrk (16 * int (unat m)) w = (p, w')" by (simp add: p_def w'_def m_def sbrk_at_def)
  let ?h = "h\<lparr>hsize := (hsize h)(p := m)\<rparr>"
  have mc: "morecore sbrk nu h w = (if p = - 1 then Some (0, h, w')
      else case ufree (p + 16) ?h of None \<Rightarrow> None | Some h \<Rightarrow> Some (freep h, h, w'))"
    unfolding morecore_def m arg Let_def sb by simp
  have fits: "nu \<le> m" "0 < m" by (auto simp: m_def max_def word_less_nat_alt word_le_nat_alt)
  show ?thesis
  proof (cases "p = - 1")
    case False
    have fr: "unat b0 < unat p" "unat p + 16 * unat m < 2 ^ 36" "\<forall>x\<in>set xs. unat x < unat p \<and> fin h x \<le> unat p"
      using assms(3) False unfolding sbrk_fresh_def p_def m_def by auto
    have np: "p \<notin> set xs" using fr(3) by auto
    have fin: "\<forall>x\<in>set xs. fin ?h x = fin h x" using np by (auto simp: fin_def)
    have "flist ?h b0 xs"
    proof -
      have "sorted_wrt (\<lambda>x y. fin ?h x < unat y) xs"
        by (rule sorted_wrt_mono_rel[of _ "\<lambda>x y. fin h x < unat y"]) (use assms(1) fin in \<open>auto simp: flist_def\<close>)
      moreover have "seg ?h b0 xs b0" using assms(1) seg_cong[of xs ?h h] by (simp add: flist_def)
      moreover have "hsize ?h b0 = 0" using assms(1) fr(1) by (auto simp: flist_def)
      ultimately show ?thesis using assms(1) fin by (simp add: flist_def)
    qed
    moreover have "clear_of ?h xs p" using fr fin fits(2) by (auto simp: clear_of_def fin_def)
    moreover have "free_bytes ?h xs = free_bytes h xs" using np by (intro free_bytes_cong) auto
    ultimately obtain h' xs' where "ufree (p + 16) ?h = Some h'" "flist h' b0 xs'" "\<exists>x\<in>set xs'. m \<le> hsize h' x"
      "set xs' \<subseteq> insert p (set xs)" "free_bytes h' xs' = free_bytes h xs \<union> bytes p m"
      "\<forall>x. x \<noteq> p \<and> x \<notin> set xs \<longrightarrow> hsize h' x = hsize ?h x"
      using ufree_block[of ?h b0 xs p] fr(1) by auto
    then show ?thesis using False fits(1) unfolding mc by (fastforce intro: order_trans)
  qed (simp add: mc)
qed

lemma malloc_round:
  assumes "flist h b0 xs" "0 < nu"
  shows "(\<exists>r h'. malloc_loop sbrk nu (freep h) (hptr h (freep h)) h w = Some (r + 16, h', w) \<and> r + 16 \<noteq> 0
        \<and> taken b0 nu xs (free_bytes h xs) h r h')
      \<or> (\<forall>x\<in>set xs. hsize h x < nu) \<and> malloc_loop sbrk nu (freep h) (hptr h (freep h)) h w =
         (case morecore sbrk nu h w of None \<Rightarrow> None
          | Some (p, h, w) \<Rightarrow> if p = 0 then Some (0, h, w) else malloc_loop sbrk nu p (hptr h p) h w)"
proof -
  let ?n = "length xs"
  obtain f where f: "f < ?n" "freep h = xs ! f" using assms(1) by (auto simp: flist_def in_set_conv_nth)
  have nx: "hptr h (xs ! f) = xs ! (Suc f mod ?n)"
    using flist_nth[OF assms(1) f(1)] flist_hd[OF assms(1)] f(1) by (cases "Suc f < ?n") (auto simp: not_less dest: le_antisym)
  have "Suc f + (?n - 1) = f + ?n" using f(1) by linarith
  then have d: "?n - 1 < ?n" "(Suc f + (?n - 1)) mod ?n = f" using f(1) by auto
  consider (fit) j where "j < ?n" "nu \<le> hsize h (xs ! (Suc j mod ?n))"
       "malloc_loop sbrk nu (freep h) (hptr h (freep h)) h w =
         (case carve nu (xs ! j) (xs ! (Suc j mod ?n)) h of (r, h) \<Rightarrow> Some (r, h, w))"
    | (none) "\<forall>e\<le>?n - 1. hsize h (xs ! ((Suc f + e) mod ?n)) < nu"
       "malloc_loop sbrk nu (freep h) (hptr h (freep h)) h w =
       (case morecore sbrk nu h w of None \<Rightarrow> None
        | Some (p, h, w) \<Rightarrow> if p = 0 then Some (0, h, w) else malloc_loop sbrk nu p (hptr h p) h w)"
    using malloc_walk[OF assms(1) f f(1) d, of nu sbrk w] unfolding f(2) nx by blast
  then show ?thesis
  proof cases
    case fit
    obtain r h' where c: "carve nu (xs ! j) (xs ! (Suc j mod ?n)) h = (r + 16, h')" "taken b0 nu xs (free_bytes h xs) h r h'"
      using carve_taken[OF assms(1) fit(1,2) assms(2)] by blast
    have "unat r < 2 ^ 36" "0 < unat r" using c(2) start_le_fin[of r h'] by (auto simp: taken_def clear_of_def)
    then have "unat (r + 16) \<noteq> 0" by (simp add: unat_word_ariths)
    then have "r + 16 \<noteq> 0" by (metis unsigned_0)
    then show ?thesis using c fit(3) by auto
  next
    case none
    have "hsize h (xs ! k) < nu" if "k < ?n" for k
    proof -
      have "Suc f + (k + ?n - Suc f) = k + ?n" using f(1) by linarith
      then have "(Suc f + (k + ?n - Suc f) mod ?n) mod ?n = k"
        using that mod_add_right_eq[of "Suc f" "k + ?n - Suc f" ?n] by (simp only: mod_add_self2 mod_less)
      moreover have "(k + ?n - Suc f) mod ?n \<le> ?n - 1" using that by (metis Suc_pred' less_Suc_eq_le mod_less_divisor not_less_zero neq0_conv)
      ultimately show ?thesis using none(1) by metis
    qed
    then show ?thesis using none(2) by (auto simp: in_set_conv_nth)
  qed
qed

lemma taken_mono:
  assumes "taken b0 nu xs' G h' r h''" "\<forall>x. unat x \<notin> G \<and> x \<notin> set xs \<longrightarrow> x \<notin> set xs' \<and> hsize h' x = hsize h x"
  shows "taken b0 nu xs G h r h''"
  using assms unfolding taken_def by metis

lemma malloc_loop_ok:
  assumes "flist h b0 xs" "unat nu < 2 ^ 27" "0 < nu" "sbrk_fresh sbrk b0 xs h (max nu 4096) w"
  defines "p \<equiv> sbrk_at sbrk (max nu 4096) w"
  shows "\<exists>r h' w'. malloc_loop sbrk nu (freep h) (hptr h (freep h)) h w = Some (r, h', w') \<and>
    (r = 0 \<and> p = - 1 \<and> h' = h \<or>
     r \<noteq> 0 \<and> (taken b0 nu xs (free_bytes h xs) h (r - 16) h' \<or>
              p \<noteq> - 1 \<and> taken b0 nu xs (free_bytes h xs \<union> bytes p (max nu 4096)) h (r - 16) h'))"
  using malloc_round[OF assms(1,3), of sbrk w]
proof (elim disjE)
  assume none: "(\<forall>x\<in>set xs. hsize h x < nu) \<and> malloc_loop sbrk nu (freep h) (hptr h (freep h)) h w =
         (case morecore sbrk nu h w of None \<Rightarrow> None
          | Some (p, h, w) \<Rightarrow> if p = 0 then Some (0, h, w) else malloc_loop sbrk nu p (hptr h p) h w)"
  note M = morecore_grows[OF assms(1,2,4), folded p_def]
  show ?thesis
  proof (cases "p = - 1")
    case False
    then obtain h1 xs1 w1 where g: "morecore sbrk nu h w = Some (freep h1, h1, w1)" "flist h1 b0 xs1" "\<exists>x\<in>set xs1. nu \<le> hsize h1 x"
      "set xs1 \<subseteq> insert p (set xs)" "free_bytes h1 xs1 = free_bytes h xs \<union> bytes p (max nu 4096)"
      "\<forall>x. x \<noteq> p \<and> x \<notin> set xs \<longrightarrow> hsize h1 x = hsize h x" using M by blast
    have "\<not> (\<forall>x\<in>set xs1. hsize h1 x < nu)" using g(3) by (auto simp: not_less)
    then obtain r h' where r: "malloc_loop sbrk nu (freep h1) (hptr h1 (freep h1)) h1 w1 = Some (r + 16, h', w1)" "r + 16 \<noteq> 0"
      "taken b0 nu xs1 (free_bytes h1 xs1) h1 r h'" using malloc_round[OF g(2) assms(3), of sbrk w1] by blast
    have "freep h1 \<noteq> 0" using flist_pos[OF g(2)] g(2) by (auto simp: flist_def)
    then have run: "malloc_loop sbrk nu (freep h) (hptr h (freep h)) h w = Some (r + 16, h', w1)" using none g(1) r(1) by simp
    have "0 < unat (max nu 4096)" using assms(3) by (auto simp: max_def word_less_nat_alt)
    then have "unat p \<in> bytes p (max nu 4096)" by (simp add: bytes_def)
    then have "taken b0 nu xs (free_bytes h xs \<union> bytes p (max nu 4096)) h r h'"
      using r(3) g(4,6) unfolding g(5) by (elim taken_mono) auto
    then show ?thesis using run r(2) False by (intro exI[of _ "r + 16"]) auto
  qed (use none M in auto)
qed auto

section \<open>The allocator as a whole\<close>

text \<open>Before the first call there is no list.\<close>

definition uheap_ok :: "addr \<Rightarrow> addr list \<Rightarrow> uheap \<Rightarrow> bool" where
  "uheap_ok b0 xs h \<longleftrightarrow> (if freep h = 0 then xs = [] \<and> 0 < unat b0 \<and> unat b0 < 2 ^ 36 else flist h b0 xs)"

lemma unat_units:
  assumes "unat nbytes < 2 ^ 30"
  shows "unat (units nbytes) = (unat nbytes + 15) div 16 + 1"
proof -
  have "unat (ucast nbytes :: u64) = unat nbytes" using assms by (simp add: unsigned_ucast_eq take_bit_nat_eq_self)
  then have "unat (ucast nbytes + 15 :: u64) = unat nbytes + 15" using assms by (simp add: unat_word_ariths)
  then have "unat ((ucast nbytes + 15) div 16 :: u64) = (unat nbytes + 15) div 16" by (simp add: unat_div)
  then have u: "unat ((ucast nbytes + 15) div 16 + 1 :: u64) = (unat nbytes + 15) div 16 + 1" using assms by (simp add: unat_word_ariths)
  have "(unat nbytes + 15) div 16 + 1 < 2 ^ 32" using assms by simp
  then show ?thesis unfolding units_def using u by (simp add: unsigned_ucast_eq take_bit_nat_eq_self)
qed


definition demo_heap0 :: uheap where
  "demo_heap0 = \<lparr>hptr = (\<lambda>x. 0), hsize = (\<lambda>x. 0), freep = 0\<rparr>"


text \<open>
  C29. Freeing what \<^verbatim>\<open>malloc\<close> returned gives every byte of it back: \<^verbatim>\<open>free\<close> returns, the list is again a well-formed list in the order of
  addresses with no two neighbours unmerged, and the free bytes are those from which the block had been taken.
\<close>

theorem free_gives_back:
  assumes "taken b0 nu xs G h (r - 16) h'"
  shows "\<exists>h'' xs''. ufree r h' = Some h'' \<and> uheap_ok b0 xs'' h'' \<and> free_bytes h'' xs'' = G"
proof -
  obtain xs' where x: "flist h' b0 xs'" "clear_of h' xs' (r - 16)" "unat b0 < unat (r - 16)" "hsize h' (r - 16) = nu"
    "bytes (r - 16) nu \<union> free_bytes h' xs' = G" using assms by (auto simp: taken_def)
  obtain h'' xs'' where "ufree r h' = Some h''" "flist h'' b0 xs''" "free_bytes h'' xs'' = G"
    using ufree_block[OF x(1-3)] x(4,5) by (auto simp: Un_commute)
  moreover have "freep h'' \<noteq> 0" using flist_pos calculation(2) by (auto simp: flist_def)
  ultimately show ?thesis by (auto simp: uheap_ok_def)
qed

definition demo_heap1 :: uheap where
  "demo_heap1 = \<lparr>hptr = (\<lambda>x. if x = 0x1000 then 0x4000 else 0x1000),
     hsize = (\<lambda>x. if x = 0x1000 then 0 else if x = 0x4000 then 16 else 7), freep = 0x1000\<rparr>"

theorem free_gives_back_witness:
  "\<exists>h'' xs''. ufree 0x5010 demo_heap1 = Some h'' \<and> uheap_ok 0x1000 xs'' h'' \<and> free_bytes h'' xs'' = bytes 0x5000 7 \<union> bytes 0x4000 16"
proof -
  have "taken 0x1000 7 [] (bytes 0x5000 7 \<union> bytes 0x4000 16) demo_heap1 (0x5010 - 16) demo_heap1"
    unfolding taken_def by (intro exI[of _ "[0x1000, 0x4000]"])
      (auto simp: flist_def clear_of_def fin_def demo_heap1_def free_bytes_def bytes_def)
  then show ?thesis by (rule free_gives_back)
qed

end
