(* ===== verification/Ush.thy ===== *)
theory Ush
  imports Prelude
begin

text \<open>
  \<^verbatim>\<open>user/sh.c\<close>: the shell. The line is a string; \<^verbatim>\<open>*ps\<close> and the pairs \<^verbatim>\<open>q\<close>, \<^verbatim>\<open>eq\<close> that mark a word are
  positions in it, and \<^verbatim>\<open>es\<close> is its length, where the terminating NUL is. The tree of commands is a datatype over the type of
  its words: pairs of positions in what the parser returns. A panic ends the process that parses: the result is what it has printed on
  descriptor 2. The functions of the parser call each other through \<^verbatim>\<open>parseblock\<close>, so \<^verbatim>\<open>parseline\<close> takes fuel and hands itself to
  the functions it calls; running out is \<open>Stuck\<close>. The constructors \<^verbatim>\<open>execcmd\<close> to \<^verbatim>\<open>backcmd\<close> are those of the datatype.

  What a process does is a tree of its system calls: a call takes the rest of the program as a function of the call's result.
\<close>

section \<open>Commands\<close>

datatype 'w cmd =
    EXEC "'w list"
  | REDIR "'w cmd" 'w int int
  | PIPE "'w cmd" "'w cmd"
  | LIST "'w cmd" "'w cmd"
  | BACK "'w cmd"

type_synonym word_pos = "nat \<times> nat"

definition MAXARGS :: nat where "MAXARGS = 10"

definition o_rdonly :: int where "o_rdonly = 0"
definition o_wronly :: int where "o_wronly = 1"
definition o_rdwr :: int where "o_rdwr = 2"
definition o_create :: int where "o_create = 0x200"
definition o_trunc :: int where "o_trunc = 0x400"

abbreviation NUL :: char where "NUL \<equiv> CHR 0x00"

section \<open>Tokens\<close>

definition whitespace :: string where
  "whitespace = [CHR '' '', CHR 0x09, CHR 0x0D, CHR 0x0A, CHR 0x0B]"

definition symbols :: string where
  "symbols = ''<|>&;()''"

text \<open>The character at a position; at \<^verbatim>\<open>es\<close> it is the NUL.\<close>

definition ch :: "string \<Rightarrow> nat \<Rightarrow> char" where
  "ch s i = (if i < length s then s ! i else NUL)"

function skip_ws :: "string \<Rightarrow> nat \<Rightarrow> nat" where
  "skip_ws s i = (if i < length s \<and> ch s i \<in> set whitespace then skip_ws s (Suc i) else i)"
  by auto
termination by (relation "measure (\<lambda>(s, i). length s - i)") auto

function word_end :: "string \<Rightarrow> nat \<Rightarrow> nat" where
  "word_end s i = (if i < length s \<and> ch s i \<notin> set whitespace \<and> ch s i \<notin> set symbols then word_end s (Suc i) else i)"
  by auto
termination by (relation "measure (\<lambda>(s, i). length s - i)") auto

declare skip_ws.simps [simp del] word_end.simps [simp del]

text \<open>The kind of the token, where it starts and ends, and the position after it.\<close>

definition gettoken :: "string \<Rightarrow> nat \<Rightarrow> char \<times> nat \<times> nat \<times> nat" where
  "gettoken s i =
     (let q = skip_ws s i; c = ch s q;
          (ret, e) =
            (if c = NUL then (c, q)
             else if c \<in> set ''|();&<'' then (c, Suc q)
             else if c = CHR ''>'' then (if ch s (Suc q) = CHR ''>'' then (CHR ''+'', Suc (Suc q)) else (c, Suc q))
             else (CHR ''a'', word_end s q))
      in (ret, q, e, skip_ws s e))"

definition peek :: "string \<Rightarrow> nat \<Rightarrow> string \<Rightarrow> bool \<times> nat" where
  "peek s i toks = (let i = skip_ws s i in (ch s i \<noteq> NUL \<and> ch s i \<in> set toks, i))"

text \<open>Every token but the one at the end of the line advances.\<close>

lemma skip_ws_ge: "i \<le> skip_ws s i"
  by (induction s i rule: skip_ws.induct) (subst skip_ws.simps, auto)

lemma skip_ws_le: "i \<le> length s \<Longrightarrow> skip_ws s i \<le> length s"
  by (induction s i rule: skip_ws.induct) (subst skip_ws.simps, auto)

lemma word_end_ge: "i \<le> word_end s i"
  by (induction s i rule: word_end.induct) (subst word_end.simps, auto)

lemma word_end_le: "i \<le> length s \<Longrightarrow> word_end s i \<le> length s"
  by (induction s i rule: word_end.induct) (subst word_end.simps, auto)

lemma ch_less: "ch s i \<noteq> NUL \<Longrightarrow> i < length s"
  by (auto simp: ch_def split: if_splits)

lemma skip_ws_stops: "ch s (skip_ws s i) \<notin> set whitespace"
proof (induction s i rule: skip_ws.induct)
  case (1 s i)
  show ?case
  proof (cases "i < length s \<and> ch s i \<in> set whitespace")
    case True
    then show ?thesis using 1 by (subst skip_ws.simps) simp
  next
    case False
    then show ?thesis by (subst skip_ws.simps) (auto simp: ch_def whitespace_def)
  qed
qed

lemma symbols_cases: "c \<in> set symbols \<longleftrightarrow> c \<in> set ''|();&<'' \<or> c = CHR ''>''"
  by (auto simp: symbols_def)

lemma gettoken_advances:
  assumes "gettoken s i = (tok, q, e, j)" "tok \<noteq> NUL"
  shows "i < j" "q < length s"
proof -
  let ?c = "ch s (skip_ws s i)"
  have c: "?c \<noteq> NUL" using assms by (auto simp: gettoken_def Let_def split: if_splits)
  then have q: "skip_ws s i < length s" by (rule ch_less)
  have "skip_ws s i < word_end s (skip_ws s i)" if "?c \<notin> set symbols"
    using that q skip_ws_stops[of s i] word_end_ge[of "Suc (skip_ws s i)" s] by (subst word_end.simps) auto
  then have "skip_ws s i < e" using assms c by (auto simp: gettoken_def Let_def symbols_cases split: if_splits)
  moreover have "j = skip_ws s e" "q = skip_ws s i" using assms by (auto simp: gettoken_def Let_def split: if_splits prod.splits)
  ultimately show "i < j" "q < length s" using skip_ws_ge[of i s] skip_ws_ge[of e s] q by auto
qed

lemma peek_token:
  assumes "peek s i toks = (True, j)" "gettoken s j = (tok, q, e, k)"
  shows "i \<le> j" "j < k" "j < length s"
proof -
  have j: "j = skip_ws s i" "ch s j \<noteq> NUL" "ch s j \<notin> set whitespace"
    using assms(1) skip_ws_stops[of s i] by (auto simp: peek_def Let_def)
  have "skip_ws s j = j" using j(3) by (subst skip_ws.simps) simp
  then have "tok \<noteq> NUL" using assms(2) j(2) by (auto simp: gettoken_def Let_def split: if_splits)
  then show "i \<le> j" "j < k" "j < length s" using gettoken_advances[OF assms(2)] j skip_ws_ge[of i s] ch_less[of s j] by auto
qed

lemma redirs_decrease:
  assumes "peek s i toks = (True, j)" "gettoken s j = (tok, q, e, k)" "gettoken s k = (t, q', e', l)" "t = CHR ''a''"
  shows "length s - l < length s - i"
proof -
  have "t \<noteq> NUL" using assms(4) by simp
  then show ?thesis using peek_token[OF assms(1,2)] gettoken_advances(1)[OF assms(3)] by linarith
qed

lemma back_decrease:
  assumes "peek s i toks = (True, j)" "gettoken s j = (tok, q, e, k)"
  shows "length s - k < length s - i"
  using peek_token[OF assms] by linarith

section \<open>The parser\<close>

datatype 'a presult = Parsed 'a nat | Failed string | Stuck

fun pbind :: "'a presult \<Rightarrow> ('a \<Rightarrow> nat \<Rightarrow> 'b presult) \<Rightarrow> 'b presult" where
  "pbind (Parsed x i) f = f x i"
| "pbind (Failed m) f = Failed m"
| "pbind Stuck f = Stuck"

lemma pbind_cong [fundef_cong]:
  "\<lbrakk>m = m'; \<And>x i. m' = Parsed x i \<Longrightarrow> f x i = f' x i\<rbrakk> \<Longrightarrow> pbind m f = pbind m' f'"
  by (cases m') auto

definition panic :: "string \<Rightarrow> 'a presult" where
  "panic msg = Failed (msg @ [CHR 0x0A])"

definition redir :: "char \<Rightarrow> word_pos cmd \<Rightarrow> word_pos \<Rightarrow> word_pos cmd" where
  "redir tok cmd f =
     (if tok = CHR ''<'' then REDIR cmd f o_rdonly 0
      else if tok = CHR ''>'' then REDIR cmd f (o_wronly OR o_create OR o_trunc) 1
      else if tok = CHR ''+'' then REDIR cmd f (o_wronly OR o_create) 1
      else cmd)"

function parseredirs :: "string \<Rightarrow> word_pos cmd \<Rightarrow> nat \<Rightarrow> word_pos cmd presult" where
  "parseredirs s cmd i =
     (case peek s i ''<>'' of (b, i) \<Rightarrow>
        if \<not> b then Parsed cmd i
        else case gettoken s i of (tok, _, _, i) \<Rightarrow>
          case gettoken s i of (t, q, e, i) \<Rightarrow>
            if t \<noteq> CHR ''a'' then panic ''missing file for redirection''
            else parseredirs s (redir tok cmd (q, e)) i)"
  by auto
termination
  by (relation "measure (\<lambda>(s, cmd, i). length s - i)") (auto intro: redirs_decrease dest: sym)

text \<open>The arguments go into the \<^verbatim>\<open>execcmd\<close> below the redirections that have been put around it.\<close>

fun add_arg :: "word_pos \<Rightarrow> word_pos cmd \<Rightarrow> word_pos cmd" where
  "add_arg w (EXEC ws) = EXEC (ws @ [w])"
| "add_arg w (REDIR c f mode fd) = REDIR (add_arg w c) f mode fd"
| "add_arg w c = c"

function parseargs :: "string \<Rightarrow> word_pos cmd \<Rightarrow> nat \<Rightarrow> nat \<Rightarrow> word_pos cmd presult" where
  "parseargs s ret argc i =
     (case peek s i ''|)&;'' of (b, i) \<Rightarrow>
        if b then Parsed ret i
        else case gettoken s i of (tok, q, e, i) \<Rightarrow>
          if tok = NUL then Parsed ret i
          else if tok \<noteq> CHR ''a'' then panic ''syntax''
          else if Suc argc \<ge> MAXARGS then panic ''too many args''
          else pbind (parseredirs s (add_arg (q, e) ret) i) (\<lambda>ret i. parseargs s ret (Suc argc) i))"
  by auto
termination by (relation "measure (\<lambda>(s, ret, argc, i). MAXARGS - argc)") auto

declare parseredirs.simps [simp del] parseargs.simps [simp del]

definition parseblock :: "(nat \<Rightarrow> word_pos cmd presult) \<Rightarrow> string \<Rightarrow> nat \<Rightarrow> word_pos cmd presult" where
  "parseblock parseline s i =
     (case peek s i ''('' of (b, i) \<Rightarrow>
        if \<not> b then panic ''parseblock''
        else case gettoken s i of (_, _, _, i) \<Rightarrow>
          pbind (parseline i) (\<lambda>cmd i.
            case peek s i '')'' of (b, i) \<Rightarrow>
              if \<not> b then panic ''syntax - missing )''
              else case gettoken s i of (_, _, _, i) \<Rightarrow> parseredirs s cmd i))"

definition parseexec :: "(nat \<Rightarrow> word_pos cmd presult) \<Rightarrow> string \<Rightarrow> nat \<Rightarrow> word_pos cmd presult" where
  "parseexec parseline s i =
     (case peek s i ''('' of (b, i) \<Rightarrow>
        if b then parseblock parseline s i
        else pbind (parseredirs s (EXEC []) i) (\<lambda>ret i. parseargs s ret 0 i))"

fun parsepipe :: "(nat \<Rightarrow> word_pos cmd presult) \<Rightarrow> nat \<Rightarrow> string \<Rightarrow> nat \<Rightarrow> word_pos cmd presult" where
  "parsepipe parseline 0 s i = Stuck"
| "parsepipe parseline (Suc n) s i =
     pbind (parseexec parseline s i) (\<lambda>cmd i.
       case peek s i ''|'' of (b, i) \<Rightarrow>
         if b then (case gettoken s i of (_, _, _, i) \<Rightarrow> pbind (parsepipe parseline n s i) (\<lambda>right i. Parsed (PIPE cmd right) i))
         else Parsed cmd i)"

function parseback :: "string \<Rightarrow> word_pos cmd \<Rightarrow> nat \<Rightarrow> word_pos cmd \<times> nat" where
  "parseback s cmd i =
     (case peek s i ''&'' of (b, i) \<Rightarrow>
        if b then (case gettoken s i of (_, _, _, i) \<Rightarrow> parseback s (BACK cmd) i) else (cmd, i))"
  by auto
termination
  by (relation "measure (\<lambda>(s, cmd, i). length s - i)") (auto intro: back_decrease dest: sym)

declare parseback.simps [simp del]

fun parseline :: "nat \<Rightarrow> string \<Rightarrow> nat \<Rightarrow> word_pos cmd presult" where
  "parseline 0 s i = Stuck"
| "parseline (Suc n) s i =
     pbind (parsepipe (parseline n s) (Suc n) s i) (\<lambda>cmd i.
       case parseback s cmd i of (cmd, i) \<Rightarrow>
         case peek s i '';'' of (b, i) \<Rightarrow>
           if b then (case gettoken s i of (_, _, _, i) \<Rightarrow> pbind (parseline n s i) (\<lambda>right i. Parsed (LIST cmd right) i))
           else Parsed cmd i)"

text \<open>The buffer has the line and its NUL; a NUL goes behind every word.\<close>

primrec nulterminate :: "word_pos cmd \<Rightarrow> string \<Rightarrow> string" where
  "nulterminate (EXEC ws) buf = fold (\<lambda>(q, e) buf. buf[e := NUL]) ws buf"
| "nulterminate (REDIR c f mode fd) buf = (nulterminate c buf)[snd f := NUL]"
| "nulterminate (PIPE l r) buf = nulterminate r (nulterminate l buf)"
| "nulterminate (LIST l r) buf = nulterminate r (nulterminate l buf)"
| "nulterminate (BACK c) buf = nulterminate c buf"

definition parsecmd :: "string \<Rightarrow> (word_pos cmd \<times> string) presult" where
  "parsecmd s =
     pbind (parseline (Suc (length s)) s 0) (\<lambda>cmd i.
       case peek s i '''' of (_, i) \<Rightarrow>
         if i \<noteq> length s then Failed (''leftovers: '' @ drop i s @ [CHR 0x0A] @ ''syntax'' @ [CHR 0x0A])
         else Parsed (cmd, nulterminate cmd (s @ [NUL])) i)"

section \<open>Running commands\<close>

text \<open>The string that a pointer into the line denotes.\<close>

definition str_at :: "string \<Rightarrow> nat \<Rightarrow> string" where
  "str_at buf q = takeWhile (\<lambda>c. c \<noteq> NUL) (drop q buf)"

datatype prog =
    Exit int
  | Exec string "string list" prog
  | Fork "int \<Rightarrow> prog"
  | Wait prog
  | Close int prog
  | Dup int prog
  | Open string int "int \<Rightarrow> prog"
  | Pipe "(int \<times> int) option \<Rightarrow> prog"
  | Chdir string "int \<Rightarrow> prog"
  | Write int string prog

definition sh_panic :: "string \<Rightarrow> prog" where
  "sh_panic msg = Write 2 (msg @ [CHR 0x0A]) (Exit 1)"

definition fork1 :: "(int \<Rightarrow> prog) \<Rightarrow> prog" where
  "fork1 k = Fork (\<lambda>pid. if pid = -1 then sh_panic ''fork'' else k pid)"

text \<open>\<^verbatim>\<open>exec\<close> returns only when it fails; then the name is tried in the root directory.\<close>

definition runexec :: "string list \<Rightarrow> prog" where
  "runexec argv =
     (if argv = [] then Exit 1
      else
        let a = hd argv;
            failed = Write 2 (''exec '' @ a @ '' failed'' @ [CHR 0x0A]) (Exit 0)
        in Exec a argv
             (if take 1 a \<noteq> ''/'' \<and> length a < 63 then Exec (CHR ''/'' # a) argv failed else failed))"

primrec runcmd :: "string cmd \<Rightarrow> prog" where
  "runcmd (EXEC argv) = runexec argv"
| "runcmd (REDIR cmd file mode fd) =
     Close fd (Open file mode (\<lambda>r.
       if r < 0 then Write 2 (''open '' @ file @ '' failed'' @ [CHR 0x0A]) (Exit 1)
       else runcmd cmd))"
| "runcmd (LIST left right) =
     fork1 (\<lambda>pid. if pid = 0 then runcmd left else Wait (runcmd right))"
| "runcmd (PIPE left right) =
     Pipe (\<lambda>p. case p of
         None \<Rightarrow> sh_panic ''pipe''
       | Some (p0, p1) \<Rightarrow>
           fork1 (\<lambda>pid.
             if pid = 0 then Close 1 (Dup p1 (Close p0 (Close p1 (runcmd left))))
             else fork1 (\<lambda>pid.
               if pid = 0 then Close 0 (Dup p0 (Close p0 (Close p1 (runcmd right))))
               else Close p0 (Close p1 (Wait (Wait (Exit 0)))))))"
| "runcmd (BACK cmd) =
     fork1 (\<lambda>pid. if pid = 0 then runcmd cmd else Exit 0)"

text \<open>What the forked shell does with a line; the parser never runs out of fuel.\<close>

definition run_line :: "string \<Rightarrow> prog" where
  "run_line s =
     (case parsecmd s of
        Parsed (cmd, buf) _ \<Rightarrow> runcmd (map_cmd (\<lambda>w. str_at buf (fst w)) cmd)
      | Failed msg \<Rightarrow> Write 2 msg (Exit 1)
      | Stuck \<Rightarrow> Exit 1)"

text \<open>One turn of the loop in \<^verbatim>\<open>main\<close> with the line \<^verbatim>\<open>getcmd\<close> has read, and the loop over the lines of the input; \<^verbatim>\<open>gets\<close> returns an empty line at the end of the input.\<close>

definition do_line :: "string \<Rightarrow> prog \<Rightarrow> prog" where
  "do_line buf next =
     (let cmd = dropWhile (\<lambda>c. c = CHR '' '' \<or> c = CHR 0x09) buf in
      if take 1 cmd = [CHR 0x0A] then next
      else if take 3 cmd = ''cd '' then
        (let dir = drop 3 (butlast cmd) in
         Chdir dir (\<lambda>r. if r < 0 then Write 2 (''cannot cd '' @ dir @ [CHR 0x0A]) next else next))
      else fork1 (\<lambda>pid. if pid = 0 then run_line cmd else Wait next))"

fun sh_loop :: "string list \<Rightarrow> prog" where
  "sh_loop [] = Write 2 ''$ '' (Exit 0)"
| "sh_loop (buf # lines) = Write 2 ''$ '' (if buf = [] then Exit 0 else do_line buf (sh_loop lines))"

text \<open>
  The three descriptors. The loop ends when a descriptor from 3 on is returned or the open fails: with descriptors handed out lowest first, in
  the fourth turn at the latest.
\<close>

primrec open_console :: "nat \<Rightarrow> prog \<Rightarrow> prog" where
  "open_console 0 next = next"
| "open_console (Suc n) next =
     Open ''console'' o_rdwr (\<lambda>fd. if fd \<ge> 0 then (if fd \<ge> 3 then Close fd next else open_console n next) else next)"

definition sh_main :: "string list \<Rightarrow> prog" where
  "sh_main lines = open_console 4 (sh_loop lines)"

end
