(* ===== verification/Ushparse.thy ===== *)
theory Ushparse
  imports Ush
begin

text \<open>The parser of the shell: it ends on every line, and its words are terminated strings.\<close>

section \<open>Words\<close>

definition word_char :: "char \<Rightarrow> bool" where
  "word_char c \<longleftrightarrow> c \<noteq> NUL \<and> c \<notin> set whitespace \<and> c \<notin> set symbols"

text \<open>A maximal run of such characters.\<close>

fun is_token :: "string \<Rightarrow> word_pos \<Rightarrow> bool" where
  "is_token s (q, e) \<longleftrightarrow> q < e \<and> e \<le> length s \<and> (\<forall>k\<in>{q..<e}. word_char (ch s k)) \<and> \<not> word_char (ch s e)"

definition word_at :: "string \<Rightarrow> word_pos \<Rightarrow> string" where
  "word_at s w = take (snd w - fst w) (drop (fst w) s)"

primrec args_fit :: "'w cmd \<Rightarrow> bool" where
  "args_fit (EXEC ws) \<longleftrightarrow> length ws < MAXARGS"
| "args_fit (REDIR c f mode fd) \<longleftrightarrow> args_fit c"
| "args_fit (PIPE l r) \<longleftrightarrow> args_fit l \<and> args_fit r"
| "args_fit (LIST l r) \<longleftrightarrow> args_fit l \<and> args_fit r"
| "args_fit (BACK c) \<longleftrightarrow> args_fit c"

definition cmd_ok :: "string \<Rightarrow> word_pos cmd \<Rightarrow> bool" where
  "cmd_ok s c \<longleftrightarrow> args_fit c \<and> (\<forall>w\<in>set_cmd c. is_token s w)"

lemma ch_not_nul: "NUL \<notin> set s \<Longrightarrow> i < length s \<Longrightarrow> ch s i \<noteq> NUL"
  unfolding ch_def by (metis nth_mem)

lemma word_end_token:
  assumes "NUL \<notin> set s"
  shows "(\<forall>k\<in>{i..<word_end s i}. word_char (ch s k)) \<and> \<not> word_char (ch s (word_end s i))"
  using assms
proof (induction s i rule: word_end.induct)
  case (1 s i)
  show ?case
  proof (cases "i < length s \<and> ch s i \<notin> set whitespace \<and> ch s i \<notin> set symbols")
    case True
    have eq: "word_end s i = word_end s (Suc i)" using True by (subst word_end.simps) simp
    have "word_char (ch s i)" using True ch_not_nul[OF 1(2)] by (simp add: word_char_def)
    moreover have "{i..<word_end s (Suc i)} = insert i {Suc i..<word_end s (Suc i)}" using word_end_ge[of "Suc i" s] by auto
    ultimately show ?thesis using 1(1)[OF True 1(2)] eq by simp
  next
    case False
    then have "word_end s i = i" by (subst word_end.simps) auto
    then show ?thesis using False by (auto simp: word_char_def ch_def)
  qed
qed

lemma gettoken_word:
  assumes "gettoken s i = (CHR ''a'', q, e, j)" "NUL \<notin> set s"
  shows "is_token s (q, e)"
proof -
  have q: "q = skip_ws s i" "q < length s" "ch s q \<noteq> NUL" "ch s q \<notin> set symbols" "e = word_end s q"
    using assms(1) gettoken_advances(2)[OF assms(1)]
    by (auto simp: gettoken_def Let_def symbols_cases split: if_splits)
  then have "word_char (ch s q)" using skip_ws_stops[of s i] by (simp add: word_char_def)
  then have "e \<noteq> q" using word_end_token[OF assms(2), of q] q(5) by auto
  then show ?thesis using word_end_token[OF assms(2), of q] word_end_ge[of q s] word_end_le[of q s] q by auto
qed

lemma gettoken_le: "gettoken s i = (tok, q, e, j) \<Longrightarrow> i \<le> length s \<Longrightarrow> i \<le> j \<and> j \<le> length s"
proof -
  assume a: "gettoken s i = (tok, q, e, j)" "i \<le> length s"
  let ?c = "ch s (skip_ws s i)"
  have le: "skip_ws s i \<le> length s" using a(2) by (rule skip_ws_le)
  have "e \<le> length s \<and> skip_ws s i \<le> e"
    using a(1) le ch_less[of s "skip_ws s i"] ch_less[of s "Suc (skip_ws s i)"] word_end_le[OF le] word_end_ge[of "skip_ws s i" s]
    by (auto simp: gettoken_def Let_def split: if_splits)
  moreover have "j = skip_ws s e" using a(1) by (auto simp: gettoken_def Let_def split: if_splits prod.splits)
  ultimately show ?thesis using skip_ws_le[of e s] skip_ws_ge[of e s] skip_ws_ge[of i s] by auto
qed

lemma peek_le: "peek s i toks = (b, j) \<Longrightarrow> i \<le> length s \<Longrightarrow> i \<le> j \<and> j \<le> length s"
  using skip_ws_le[of i s] skip_ws_ge[of i s] by (auto simp: peek_def Let_def)

lemma peek_token_b:
  assumes "peek s i toks = (b, j)" b "gettoken s j = (tok, q, e, k)"
  shows "i < k" "j < length s"
  using peek_token[of s i toks j tok q e k] assms by auto

section \<open>Every line is parsed or refused\<close>

definition yields :: "string \<Rightarrow> nat \<Rightarrow> ('a \<Rightarrow> bool) \<Rightarrow> 'a presult \<Rightarrow> bool" where
  "yields s i P r \<longleftrightarrow> (case r of Parsed c j \<Rightarrow> i \<le> j \<and> j \<le> length s \<and> P c | Failed m \<Rightarrow> True | Stuck \<Rightarrow> False)"

lemma yields_simps [simp]:
  "yields s i P (Parsed c j) \<longleftrightarrow> i \<le> j \<and> j \<le> length s \<and> P c" "yields s i P (Failed m)" "yields s i P (panic m)" "\<not> yields s i P Stuck"
  by (simp_all add: yields_def panic_def)

lemma yields_pbind:
  assumes "yields s i P m" "\<And>c j. i \<le> j \<Longrightarrow> j \<le> length s \<Longrightarrow> P c \<Longrightarrow> yields s i Q (f c j)"
  shows "yields s i Q (pbind m f)"
  using assms by (cases m) simp_all

lemma yields_pbind_eq:
  assumes "yields s i P m" "\<And>c j. m = Parsed c j \<Longrightarrow> i \<le> j \<Longrightarrow> j \<le> length s \<Longrightarrow> P c \<Longrightarrow> yields s i Q (f c j)"
  shows "yields s i Q (pbind m f)"
  using assms by (cases m) simp_all

lemma yields_mono: "yields s i P r \<Longrightarrow> k \<le> i \<Longrightarrow> (\<And>c. P c \<Longrightarrow> Q c) \<Longrightarrow> yields s k Q r"
  by (cases r) auto

lemma yields_earlier: "yields s j P r \<Longrightarrow> i \<le> j \<Longrightarrow> yields s i P r"
  by (rule yields_mono)

text \<open>The number of arguments the \<^verbatim>\<open>execcmd\<close> under some redirections has.\<close>

fun leaf_args :: "'w cmd \<Rightarrow> nat option" where
  "leaf_args (EXEC ws) = Some (length ws)"
| "leaf_args (REDIR c f mode fd) = leaf_args c"
| "leaf_args c = None"

lemma add_arg_facts [simp]:
  "leaf_args c = Some n \<Longrightarrow> leaf_args (add_arg w c) = Some (Suc n)"
  "leaf_args c = Some n \<Longrightarrow> set_cmd (add_arg w c) = insert w (set_cmd c)"
  "leaf_args c = Some n \<Longrightarrow> args_fit (add_arg w c) \<longleftrightarrow> Suc n < MAXARGS"
  by (induction c) auto

lemma redir_facts [simp]:
  "leaf_args (redir tok c f) = leaf_args c" "args_fit (redir tok c f) = args_fit c" "set_cmd (redir tok c f) \<subseteq> insert f (set_cmd c)"
  by (auto simp: redir_def)

lemma parseredirs_yields:
  assumes "NUL \<notin> set s" "i \<le> length s" "cmd_ok s c"
  shows "yields s i (\<lambda>c'. cmd_ok s c' \<and> leaf_args c' = leaf_args c) (parseredirs s c i)"
  using assms
proof (induction s c i rule: parseredirs.induct)
  case (1 s c i)
  obtain b j where p: "peek s i ''<>'' = (b, j)" by fastforce
  obtain tok q0 e0 k where g: "gettoken s j = (tok, q0, e0, k)" by (metis prod_cases4)
  obtain t q e l where g2: "gettoken s k = (t, q, e, l)" by (metis prod_cases4)
  have j: "i \<le> j" "j \<le> length s" using peek_le[OF p 1(3)] by auto
  have k: "j \<le> k" "k \<le> length s" using gettoken_le[OF g j(2)] by auto
  have l: "k \<le> l" "l \<le> length s" using gettoken_le[OF g2 k(2)] by auto
  show ?case
  proof (cases "b \<and> t = CHR ''a''")
    case True
    then have "is_token s (q, e)" using gettoken_word[OF _ 1(2)] g2 by simp
    then have ok: "cmd_ok s (redir tok c (q, e))" using 1(4) redir_facts(2,3)[of tok c "(q, e)"] unfolding cmd_ok_def by blast
    have "yields s l (\<lambda>c'. cmd_ok s c' \<and> leaf_args c' = leaf_args (redir tok c (q, e))) (parseredirs s (redir tok c (q, e)) l)"
      using 1(1)[OF p[symmetric] _ g[symmetric] refl refl g2[symmetric] refl refl] True 1(2) l(2) ok by simp
    then have "yields s i (\<lambda>c'. cmd_ok s c' \<and> leaf_args c' = leaf_args c) (parseredirs s (redir tok c (q, e)) l)"
      by (rule yields_mono) (use j k l in auto)
    then show ?thesis using True p g g2 by (subst parseredirs.simps) simp
  next
    case False
    then show ?thesis using p g g2 j 1(4) by (subst parseredirs.simps) auto
  qed
qed

lemma parseargs_yields:
  assumes "NUL \<notin> set s" "i \<le> length s" "cmd_ok s c" "leaf_args c = Some argc"
  shows "yields s i (cmd_ok s) (parseargs s c argc i)"
  using assms
proof (induction s c argc i rule: parseargs.induct)
  case (1 s c argc i)
  obtain b j where p: "peek s i ''|)&;'' = (b, j)" by fastforce
  obtain tok q e k where g: "gettoken s j = (tok, q, e, k)" by (metis prod_cases4)
  have j: "i \<le> j" "j \<le> length s" using peek_le[OF p 1(3)] by auto
  have k: "j \<le> k" "k \<le> length s" using gettoken_le[OF g j(2)] by auto
  show ?case
  proof (cases "\<not> b \<and> tok = CHR ''a'' \<and> Suc argc < MAXARGS")
    case True
    let ?c = "add_arg (q, e) c"
    have "is_token s (q, e)" using gettoken_word[OF _ 1(2)] g True by simp
    then have ok: "cmd_ok s ?c" using 1(4,5) True add_arg_facts(2,3)[OF 1(5)] unfolding cmd_ok_def by simp
    have "yields s i (cmd_ok s) (pbind (parseredirs s ?c k) (\<lambda>ret i. parseargs s ret (Suc argc) i))"
    proof (rule yields_pbind_eq[where P = "\<lambda>c'. cmd_ok s c' \<and> leaf_args c' = Some (Suc argc)"])
      show "yields s i (\<lambda>c'. cmd_ok s c' \<and> leaf_args c' = Some (Suc argc)) (parseredirs s ?c k)"
        using parseredirs_yields[OF 1(2) k(2) ok] by (rule yields_mono) (use j k 1(5) in auto)
      fix c' m assume pr: "parseredirs s ?c k = Parsed c' m" and m: "i \<le> m" "m \<le> length s" "cmd_ok s c' \<and> leaf_args c' = Some (Suc argc)"
      have "yields s m (cmd_ok s) (parseargs s c' (Suc argc) m)"
        using 1(1)[OF p[symmetric] _ g[symmetric] refl refl, of c' m] True 1(2) m pr by simp
      then show "yields s i (cmd_ok s) (parseargs s c' (Suc argc) m)" using m(1) by (rule yields_mono)
    qed
    then show ?thesis using True p g by (subst parseargs.simps) simp
  next
    case False
    then show ?thesis using p g j k 1(4) by (subst parseargs.simps) auto
  qed
qed

lemma cmd_ok_simps [simp]:
  "cmd_ok s (EXEC [])" "cmd_ok s (PIPE l r) \<longleftrightarrow> cmd_ok s l \<and> cmd_ok s r"
  "cmd_ok s (LIST l r) \<longleftrightarrow> cmd_ok s l \<and> cmd_ok s r" "cmd_ok s (BACK c) \<longleftrightarrow> cmd_ok s c"
  by (auto simp: cmd_ok_def MAXARGS_def)

lemma parseblock_yields:
  assumes "NUL \<notin> set s" "i \<le> length s" "\<forall>j. i < j \<and> j \<le> length s \<longrightarrow> yields s j (cmd_ok s) (pl j)"
  shows "yields s i (cmd_ok s) (parseblock pl s i)"
proof -
  obtain b j where p: "peek s i ''('' = (b, j)" by fastforce
  obtain tok q e k where g: "gettoken s j = (tok, q, e, k)" by (metis prod_cases4)
  have j: "i \<le> j" "j \<le> length s" using peek_le[OF p assms(2)] by auto
  have k: "k \<le> length s" using gettoken_le[OF g j(2)] by auto
  have close: "yields s i (cmd_ok s)
      (case peek s m '')'' of (b, i) \<Rightarrow> if \<not> b then panic ''syntax - missing )''
         else case gettoken s i of (_, _, _, i) \<Rightarrow> parseredirs s c i)"
    if m: "i \<le> m" "m \<le> length s" "cmd_ok s c" for m c
  proof -
    obtain b' j' where p': "peek s m '')'' = (b', j')" by fastforce
    obtain tok' q' e' k' where g': "gettoken s j' = (tok', q', e', k')" by (metis prod_cases4)
    have j': "m \<le> j'" "j' \<le> length s" using peek_le[OF p' m(2)] by auto
    have k': "j' \<le> k'" "k' \<le> length s" using gettoken_le[OF g' j'(2)] by auto
    have "yields s i (cmd_ok s) (parseredirs s c k')"
      using parseredirs_yields[OF assms(1) k'(2) m(3)] by (rule yields_mono) (use m j' k' in auto)
    then show ?thesis using p' g' by simp
  qed
  show ?thesis
  proof (cases b)
    case True
    then have "i < k" using peek_token_b[OF p _ g] by simp
    then have "yields s i (cmd_ok s) (pl k)" using assms(3) k by (meson less_imp_le yields_earlier)
    then have "yields s i (cmd_ok s) (pbind (pl k) (\<lambda>cmd i.
            case peek s i '')'' of (b, i) \<Rightarrow>
              if \<not> b then panic ''syntax - missing )''
              else case gettoken s i of (_, _, _, i) \<Rightarrow> parseredirs s cmd i))"
      using close by (rule yields_pbind)
    then show ?thesis using p g True by (simp add: parseblock_def)
  qed (use p in \<open>simp add: parseblock_def\<close>)
qed

lemma parseexec_yields:
  assumes "NUL \<notin> set s" "i \<le> length s" "\<forall>j. i < j \<and> j \<le> length s \<longrightarrow> yields s j (cmd_ok s) (pl j)"
  shows "yields s i (cmd_ok s) (parseexec pl s i)"
proof -
  obtain b j where p: "peek s i ''('' = (b, j)" by fastforce
  have j: "i \<le> j" "j \<le> length s" using peek_le[OF p assms(2)] by auto
  show ?thesis
  proof (cases b)
    case True
    have "yields s j (cmd_ok s) (parseblock pl s j)" by (rule parseblock_yields[OF assms(1) j(2)]) (use assms(3) j in auto)
    then have "yields s i (cmd_ok s) (parseblock pl s j)" using j(1) by (rule yields_earlier)
    then show ?thesis using p True by (simp add: parseexec_def)
  next
    case False
    have r: "yields s i (\<lambda>c. cmd_ok s c \<and> leaf_args c = Some 0) (parseredirs s (EXEC []) j)"
      using parseredirs_yields[OF assms(1) j(2), of "EXEC []", simplified] by (rule yields_mono) (use j in auto)
    have "yields s i (cmd_ok s) (pbind (parseredirs s (EXEC []) j) (\<lambda>ret i. parseargs s ret 0 i))"
      using r
    proof (rule yields_pbind)
      fix c m assume m: "i \<le> m" "m \<le> length s" "cmd_ok s c \<and> leaf_args c = Some 0"
      then have "yields s m (cmd_ok s) (parseargs s c 0 m)" using parseargs_yields[OF assms(1)] by blast
      then show "yields s i (cmd_ok s) (parseargs s c 0 m)" using m(1) by (rule yields_mono)
    qed
    then show ?thesis using p False by (simp add: parseexec_def)
  qed
qed

lemma parsepipe_yields:
  assumes "NUL \<notin> set s" "i \<le> length s" "\<forall>j. i < j \<and> j \<le> length s \<longrightarrow> yields s j (cmd_ok s) (pl j)" "length s - i < n"
  shows "yields s i (cmd_ok s) (parsepipe pl n s i)"
  using assms(2-4)
proof (induction n arbitrary: i)
  case (Suc n)
  have "yields s i (cmd_ok s) (parseexec pl s i)" by (rule parseexec_yields[OF assms(1) Suc.prems(1,2)])
  then show ?case unfolding parsepipe.simps
  proof (rule yields_pbind)
    fix c m assume m: "i \<le> m" "m \<le> length s" "cmd_ok s c"
    obtain b j where p: "peek s m ''|'' = (b, j)" by fastforce
    obtain tok q e k where g: "gettoken s j = (tok, q, e, k)" by (metis prod_cases4)
    have j: "m \<le> j" "j \<le> length s" using peek_le[OF p m(2)] by auto
    have k: "k \<le> length s" using gettoken_le[OF g j(2)] by auto
    have "yields s i (cmd_ok s) (pbind (parsepipe pl n s k) (\<lambda>right i. Parsed (PIPE c right) i))" if b
    proof -
      have "m < k" "j < length s" using peek_token_b[OF p that g] by simp_all
      then have "yields s k (cmd_ok s) (parsepipe pl n s k)" using Suc.prems k m j by (intro Suc.IH) auto
      then have "yields s i (cmd_ok s) (parsepipe pl n s k)" by (rule yields_mono) (use \<open>m < k\<close> m in auto)
      then show ?thesis using m(3) by (auto intro: yields_pbind)
    qed
    then show "yields s i (cmd_ok s) (case peek s m ''|'' of (b, i) \<Rightarrow>
         if b then (case gettoken s i of (_, _, _, i) \<Rightarrow> pbind (parsepipe pl n s i) (\<lambda>right i. Parsed (PIPE c right) i))
         else Parsed c i)" using p g m j by auto
  qed
qed simp

lemma parseback_le:
  assumes "i \<le> length s" "cmd_ok s c" "parseback s c i = (c', j)"
  shows "i \<le> j \<and> j \<le> length s \<and> cmd_ok s c'"
  using assms
proof (induction s c i rule: parseback.induct)
  case (1 s c i)
  obtain b m where p: "peek s i ''&'' = (b, m)" by fastforce
  obtain tok q e k where g: "gettoken s m = (tok, q, e, k)" by (metis prod_cases4)
  have m: "i \<le> m" "m \<le> length s" using peek_le[OF p 1(2)] by auto
  have k: "m \<le> k" "k \<le> length s" using gettoken_le[OF g m(2)] by auto
  show ?case
  proof (cases b)
    case True
    then have "parseback s (BACK c) k = (c', j)" using 1(4) p g by (subst (asm) parseback.simps) simp
    then show ?thesis using 1(1)[OF p[symmetric] True g[symmetric] refl refl k(2)] 1(3) m k by simp
  next
    case False
    then show ?thesis using 1(3,4) p m by (subst (asm) parseback.simps) auto
  qed
qed

lemma parseline_yields:
  assumes "NUL \<notin> set s" "i \<le> length s" "length s - i < n"
  shows "yields s i (cmd_ok s) (parseline n s i)"
  using assms(2,3)
proof (induction n arbitrary: i)
  case (Suc n)
  have pl: "\<forall>j. i < j \<and> j \<le> length s \<longrightarrow> yields s j (cmd_ok s) (parseline n s j)" using Suc by auto
  have "yields s i (cmd_ok s) (parsepipe (parseline n s) (Suc n) s i)" by (rule parsepipe_yields[OF assms(1) Suc.prems(1) pl Suc.prems(2)])
  then show ?case unfolding parseline.simps
  proof (rule yields_pbind)
    fix c0 m0 assume m0: "i \<le> m0" "m0 \<le> length s" "cmd_ok s c0"
    obtain c m where pb: "parseback s c0 m0 = (c, m)" by fastforce
    have m: "m0 \<le> m" "m \<le> length s" "cmd_ok s c" using parseback_le[OF m0(2,3) pb] by auto
    obtain b j where p: "peek s m '';'' = (b, j)" by fastforce
    obtain tok q e k where g: "gettoken s j = (tok, q, e, k)" by (metis prod_cases4)
    have j: "m \<le> j" "j \<le> length s" using peek_le[OF p m(2)] by auto
    have k: "k \<le> length s" using gettoken_le[OF g j(2)] by auto
    have "yields s i (cmd_ok s) (pbind (parseline n s k) (\<lambda>right i. Parsed (LIST c right) i))" if b
    proof -
      have "m < k" using peek_token_b[OF p that g] by simp
      then have "yields s k (cmd_ok s) (parseline n s k)" using pl k m m0 by auto
      then have "yields s i (cmd_ok s) (parseline n s k)" by (rule yields_mono) (use \<open>m < k\<close> m m0 in auto)
      then show ?thesis using m(3) by (auto intro: yields_pbind)
    qed
    then show "yields s i (cmd_ok s) (case parseback s c0 m0 of (cmd, i) \<Rightarrow>
         case peek s i '';'' of (b, i) \<Rightarrow>
           if b then (case gettoken s i of (_, _, _, i) \<Rightarrow> pbind (parseline n s i) (\<lambda>right i. Parsed (LIST cmd right) i))
           else Parsed cmd i)" using pb p g m m0 j by auto
  qed
qed simp

section \<open>The words become strings\<close>

lemma fold_nul:
  "length (fold (\<lambda>(q, e) buf. buf[e := NUL]) ws buf) = length buf \<and>
   (k < length buf \<longrightarrow> fold (\<lambda>(q, e) buf. buf[e := NUL]) ws buf ! k = (if k \<in> snd ` set ws then NUL else buf ! k))"
  by (induction ws arbitrary: buf) (force simp: nth_list_update)+

lemma nulterminate_nth:
  "length (nulterminate c buf) = length buf \<and>
   (k < length buf \<longrightarrow> nulterminate c buf ! k = (if k \<in> snd ` set_cmd c then NUL else buf ! k))"
proof (induction c arbitrary: buf)
  case (EXEC ws)
  then show ?case using fold_nul[of ws buf k] by simp
next
  case (REDIR c f mode fd)
  then show ?case by (cases "k = snd f") (simp_all add: nth_list_update image_Un)
qed (simp_all add: image_Un)

lemma nulterminate_word:
  assumes "cmd_ok s c" "w \<in> set_cmd c"
  shows "str_at (nulterminate c (s @ [NUL])) (fst w) = word_at s w"
proof -
  obtain q e where w: "w = (q, e)" by fastforce
  let ?b = "nulterminate c (s @ [NUL])"
  have tok: "q < e" "e \<le> length s" "\<forall>k\<in>{q..<e}. word_char (ch s k)" using assms w by (auto simp: cmd_ok_def)
  have ends: "\<not> word_char (ch s k)" if "k \<in> snd ` set_cmd c" for k using assms(1) that by (force simp: cmd_ok_def)
  have len: "length ?b = Suc (length s)" using nulterminate_nth[of c "s @ [NUL]" 0] by simp
  have in_word: "?b ! k = s ! k \<and> s ! k \<noteq> NUL" if "q \<le> k" "k < e" for k
  proof -
    have "word_char (ch s k)" using tok that by simp
    then show ?thesis using ends[of k] nulterminate_nth[of c "s @ [NUL]" k] tok that
      by (auto simp: nth_append ch_def word_char_def)
  qed
  have at_end: "?b ! e = NUL" using nulterminate_nth[of c "s @ [NUL]" e] assms(2) w tok by force
  have "str_at ?b q = take (e - q) (drop q ?b)"
    unfolding str_at_def by (rule takeWhile_eq_take_P_nth) (use in_word at_end tok len in auto)
  also have "\<dots> = take (e - q) (drop q s)" by (rule nth_equalityI) (use in_word tok len in auto)
  finally show ?thesis using w by (simp add: word_at_def)
qed

text \<open>
  C26. The shell's parser returns on every line, within the fuel \<^verbatim>\<open>parsecmd\<close> gives it: it panics with a message, or it has consumed the whole
  line, no command has more arguments than \<^verbatim>\<open>argv\<close> has room for beside the terminating 0, every argument and file name is a word of
  the line, a maximal run of characters other than blanks and symbols, and after \<^verbatim>\<open>nulterminate\<close> the strings that start there are
  exactly those words, although the NULs are written into the line the words share.
\<close>

theorem parsecmd_safe:
  assumes "NUL \<notin> set s"
  shows "case parsecmd s of
      Parsed (c, buf) j \<Rightarrow> j = length s \<and> args_fit c \<and> (\<forall>w\<in>set_cmd c. is_token s w \<and> str_at buf (fst w) = word_at s w)
    | Failed msg \<Rightarrow> True
    | Stuck \<Rightarrow> False"
proof (cases "parseline (Suc (length s)) s 0")
  case (Parsed c i)
  have "yields s 0 (cmd_ok s) (parseline (Suc (length s)) s 0)" by (rule parseline_yields[OF assms]) simp_all
  then have ok: "cmd_ok s c" unfolding Parsed by simp
  obtain b j where p: "peek s i [] = (b, j)" by fastforce
  show ?thesis using Parsed p ok nulterminate_word[OF ok] by (auto simp: parsecmd_def cmd_ok_def)
next
  case Stuck
  have "yields s 0 (cmd_ok s) (parseline (Suc (length s)) s 0)" by (rule parseline_yields[OF assms]) simp_all
  then show ?thesis unfolding Stuck by simp
qed (simp add: parsecmd_def)

theorem parsecmd_safe_witness:
  "parsecmd ''ls >f'' = Parsed (REDIR (EXEC [(0, 2)]) (4, 5) 0x601 1, ''ls'' @ [NUL] @ ''>f'' @ [NUL]) 5
    \<and> str_at (''ls'' @ [NUL] @ ''>f'' @ [NUL]) 4 = word_at ''ls >f'' (4, 5) \<and> parsecmd ''ls >f'' \<noteq> Stuck"
proof -
  have "parsecmd ''ls >f'' = Parsed (REDIR (EXEC [(0, 2)]) (4, 5) 0x601 1, ''ls'' @ [NUL] @ ''>f'' @ [NUL]) 5" by code_simp
  then show ?thesis using parsecmd_safe[of "''ls >f''"] by simp
qed

end
