(* ===== verification/Ushprint.thy ===== *)
theory Ushprint
  imports Ushparse
begin

text \<open>Printing a tree of commands, with parentheses around the commands that need them, and parsing it again.\<close>

section \<open>Printing\<close>

definition good_word :: "string \<Rightarrow> bool" where
  "good_word w \<longleftrightarrow> w \<noteq> [] \<and> (\<forall>c\<in>set w. word_char c)"

fun redir_ok :: "string \<times> int \<times> int \<Rightarrow> bool" where
  "redir_ok (f, mode, fd) \<longleftrightarrow> good_word f \<and>
     (mode, fd) \<in> {(o_rdonly, 0), (o_wronly OR o_create OR o_trunc, 1), (o_wronly OR o_create, 1)}"

primrec tree_ok :: "string cmd \<Rightarrow> bool" where
  "tree_ok (EXEC ws) \<longleftrightarrow> length ws < MAXARGS \<and> (\<forall>w\<in>set ws. good_word w)"
| "tree_ok (REDIR c f mode fd) \<longleftrightarrow> tree_ok c \<and> redir_ok (f, mode, fd)"
| "tree_ok (PIPE l r) \<longleftrightarrow> tree_ok l \<and> tree_ok r"
| "tree_ok (LIST l r) \<longleftrightarrow> tree_ok l \<and> tree_ok r"
| "tree_ok (BACK c) \<longleftrightarrow> tree_ok c"

fun simple :: "'w cmd \<Rightarrow> bool" where
  "simple (EXEC ws) \<longleftrightarrow> True"
| "simple (REDIR c f mode fd) \<longleftrightarrow> True"
| "simple c \<longleftrightarrow> False"

definition show_words :: "string list \<Rightarrow> string" where
  "show_words ws = concat (map (\<lambda>w. w @ '' '') ws)"

definition redir_symbol :: "int \<Rightarrow> string" where
  "redir_symbol mode = (if mode = o_rdonly then ''<'' else if mode = (o_wronly OR o_create OR o_trunc) then ''>'' else ''>>'')"

fun show_redir :: "string \<times> int \<times> int \<Rightarrow> string" where
  "show_redir (f, mode, fd) = redir_symbol mode @ f @ '' ''"

definition parens :: "'w cmd \<Rightarrow> string \<Rightarrow> string" where
  "parens c x = (if simple c then x else ''('' @ x @ '')'')"

primrec show_cmd :: "string cmd \<Rightarrow> string" where
  "show_cmd (EXEC ws) = show_words ws"
| "show_cmd (REDIR c f mode fd) = parens c (show_cmd c) @ show_redir (f, mode, fd)"
| "show_cmd (PIPE l r) = parens l (show_cmd l) @ ''|'' @ parens r (show_cmd r)"
| "show_cmd (LIST l r) = parens l (show_cmd l) @ '';'' @ parens r (show_cmd r)"
| "show_cmd (BACK c) = parens c (show_cmd c) @ ''&''"

section \<open>Text at a position\<close>

definition occurs :: "string \<Rightarrow> nat \<Rightarrow> string \<Rightarrow> bool" where
  "occurs s i x \<longleftrightarrow> i + length x \<le> length s \<and> take (length x) (drop i s) = x"

lemma occurs_append: "occurs s i (x @ y) \<longleftrightarrow> occurs s i x \<and> occurs s (i + length x) y"
proof
  assume a: "occurs s i (x @ y)"
  then have "take (length x + length y) (drop i s) = x @ y" by (simp add: occurs_def)
  then have "take (length x) (drop i s) @ take (length y) (drop (i + length x) s) = x @ y"
    by (simp add: take_add add.commute)
  moreover have "length (take (length x) (drop i s)) = length x" using a by (auto simp: occurs_def)
  ultimately have "take (length x) (drop i s) = x" "take (length y) (drop (i + length x) s) = y" by auto
  then show "occurs s i x \<and> occurs s (i + length x) y" using a by (simp add: occurs_def)
qed (auto simp: occurs_def take_add add.commute)

lemma occurs_Nil: "occurs s i [] \<longleftrightarrow> i \<le> length s"
  by (simp add: occurs_def)

lemma occurs_nth: "occurs s i x \<Longrightarrow> k < length x \<Longrightarrow> ch s (i + k) = x ! k"
  unfolding occurs_def ch_def by (metis add_less_cancel_left le_add1 less_le_trans nth_drop nth_take order_trans)

lemma occurs_word_at: "occurs s i x \<Longrightarrow> word_at s (i, i + length x) = x"
  by (simp add: occurs_def word_at_def)

lemma occurs_hd: "occurs s i (c # x) \<Longrightarrow> ch s i = c"
  using occurs_nth[of s i "c # x" 0] by simp

lemma occurs_whole: "occurs s 0 s"
  by (simp add: occurs_def)

lemma skip_ws_id: "ch s i \<notin> set whitespace \<Longrightarrow> skip_ws s i = i"
  by (subst skip_ws.simps) simp

lemma skip_ws_blank:
  assumes "ch s i = CHR '' ''" "ch s (Suc i) \<notin> set whitespace"
  shows "skip_ws s i = Suc i"
proof -
  have "i < length s" using assms(1) ch_less[of s i] by simp
  then show ?thesis using assms skip_ws_id[of s "Suc i"] by (subst skip_ws.simps) (simp add: whitespace_def)
qed

lemma word_end_stop: "ch s i \<in> set whitespace \<Longrightarrow> word_end s i = i"
  by (subst word_end.simps) simp

lemma word_end_step: "word_char (ch s i) \<Longrightarrow> word_end s i = word_end s (Suc i)"
proof -
  assume w: "word_char (ch s i)"
  then have "i < length s" using ch_less[of s i] by (auto simp: word_char_def)
  then show ?thesis using w by (subst word_end.simps) (simp add: word_char_def)
qed

lemma word_end_run: "\<forall>k<n. word_char (ch s (i + k)) \<Longrightarrow> ch s (i + n) \<in> set whitespace \<Longrightarrow> word_end s i = i + n"
proof (induction n arbitrary: i)
  case 0
  then show ?case by (simp add: word_end_stop)
next
  case (Suc n)
  have "word_char (ch s i)" using Suc.prems(1)[rule_format, of 0] by simp
  then have "word_end s i = word_end s (Suc i)" by (rule word_end_step)
  moreover have "word_end s (Suc i) = Suc i + n"
  proof (rule Suc.IH)
    show "\<forall>k<n. word_char (ch s (Suc i + k))" using Suc.prems(1) by (metis Suc_less_eq add_Suc_shift)
    show "ch s (Suc i + n) \<in> set whitespace" using Suc.prems(2) by simp
  qed
  ultimately show ?case by simp
qed

lemma gettoken_at_word:
  assumes "occurs s i (w @ '' '')" "good_word w" "ch s (i + length w + 1) \<notin> set whitespace"
  shows "gettoken s i = (CHR ''a'', i, i + length w, i + length w + 1)"
proof -
  have o: "occurs s i w" "ch s (i + length w) = CHR '' ''"
    using assms(1) occurs_hd[of s "i + length w" "CHR '' ''" "[]"] by (auto simp: occurs_append)
  have wc: "\<forall>k<length w. word_char (ch s (i + k))" using assms(2) occurs_nth[OF o(1)] by (auto simp: good_word_def)
  then have c: "word_char (ch s i)" using assms(2) by (metis add_0_right good_word_def length_greater_0_conv)
  have "word_end s i = i + length w" using wc o(2) by (intro word_end_run) (auto simp: whitespace_def)
  moreover have "skip_ws s i = i" using c by (intro skip_ws_id) (simp add: word_char_def)
  moreover have "skip_ws s (i + length w) = i + length w + 1" using skip_ws_blank[OF o(2)] assms(3) by simp
  moreover have "ch s i \<noteq> NUL" "ch s i \<notin> set symbols" using c by (auto simp: word_char_def)
  ultimately show ?thesis by (auto simp: gettoken_def Let_def symbols_cases)
qed

lemma gettoken_at_symbol:
  assumes "ch s i \<in> set ''|();&<''" "ch s (Suc i) \<notin> set whitespace"
  shows "\<exists>q e. gettoken s i = (ch s i, q, e, Suc i)"
proof -
  have "ch s i \<notin> set whitespace" using assms(1) by (auto simp: whitespace_def)
  then show ?thesis using assms skip_ws_id[of s i] skip_ws_id[of s "Suc i"] by (auto simp: gettoken_def Let_def)
qed

lemma peek_at: "ch s i \<notin> set whitespace \<Longrightarrow> peek s i toks = (ch s i \<noteq> NUL \<and> ch s i \<in> set toks, i)"
  by (simp add: peek_def skip_ws_id)

text \<open>What may follow a simple command, and a line.\<close>

definition stops :: "char \<Rightarrow> bool" where
  "stops c \<longleftrightarrow> c \<in> {NUL, CHR ''|'', CHR '')'', CHR ''&'', CHR '';''}"

lemma stopsD:
  assumes "stops c"
  shows "c \<notin> set whitespace" "c \<notin> set ''<>''" "c \<noteq> CHR ''(''" "c = NUL \<or> c \<in> set ''|)&;''"
  using assms by (auto simp: stops_def whitespace_def)

lemma word_charD:
  assumes "word_char c"
  shows "c \<notin> set whitespace" "c \<notin> set ''<>''" "c \<noteq> CHR ''(''" "c \<noteq> NUL" "c \<notin> set ''|)&;''"
  using assms by (auto simp: word_char_def symbols_def)

section \<open>Redirections\<close>

definition wrap :: "'w cmd \<Rightarrow> 'w \<times> int \<times> int \<Rightarrow> 'w cmd" where
  "wrap c r = (case r of (f, mode, fd) \<Rightarrow> REDIR c f mode fd)"

definition redir_at :: "string \<Rightarrow> word_pos \<times> int \<times> int \<Rightarrow> string \<times> int \<times> int" where
  "redir_at s r = (case r of (f, mode, fd) \<Rightarrow> (word_at s f, mode, fd))"

definition show_redirs :: "(string \<times> int \<times> int) list \<Rightarrow> string" where
  "show_redirs rs = concat (map show_redir rs)"

lemma show_redirs_simps [simp]: "show_redirs [] = []" "show_redirs (r # rs) = show_redir r @ show_redirs rs"
  by (simp_all add: show_redirs_def)

lemma modes: "o_wronly OR o_create OR o_trunc = 0x601" "o_wronly OR o_create = 0x201" "o_rdonly = 0"
  by (simp_all add: o_wronly_def o_create_def o_trunc_def o_rdonly_def)

lemma show_redir_hd: "show_redir r \<noteq> [] \<and> hd (show_redir r) \<in> set ''<>''"
  by (cases r) (auto simp: redir_symbol_def)

lemma redirs_start:
  assumes "occurs s i (show_redirs rs)" "stops (ch s (i + length (show_redirs rs)))"
  shows "ch s i \<notin> set whitespace \<and> (ch s i \<in> set ''<>'' \<longleftrightarrow> rs \<noteq> [])"
proof (cases rs)
  case (Cons r rs')
  then have "ch s i = hd (show_redir r)"
    using assms(1) show_redir_hd[of r] occurs_hd[of s i "hd (show_redir r)" "tl (show_redir r)"] by (simp add: occurs_append)
  then show ?thesis using Cons show_redir_hd[of r] by (auto simp: whitespace_def)
qed (use assms stopsD in auto)

lemma word_start:
  assumes "occurs s i (w @ x)" "good_word w"
  shows "word_char (ch s i)"
  using assms occurs_nth[of s i w 0] by (auto simp: occurs_append good_word_def)

text \<open>The two tokens of a redirection.\<close>

lemma gettoken_at_redir:
  assumes "occurs s i (redir_symbol mode)" "redir_ok (f, mode, fd)" "word_char (ch s (i + length (redir_symbol mode)))"
  shows "\<exists>tok q e. gettoken s i = (tok, q, e, i + length (redir_symbol mode)) \<and> (\<forall>c w. redir tok c w = REDIR c w mode fd)"
proof -
  note w = word_charD[OF assms(3)]
  consider "mode = 0 \<and> fd = 0" | "mode = 0x601 \<and> fd = 1" | "mode = 0x201 \<and> fd = 1" using assms(2) by (auto simp: modes)
  then show ?thesis
  proof cases
    case 1
    then have "ch s i = CHR ''<''" "redir_symbol mode = ''<''" using assms(1) occurs_hd[of s i] by (auto simp: redir_symbol_def modes)
    then show ?thesis using gettoken_at_symbol[of s i] w 1 by (auto simp: redir_def modes)
  next
    case 2
    then have c: "ch s i = CHR ''>''" "redir_symbol mode = ''>''" using assms(1) occurs_hd[of s i] by (auto simp: redir_symbol_def modes)
    then have "skip_ws s i = i" by (intro skip_ws_id) (simp add: whitespace_def)
    then show ?thesis using c w skip_ws_id[of s "Suc i"] 2 by (auto simp: gettoken_def Let_def redir_def modes)
  next
    case 3
    then have r: "redir_symbol mode = ''>>''" by (simp add: redir_symbol_def modes)
    have c: "ch s i = CHR ''>''" "ch s (Suc i) = CHR ''>''" using assms(1) occurs_nth[of s i "''>>''" 0] occurs_nth[of s i "''>>''" 1] unfolding r by auto
    then have "skip_ws s i = i" by (intro skip_ws_id) (simp add: whitespace_def)
    then show ?thesis using c w skip_ws_id[of s "Suc (Suc i)"] 3 r by (auto simp: gettoken_def Let_def redir_def modes)
  qed
qed

lemma parseredirs_none: "ch s i \<notin> set whitespace \<Longrightarrow> ch s i \<notin> set ''<>'' \<Longrightarrow> parseredirs s c i = Parsed c i"
  by (subst parseredirs.simps) (simp add: peek_at)

lemma parseredirs_show:
  assumes "occurs s i (show_redirs rs)" "stops (ch s (i + length (show_redirs rs)))" "\<forall>r\<in>set rs. redir_ok r"
  shows "\<exists>rs'. parseredirs s c i = Parsed (foldl wrap c rs') (i + length (show_redirs rs)) \<and> map (redir_at s) rs' = rs"
  using assms
proof (induction rs arbitrary: c i)
  case Nil
  then show ?case using parseredirs_none[of s i c] stopsD[of "ch s i"] by simp
next
  case (Cons r rs)
  obtain f mode fd where r: "r = (f, mode, fd)" by (metis prod_cases3)
  let ?k = "i + length (redir_symbol mode)"
  let ?l = "i + length (show_redir r)"
  have o: "occurs s i (redir_symbol mode)" "occurs s ?k (f @ '' '')" "occurs s ?l (show_redirs rs)"
    using Cons.prems(1) occurs_append[of s i "show_redir r" "show_redirs rs"] occurs_append[of s i "redir_symbol mode" "f @ '' ''"] r
    by simp_all
  have stop: "stops (ch s (?l + length (show_redirs rs)))" using Cons.prems(2) by (simp add: add.assoc)
  have ok: "good_word f" "redir_ok (f, mode, fd)" using Cons.prems(3) r by auto
  have l: "?l = ?k + length f + 1" using r by simp
  obtain tok q0 e0 where t1: "gettoken s i = (tok, q0, e0, ?k)" "\<forall>c w. redir tok c w = REDIR c w mode fd"
    using gettoken_at_redir[OF o(1) ok(2) word_start[OF o(2) ok(1)]] by blast
  have t2: "gettoken s ?k = (CHR ''a'', ?k, ?k + length f, ?l)"
    using gettoken_at_word[OF o(2) ok(1)] redirs_start[OF o(3) stop] unfolding l by simp
  have p: "peek s i ''<>'' = (True, i)"
    using redirs_start[OF Cons.prems(1,2)] peek_at[of s i "''<>''"] by auto
  obtain rs' where rs': "parseredirs s (REDIR c (?k, ?k + length f) mode fd) ?l = Parsed (foldl wrap (REDIR c (?k, ?k + length f) mode fd) rs') (?l + length (show_redirs rs))"
    "map (redir_at s) rs' = rs" using Cons.IH[OF o(3) stop] Cons.prems(3) by auto
  have "parseredirs s c i = Parsed (foldl wrap c (((?k, ?k + length f), mode, fd) # rs')) (i + length (show_redirs (r # rs)))"
    using p t1 t2 rs'(1) by (subst parseredirs.simps) (simp add: wrap_def add.assoc)
  moreover have "word_at s (?k, ?k + length f) = f" using occurs_word_at[of s ?k f] o(2) occurs_append[of s ?k f "'' ''"] by blast
  then have "map (redir_at s) (((?k, ?k + length f), mode, fd) # rs') = r # rs" using rs'(2) r by (simp add: redir_at_def)
  ultimately show ?case by (intro exI conjI)
qed

section \<open>Simple commands\<close>

lemma show_words_simps [simp]: "show_words [] = []" "show_words (w # ws) = w @ '' '' @ show_words ws"
  by (simp_all add: show_words_def)

lemma parseargs_stop:
  assumes "stops (ch s i)"
  shows "parseargs s c n i = Parsed c i"
proof (cases "ch s i = NUL")
  case True
  have "skip_ws s i = i" using stopsD[OF assms] by (simp add: skip_ws_id)
  then have "gettoken s i = (NUL, i, i, i)" using True by (simp add: gettoken_def)
  then show ?thesis using peek_at[of s i] stopsD(1)[OF assms] True by (subst parseargs.simps) simp
next
  case False
  then show ?thesis using peek_at[of s i] stopsD[OF assms] by (subst parseargs.simps) simp
qed

lemma words_start:
  assumes "occurs s i (show_words ws @ show_redirs rs)" "stops (ch s (i + length (show_words ws @ show_redirs rs)))" "\<forall>w\<in>set ws. good_word w"
  shows "ch s i \<notin> set whitespace" "ws \<noteq> [] \<Longrightarrow> word_char (ch s i)"
proof -
  show w: "word_char (ch s i)" if "ws \<noteq> []"
    using that assms(1,3) word_start[of s i "hd ws" "'' '' @ show_words (tl ws) @ show_redirs rs"] by (cases ws) auto
  show "ch s i \<notin> set whitespace" using w word_charD(1) redirs_start[of s i rs] assms(1,2) by (cases ws) auto
qed

lemma parseargs_show:
  assumes "occurs s i (show_words ws @ show_redirs rs)" "stops (ch s (i + length (show_words ws @ show_redirs rs)))"
    "\<forall>w\<in>set ws. good_word w" "\<forall>r\<in>set rs. redir_ok r" "length vs + length ws < MAXARGS" "ws = [] \<longrightarrow> rs = []"
  shows "\<exists>ws' rs'. parseargs s (EXEC vs) (length vs) i = Parsed (foldl wrap (EXEC (vs @ ws')) rs') (i + length (show_words ws @ show_redirs rs))
    \<and> map (word_at s) ws' = ws \<and> map (redir_at s) rs' = rs"
  using assms
proof (induction ws arbitrary: vs i)
  case Nil
  then show ?case using parseargs_stop[of s i] by simp
next
  case (Cons w ws)
  let ?k = "i + length w + 1" and ?v = "vs @ [(i, i + length w)]"
  have o: "occurs s i (w @ '' '')" "occurs s ?k (show_words ws @ show_redirs rs)"
    using Cons.prems(1) occurs_append[of s i "w @ '' ''" "show_words ws @ show_redirs rs"] by simp_all
  have len: "i + length (show_words (w # ws) @ show_redirs rs) = ?k + length (show_words ws @ show_redirs rs)" by simp
  have stop: "stops (ch s (?k + length (show_words ws @ show_redirs rs)))" using Cons.prems(2) unfolding len .
  have good: "good_word w" "\<forall>w\<in>set ws. good_word w" using Cons.prems(3) by auto
  note st = words_start[OF o(2) stop good(2)]
  have tok: "gettoken s i = (CHR ''a'', i, i + length w, ?k)" by (rule gettoken_at_word[OF o(1) good(1) st(1)])
  have sl: "word_at s (i, i + length w) = w" using occurs_word_at[of s i w] o(1) occurs_append[of s i w "'' ''"] by blast
  have wc: "word_char (ch s i)" by (rule word_start[OF o(1) good(1)])
  have step: "parseargs s (EXEC vs) (length vs) i =
      pbind (parseredirs s (EXEC ?v) ?k) (\<lambda>ret i. parseargs s ret (Suc (length vs)) i)"
    using tok wc word_charD[OF wc] peek_at[of s i] Cons.prems(5) by (subst parseargs.simps) simp
  show ?case
  proof (cases ws)
    case Nil
    obtain rs' where rs': "parseredirs s (EXEC ?v) ?k = Parsed (foldl wrap (EXEC ?v) rs') (?k + length (show_redirs rs))" "map (redir_at s) rs' = rs"
      using parseredirs_show[of s ?k rs "EXEC ?v"] o(2) stop Cons.prems(4) Nil by auto
    have "parseargs s (EXEC vs) (length vs) i = Parsed (foldl wrap (EXEC (vs @ [(i, i + length w)])) rs') (?k + length (show_redirs rs))"
      unfolding step rs'(1) using parseargs_stop[of s "?k + length (show_redirs rs)"] stop Nil by simp
    then show ?thesis using rs'(2) sl Nil by (intro exI[of _ "[(i, i + length w)]"] exI[of _ rs']) simp
  next
    case (Cons w2 ws2)
    then have "word_char (ch s ?k)" using st(2) by simp
    then have r: "parseredirs s (EXEC ?v) ?k = Parsed (EXEC ?v) ?k" using parseredirs_none word_charD(1,2) by blast
    obtain ws' rs' where IH: "parseargs s (EXEC ?v) (length ?v) ?k = Parsed (foldl wrap (EXEC (?v @ ws')) rs') (?k + length (show_words ws @ show_redirs rs))"
      "map (word_at s) ws' = ws" "map (redir_at s) rs' = rs"
      using Cons.IH[OF o(2) stop good(2) Cons.prems(4), of ?v] Cons.prems(5) Cons by auto
    have "parseargs s (EXEC vs) (length vs) i = Parsed (foldl wrap (EXEC (vs @ (i, i + length w) # ws')) rs') (?k + length (show_words ws @ show_redirs rs))"
      unfolding step r using IH(1) by simp
    then show ?thesis unfolding len using IH(2,3) sl by (intro exI[of _ "(i, i + length w) # ws'"] exI[of _ rs']) simp
  qed
qed

section \<open>Commands in general\<close>

text \<open>A command in its parentheses, followed by redirections, where \<^verbatim>\<open>parseexec\<close> is called; a line, where \<^verbatim>\<open>parseline\<close> is.\<close>

definition block_text :: "string cmd \<Rightarrow> string" where
  "block_text c = parens c (show_cmd c)"

definition block_parsed :: "string cmd \<Rightarrow> bool" where
  "block_parsed c \<longleftrightarrow> (\<forall>s i n rs. occurs s i (block_text c @ show_redirs rs) \<and> stops (ch s (i + length (block_text c @ show_redirs rs)))
     \<and> (\<forall>r\<in>set rs. redir_ok r) \<and> length s - i \<le> n \<longrightarrow>
     (\<exists>c' rs'. parseexec (parseline n s) s i = Parsed (foldl wrap c' rs') (i + length (block_text c @ show_redirs rs))
        \<and> map_cmd (word_at s) c' = c \<and> map (redir_at s) rs' = rs))"

definition line_stops :: "char \<Rightarrow> bool" where
  "line_stops c \<longleftrightarrow> c = NUL \<or> c = CHR '')''"

definition line_parsed :: "string cmd \<Rightarrow> string \<Rightarrow> bool" where
  "line_parsed c x \<longleftrightarrow> (\<forall>s i n. occurs s i x \<and> line_stops (ch s (i + length x)) \<and> length s - i < n \<longrightarrow>
     (\<exists>c'. parseline n s i = Parsed c' (i + length x) \<and> map_cmd (word_at s) c' = c))"

lemma line_parsedD:
  assumes "line_parsed c x" "occurs s i x" "line_stops (ch s (i + length x))" "length s - i < n"
  shows "\<exists>c'. parseline n s i = Parsed c' (i + length x) \<and> map_cmd (word_at s) c' = c"
  by (rule assms(1)[unfolded line_parsed_def, rule_format]) (use assms(2-4) in blast)

lemma line_stopsD:
  assumes "line_stops c"
  shows "stops c" "c \<notin> set whitespace" "c \<notin> set ''|''" "c \<notin> set ''&''" "c \<notin> set '';''"
  using assms by (auto simp: line_stops_def stops_def whitespace_def)

lemma show_start: "tree_ok c \<Longrightarrow> show_cmd c = [] \<or> hd (show_cmd c) \<notin> set whitespace"
proof (induction c)
  case (EXEC ws)
  then show ?case using word_charD(1) by (cases ws) (auto simp: good_word_def)
next
  case (REDIR c f mode fd)
  then show ?case using show_redir_hd[of "(f, mode, fd)"] by (auto simp: parens_def hd_append whitespace_def)
qed (auto simp: parens_def hd_append whitespace_def)

lemma block_start: "tree_ok c \<Longrightarrow> block_text c = [] \<or> hd (block_text c) \<notin> set whitespace"
  using show_start[of c] by (auto simp: block_text_def parens_def whitespace_def)

lemma text_start:
  assumes "occurs s i x" "x = [] \<or> hd x \<notin> set whitespace" "ch s (i + length x) \<notin> set whitespace"
  shows "ch s i \<notin> set whitespace"
  using assms occurs_hd[of s i "hd x" "tl x"] by (cases x) auto

lemma block_parsed_redirs:
  assumes "block_parsed c" "occurs s i (block_text c @ show_redirs rs)" "stops (ch s (i + length (block_text c @ show_redirs rs)))"
    "\<forall>r\<in>set rs. redir_ok r" "length s - i \<le> n"
  shows "\<exists>c' rs'. parseexec (parseline n s) s i = Parsed (foldl wrap c' rs') (i + length (block_text c @ show_redirs rs))
        \<and> map_cmd (word_at s) c' = c \<and> map (redir_at s) rs' = rs"
  by (rule assms(1)[unfolded block_parsed_def, rule_format]) (use assms(2-5) in blast)

lemma block_parsedD:
  assumes "block_parsed c" "occurs s i (block_text c)" "stops (ch s (i + length (block_text c)))" "length s - i \<le> n"
  shows "\<exists>c'. parseexec (parseline n s) s i = Parsed c' (i + length (block_text c)) \<and> map_cmd (word_at s) c' = c"
proof -
  show ?thesis using block_parsed_redirs[OF assms(1), of s i "[]" n] assms(2-4) by auto
qed

lemma parseback_none: "ch s i \<notin> set whitespace \<Longrightarrow> ch s i \<noteq> CHR ''&'' \<Longrightarrow> parseback s c i = (c, i)"
  by (subst parseback.simps) (simp add: peek_at)

text \<open>A line of one block.\<close>

lemma block_line:
  assumes "block_parsed c"
  shows "line_parsed c (block_text c)"
  unfolding line_parsed_def
proof (intro allI impI)
  fix s i n assume a: "occurs s i (block_text c) \<and> line_stops (ch s (i + length (block_text c))) \<and> length s - i < n"
  then obtain m where n: "n = Suc m" "length s - i \<le> m" by (cases n) auto
  note st = line_stopsD[of "ch s (i + length (block_text c))"]
  obtain c' where "parseexec (parseline m s) s i = Parsed c' (i + length (block_text c))" "map_cmd (word_at s) c' = c"
    using block_parsedD[OF assms _ _ n(2)] a st by blast
  then show "\<exists>c'. parseline n s i = Parsed c' (i + length (block_text c)) \<and> map_cmd (word_at s) c' = c"
    using a st n by (simp add: peek_at parseback_none)
qed

lemma block_exec:
  assumes "tree_ok (EXEC ws)"
  shows "block_parsed (EXEC ws)"
  unfolding block_parsed_def
proof (intro allI impI)
  fix s i n rs
  let ?x = "block_text (EXEC ws) @ show_redirs rs"
  assume a: "occurs s i ?x \<and> stops (ch s (i + length ?x)) \<and> (\<forall>r\<in>set rs. redir_ok r) \<and> length s - i \<le> n"
  have x: "?x = show_words ws @ show_redirs rs" by (simp add: block_text_def parens_def)
  have ws: "\<forall>w\<in>set ws. good_word w" "length ws < MAXARGS" using assms by auto
  have a: "occurs s i (show_words ws @ show_redirs rs)" "stops (ch s (i + length (show_words ws @ show_redirs rs)))" "\<forall>r\<in>set rs. redir_ok r"
    using a unfolding x by auto
  note st = words_start[OF a(1,2) ws(1)]
  have "ch s i \<noteq> CHR ''(''"
    using st(2) word_charD(3)[of "ch s i"] a(1,2) redirs_start[of s i rs] stopsD(3)[of "ch s i"] show_redir_hd by (cases ws; cases rs) auto
  then have e: "parseexec (parseline n s) s i = pbind (parseredirs s (EXEC []) i) (\<lambda>ret i. parseargs s ret 0 i)"
    using st(1) by (simp add: parseexec_def peek_at)
  have "\<exists>ws' rs'. parseexec (parseline n s) s i = Parsed (foldl wrap (EXEC ws') rs') (i + length (show_words ws @ show_redirs rs))
      \<and> map (word_at s) ws' = ws \<and> map (redir_at s) rs' = rs"
  proof (cases ws)
    case Nil
    obtain rs' where "parseredirs s (EXEC []) i = Parsed (foldl wrap (EXEC []) rs') (i + length (show_redirs rs))" "map (redir_at s) rs' = rs"
      using parseredirs_show[of s i rs "EXEC []"] a Nil by auto
    then show ?thesis unfolding e using parseargs_stop[of s "i + length (show_redirs rs)"] a(2) Nil by auto
  next
    case (Cons w ws2)
    then have "parseredirs s (EXEC []) i = Parsed (EXEC []) i" using st word_charD(1,2)[of "ch s i"] parseredirs_none by blast
    then show ?thesis unfolding e using parseargs_show[OF a(1,2) ws(1) a(3), of "[]"] ws(2) Cons by simp
  qed
  then show "\<exists>c' rs'. parseexec (parseline n s) s i = Parsed (foldl wrap c' rs') (i + length ?x)
        \<and> map_cmd (word_at s) c' = EXEC ws \<and> map (redir_at s) rs' = rs" unfolding x by (metis cmd.map(1))
qed

lemma block_redir:
  assumes "block_parsed c" "redir_ok (f, mode, fd)"
  shows "block_parsed (REDIR c f mode fd)"
  unfolding block_parsed_def
proof (intro allI impI)
  fix s i n rs
  let ?x = "block_text (REDIR c f mode fd) @ show_redirs rs"
  let ?rs = "(f, mode, fd) # rs"
  assume a: "occurs s i ?x \<and> stops (ch s (i + length ?x)) \<and> (\<forall>r\<in>set rs. redir_ok r) \<and> length s - i \<le> n"
  have x: "?x = block_text c @ show_redirs ?rs" by (simp add: block_text_def parens_def)
  have rs: "\<forall>r\<in>set ?rs. redir_ok r" using a assms(2) by auto
  have fuel: "length s - i \<le> n" using a by blast
  from block_parsed_redirs[OF assms(1) a[unfolded x, THEN conjunct1] a[unfolded x, THEN conjunct2, THEN conjunct1] rs fuel]
  obtain c' rs' where p: "parseexec (parseline n s) s i = Parsed (foldl wrap c' rs') (i + length ?x)"
    "map_cmd (word_at s) c' = c" "map (redir_at s) rs' = ?rs" unfolding x by (elim exE conjE)
  then obtain r rs2 where r: "rs' = r # rs2" "redir_at s r = (f, mode, fd)" "map (redir_at s) rs2 = rs" by auto
  obtain g where "r = (g, mode, fd)" "word_at s g = f" using r(2) by (cases r) (auto simp: redir_at_def)
  then have "map_cmd (word_at s) (wrap c' r) = REDIR c f mode fd" using p(2) by (simp add: wrap_def)
  then show "\<exists>c' rs'. parseexec (parseline n s) s i = Parsed (foldl wrap c' rs') (i + length ?x)
        \<and> map_cmd (word_at s) c' = REDIR c f mode fd \<and> map (redir_at s) rs' = rs"
    using p(1) r by (intro exI[of _ "wrap c' r"] exI[of _ rs2]) simp
qed

lemma block_line_block:
  assumes "line_parsed c (show_cmd c)" "\<not> simple c" "tree_ok c"
  shows "block_parsed c"
  unfolding block_parsed_def
proof (intro allI impI)
  fix s i n rs
  let ?x = "block_text c @ show_redirs rs"
  let ?j = "Suc i + length (show_cmd c)"
  assume "occurs s i ?x \<and> stops (ch s (i + length ?x)) \<and> (\<forall>r\<in>set rs. redir_ok r) \<and> length s - i \<le> n"
  then have a: "occurs s i (''('' @ (show_cmd c @ '')'') @ show_redirs rs)" "stops (ch s (i + length ?x))" "\<forall>r\<in>set rs. redir_ok r" "length s - i \<le> n"
    using assms(2) by (auto simp: block_text_def parens_def)
  have x: "i + length ?x = Suc ?j + length (show_redirs rs)" using assms(2) by (simp add: block_text_def parens_def)
  have o: "occurs s i ''(''" "occurs s (Suc i) (show_cmd c)" "occurs s ?j '')''" "occurs s (Suc ?j) (show_redirs rs)"
    using a(1) occurs_append[of s i "''(''" "(show_cmd c @ '')'') @ show_redirs rs"]
      occurs_append[of s "Suc i" "show_cmd c @ '')''" "show_redirs rs"] occurs_append[of s "Suc i" "show_cmd c" "'')''"] by simp_all
  have chars: "ch s i = CHR ''(''" "ch s ?j = CHR '')''" using occurs_hd o by blast+
  have blank: "CHR ''('' \<notin> set whitespace" "CHR '')'' \<notin> set whitespace" by (simp_all add: whitespace_def)
  have start: "ch s (Suc i) \<notin> set whitespace" using text_start[OF o(2) show_start[OF assms(3)]] chars blank by simp
  obtain q e where t1: "gettoken s i = (CHR ''('', q, e, Suc i)" using gettoken_at_symbol[of s i] chars start by auto
  have "i < length s" using ch_less[of s i] chars by simp
  then have fuel: "length s - Suc i < n" using a(4) by linarith
  obtain c' where c': "parseline n s (Suc i) = Parsed c' ?j" "map_cmd (word_at s) c' = c"
    using line_parsedD[OF assms(1) o(2) _ fuel] chars(2) unfolding line_stops_def by blast
  have stop: "stops (ch s (Suc ?j + length (show_redirs rs)))" using a(2) unfolding x .
  obtain q2 e2 where t2: "gettoken s ?j = (CHR '')'', q2, e2, Suc ?j)"
    using gettoken_at_symbol[of s ?j] chars redirs_start[OF o(4) stop] by auto
  obtain rs' where rs': "parseredirs s c' (Suc ?j) = Parsed (foldl wrap c' rs') (Suc ?j + length (show_redirs rs))" "map (redir_at s) rs' = rs"
    using parseredirs_show[OF o(4) stop a(3)] by blast
  have "parseexec (parseline n s) s i = Parsed (foldl wrap c' rs') (i + length ?x)"
    unfolding x using t1 t2 c'(1) rs'(1) chars blank by (simp add: parseexec_def parseblock_def peek_at)
  then show "\<exists>c' rs'. parseexec (parseline n s) s i = Parsed (foldl wrap c' rs') (i + length ?x)
        \<and> map_cmd (word_at s) c' = c \<and> map (redir_at s) rs' = rs" using c'(2) rs'(2) by blast
qed

text \<open>The first of two commands with a symbol between them.\<close>

lemma binary_split:
  assumes "occurs s i (x @ [c] @ y)" "line_stops (ch s (i + length (x @ [c] @ y)))" "c \<in> set ''|;&''" "y = [] \<or> hd y \<notin> set whitespace"
  shows "occurs s i x" "ch s (i + length x) = c" "stops c" "c \<notin> set whitespace" "\<exists>q e. gettoken s (i + length x) = (c, q, e, Suc (i + length x))"
    "occurs s (Suc (i + length x)) y" "line_stops (ch s (Suc (i + length x) + length y))" "length s - Suc (i + length x) < length s - i"
proof -
  show o: "occurs s i x" "ch s (i + length x) = c" "occurs s (Suc (i + length x)) y"
    using assms(1) occurs_append[of s i x "[c] @ y"] occurs_append[of s "i + length x" "[c]" y] occurs_hd[of s "i + length x" c] by auto
  show st: "line_stops (ch s (Suc (i + length x) + length y))" using assms(2) by (simp add: add.assoc)
  show "stops c" "c \<notin> set whitespace" using assms(3) by (auto simp: stops_def whitespace_def)
  have "ch s (Suc (i + length x)) \<notin> set whitespace" using text_start[OF o(3) assms(4)] line_stopsD(2)[OF st] by simp
  then show "\<exists>q e. gettoken s (i + length x) = (c, q, e, Suc (i + length x))"
    using gettoken_at_symbol[of s "i + length x"] assms(3) o(2) by auto
  have "c \<noteq> NUL" using assms(3) by auto
  then show "length s - Suc (i + length x) < length s - i" using ch_less[of s "i + length x"] o(2) by simp
qed

lemma line_pipe:
  assumes "block_parsed l" "block_parsed r" "tree_ok r"
  shows "line_parsed (PIPE l r) (show_cmd (PIPE l r))"
  unfolding line_parsed_def
proof (intro allI impI)
  fix s i n
  have x: "show_cmd (PIPE l r) = block_text l @ [CHR ''|''] @ block_text r" by (simp add: block_text_def)
  assume a: "occurs s i (show_cmd (PIPE l r)) \<and> line_stops (ch s (i + length (show_cmd (PIPE l r)))) \<and> length s - i < n"
  let ?j = "i + length (block_text l)" and ?k = "Suc (i + length (block_text l)) + length (block_text r)"
  note B = binary_split[OF a[unfolded x, THEN conjunct1] a[unfolded x, THEN conjunct2, THEN conjunct1] _ block_start[OF assms(3)], simplified]
  obtain m where n: "n = Suc (Suc m)" "length s - i \<le> Suc m" using a B(8) by (cases n; cases "n - 1") auto
  obtain l' where l': "parseexec (parseline (Suc m) s) s i = Parsed l' ?j" "map_cmd (word_at s) l' = l"
    using block_parsedD[OF assms(1) B(1) _ n(2)] B(2,3) by auto
  obtain r' where r': "parseexec (parseline (Suc m) s) s (Suc ?j) = Parsed r' ?k" "map_cmd (word_at s) r' = r"
    using block_parsedD[OF assms(2) B(6), of "Suc m"] line_stopsD(1)[OF B(7)] B(8) n(2) by auto
  obtain q e where t: "gettoken s ?j = (CHR ''|'', q, e, Suc ?j)" using B(5) by blast
  note st = line_stopsD[OF B(7)]
  have "parseline n s i = Parsed (PIPE l' r') ?k"
    using l'(1) r'(1) t B(2,4) st n(1) by (simp add: peek_at parseback_none)
  then show "\<exists>c'. parseline n s i = Parsed c' (i + length (show_cmd (PIPE l r))) \<and> map_cmd (word_at s) c' = PIPE l r"
    using l'(2) r'(2) unfolding x by (intro exI[of _ "PIPE l' r'"]) simp
qed

lemma line_list:
  assumes "block_parsed l" "block_parsed r" "tree_ok r"
  shows "line_parsed (LIST l r) (show_cmd (LIST l r))"
  unfolding line_parsed_def
proof (intro allI impI)
  fix s i n
  have x: "show_cmd (LIST l r) = block_text l @ [CHR '';''] @ block_text r" by (simp add: block_text_def)
  assume a: "occurs s i (show_cmd (LIST l r)) \<and> line_stops (ch s (i + length (show_cmd (LIST l r)))) \<and> length s - i < n"
  let ?j = "i + length (block_text l)" and ?k = "Suc (i + length (block_text l)) + length (block_text r)"
  note B = binary_split[OF a[unfolded x, THEN conjunct1] a[unfolded x, THEN conjunct2, THEN conjunct1] _ block_start[OF assms(3)], simplified]
  obtain m where n: "n = Suc m" "length s - i \<le> m" using a by (cases n) auto
  obtain l' where l': "parseexec (parseline m s) s i = Parsed l' ?j" "map_cmd (word_at s) l' = l"
    using block_parsedD[OF assms(1) B(1) _ n(2)] B(2,3) by auto
  obtain r' where r': "parseline m s (Suc ?j) = Parsed r' ?k" "map_cmd (word_at s) r' = r"
    using line_parsedD[OF block_line[OF assms(2)] B(6), of m] B(7,8) n(2) by auto
  obtain q e where t: "gettoken s ?j = (CHR '';'', q, e, Suc ?j)" using B(5) by blast
  have "parseline n s i = Parsed (LIST l' r') ?k"
    using l'(1) r'(1) t B(2,4) n(1) by (simp add: peek_at parseback_none)
  then show "\<exists>c'. parseline n s i = Parsed c' (i + length (show_cmd (LIST l r))) \<and> map_cmd (word_at s) c' = LIST l r"
    using l'(2) r'(2) unfolding x by (intro exI[of _ "LIST l' r'"]) simp
qed

lemma line_back:
  assumes "block_parsed c"
  shows "line_parsed (BACK c) (show_cmd (BACK c))"
  unfolding line_parsed_def
proof (intro allI impI)
  fix s i n
  have x: "show_cmd (BACK c) = block_text c @ [CHR ''&''] @ []" by (simp add: block_text_def)
  assume a: "occurs s i (show_cmd (BACK c)) \<and> line_stops (ch s (i + length (show_cmd (BACK c)))) \<and> length s - i < n"
  let ?j = "i + length (block_text c)"
  note B = binary_split[OF a[unfolded x, THEN conjunct1] a[unfolded x, THEN conjunct2, THEN conjunct1], simplified]
  obtain m where n: "n = Suc m" "length s - i \<le> m" using a by (cases n) auto
  obtain c' where c': "parseexec (parseline m s) s i = Parsed c' ?j" "map_cmd (word_at s) c' = c"
    using block_parsedD[OF assms(1) B(1) _ n(2)] B(2,3) by auto
  obtain q e where t: "gettoken s ?j = (CHR ''&'', q, e, Suc ?j)" using B(5) by blast
  note st = line_stopsD[OF B(7)]
  have "parseback s c' ?j = parseback s (BACK c') (Suc ?j)" using t B(2,4) by (subst parseback.simps) (simp add: peek_at)
  then have "parseback s c' ?j = (BACK c', Suc ?j)" using st by (simp add: parseback_none)
  then have "parseline n s i = Parsed (BACK c') (Suc ?j)"
    using c'(1) B(2,4) st n(1) by (simp add: peek_at)
  then show "\<exists>c'. parseline n s i = Parsed c' (i + length (show_cmd (BACK c))) \<and> map_cmd (word_at s) c' = BACK c"
    using c'(2) unfolding x by (intro exI[of _ "BACK c'"]) simp
qed

lemma show_parsed: "tree_ok c \<Longrightarrow> block_parsed c \<and> line_parsed c (show_cmd c)"
proof (induction c)
  case (EXEC ws)
  then show ?case using block_exec[of ws] block_line[of "EXEC ws"] by (simp add: block_text_def parens_def)
next
  case (REDIR c f mode fd)
  then show ?case using block_redir[of c f mode fd] block_line[of "REDIR c f mode fd"] by (simp add: block_text_def parens_def)
next
  case (PIPE l r)
  then show ?case using line_pipe[of l r] block_line_block[of "PIPE l r"] by simp
next
  case (LIST l r)
  then show ?case using line_list[of l r] block_line_block[of "LIST l r"] by simp
next
  case (BACK c)
  then show ?case using line_back[of c] block_line_block[of "BACK c"] by simp
qed

lemma show_no_nul: "tree_ok c \<Longrightarrow> NUL \<notin> set (show_cmd c)"
proof (induction c)
  case (EXEC ws)
  then show ?case by (auto simp: show_words_def good_word_def word_char_def)
next
  case (REDIR c f mode fd)
  then show ?case by (auto simp: parens_def redir_symbol_def good_word_def word_char_def)
qed (auto simp: parens_def)

text \<open>
  C25. Parsing inverts printing. For every tree of commands, however deeply pipes, lists, background commands, parentheses and redirections are nested,
  whose words are words and whose commands have fewer than \<^verbatim>\<open>MAXARGS\<close> of them, the shell parses its text into a tree of the same
  shape, and the strings that its argument and file pointers denote after \<^verbatim>\<open>nulterminate\<close> are the words of the tree.
\<close>

theorem parse_show_roundtrip:
  assumes "tree_ok c"
  shows "\<exists>c' buf. parsecmd (show_cmd c) = Parsed (c', buf) (length (show_cmd c)) \<and> map_cmd (\<lambda>w. str_at buf (fst w)) c' = c"
proof -
  let ?s = "show_cmd c"
  have e: "ch ?s (0 + length ?s) = NUL" by (simp add: ch_def)
  obtain c' where c': "parseline (Suc (length ?s)) ?s 0 = Parsed c' (length ?s)" "map_cmd (word_at ?s) c' = c"
    using line_parsedD[OF conjunct2[OF show_parsed[OF assms]] occurs_whole, of "Suc (length ?s)"] e by (auto simp: line_stops_def)
  have nul: "NUL \<notin> set ?s" by (rule show_no_nul[OF assms])
  have "yields ?s 0 (cmd_ok ?s) (parseline (Suc (length ?s)) ?s 0)" by (rule parseline_yields[OF nul]) simp_all
  then have ok: "cmd_ok ?s c'" unfolding c'(1) by simp
  let ?buf = "nulterminate c' (?s @ [NUL])"
  have "map_cmd (\<lambda>w. str_at ?buf (fst w)) c' = map_cmd (word_at ?s) c'" by (rule cmd.map_cong0) (rule nulterminate_word[OF ok])
  moreover have "skip_ws ?s (length ?s) = length ?s" using e by (intro skip_ws_id) (simp add: whitespace_def)
  ultimately show ?thesis using c' by (simp add: parsecmd_def peek_def)
qed

theorem parse_show_roundtrip_witness:
  "let c = PIPE (REDIR (EXEC [''a'']) ''f'' 0x601 1) (BACK (LIST (EXEC [''b'']) (EXEC [''c'']))) in
   show_cmd c = ''a >f |((b ;c )&)'' \<and>
   (\<exists>c' buf. parsecmd ''a >f |((b ;c )&)'' = Parsed (c', buf) 16 \<and> map_cmd (\<lambda>w. str_at buf (fst w)) c' = c)"
proof -
  let ?c = "PIPE (REDIR (EXEC [''a'']) ''f'' 0x601 1) (BACK (LIST (EXEC [''b'']) (EXEC [''c''])))"
  have "tree_ok ?c" by code_simp
  moreover have "show_cmd ?c = ''a >f |((b ;c )&)''" by code_simp
  ultimately show ?thesis using parse_show_roundtrip[of ?c] by (simp add: eval_nat_numeral)
qed

end
