(* ===== verification/Ushrun.thy ===== *)
theory Ushrun
  imports Ushprint
begin

text \<open>
  The shell as a whole: the newline at the end of a line does not matter to the parser, and running a tree of commands starts its programs with the
  descriptors the text asks for.
\<close>

section \<open>The newline at the end of a line\<close>

abbreviation newline :: char where "newline \<equiv> CHR 0x0A"

text \<open>The end of the line is one further; the parser stands there instead.\<close>

definition shift :: "string \<Rightarrow> nat \<Rightarrow> nat" where
  "shift s j = (if j = length s then Suc j else j)"

definition near :: "string \<Rightarrow> nat \<Rightarrow> nat \<Rightarrow> bool" where
  "near s i i' \<longleftrightarrow> i \<le> length s \<and> (i' = i \<or> i' = shift s i)"

fun shifted :: "string \<Rightarrow> 'a presult \<Rightarrow> 'a presult" where
  "shifted s (Parsed c j) = Parsed c (shift s j)"
| "shifted s (Failed m) = Failed m"
| "shifted s Stuck = Stuck"

lemma ch_nl: "ch (s @ [newline]) i = (if i = length s then newline else ch s i)"
  by (auto simp: ch_def nth_append)

lemma ch_shift: "ch (s @ [newline]) (shift s j) = ch s j"
proof (cases "j = length s")
  case True
  then show ?thesis by (simp add: shift_def ch_def)
qed (simp add: shift_def ch_nl)

lemma skip_ws_nl:
  assumes "i \<le> length s"
  shows "skip_ws (s @ [newline]) i = shift s (skip_ws s i)"
  using assms
proof (induction s i rule: skip_ws.induct)
  case (1 s i)
  have e: "skip_ws (s @ [newline]) (Suc (length s)) = Suc (length s)" by (subst skip_ws.simps) simp
  consider "i = length s" | "i < length s" "ch s i \<in> set whitespace" | "i < length s" "ch s i \<notin> set whitespace" using 1(2) by linarith
  then show ?case
  proof cases
    case 1
    then have "skip_ws (s @ [newline]) i = Suc i" using e by (subst skip_ws.simps) (simp add: ch_nl whitespace_def)
    moreover have "skip_ws s i = i" using 1 by (subst skip_ws.simps) simp
    ultimately show ?thesis using 1 by (simp add: shift_def)
  next
    case 2
    then have "skip_ws (s @ [newline]) i = skip_ws (s @ [newline]) (Suc i)" by (subst skip_ws.simps) (simp add: ch_nl)
    moreover have "skip_ws s i = skip_ws s (Suc i)" using 2 by (subst skip_ws.simps) simp
    ultimately show ?thesis using 1(1) 2 by simp
  next
    case 3
    then show ?thesis by (simp add: skip_ws_id ch_nl shift_def)
  qed
qed

lemma skip_ws_near:
  assumes "near s i i'"
  shows "skip_ws (s @ [newline]) i' = shift s (skip_ws s i)"
proof (cases "i' = i")
  case False
  then have "i = length s" "i' = Suc (length s)" using assms by (auto simp: near_def shift_def split: if_splits)
  then show ?thesis by (subst skip_ws.simps, subst skip_ws.simps) (simp add: shift_def)
qed (use assms skip_ws_nl in \<open>auto simp: near_def\<close>)

lemma near_shift: "i \<le> length s \<Longrightarrow> near s i (shift s i)" "i \<le> length s \<Longrightarrow> near s i i"
  by (auto simp: near_def)

lemma word_end_nl: "i \<le> length s \<Longrightarrow> word_end (s @ [newline]) i = word_end s i"
proof (induction s i rule: word_end.induct)
  case (1 s i)
  show ?case
  proof (cases "i < length s \<and> ch s i \<notin> set whitespace \<and> ch s i \<notin> set symbols")
    case True
    then have "word_end (s @ [newline]) i = word_end (s @ [newline]) (Suc i)" by (subst word_end.simps) (simp add: ch_nl)
    moreover have "word_end s i = word_end s (Suc i)" using True by (subst word_end.simps) simp
    ultimately show ?thesis using 1(1)[OF True] True by simp
  next
    case False
    then have "word_end s i = i" by (subst word_end.simps) auto
    moreover have "word_end (s @ [newline]) i = i" using False 1(2) by (subst word_end.simps) (auto simp: ch_nl whitespace_def)
    ultimately show ?thesis by simp
  qed
qed

lemma peek_nl: "near s i i' \<Longrightarrow> peek (s @ [newline]) i' toks = map_prod id (shift s) (peek s i toks)"
  by (simp add: peek_def Let_def skip_ws_near ch_shift)

lemma gettoken_nl:
  assumes "near s i i'" "gettoken s i = (tok, q, e, j)"
  shows "\<exists>q' e'. gettoken (s @ [newline]) i' = (tok, q', e', shift s j) \<and> (tok \<noteq> NUL \<longrightarrow> q' = q \<and> e' = e)"
proof -
  let ?q = "skip_ws s i" and ?q' = "shift s (skip_ws s i)"
  have i: "i \<le> length s" using assms(1) by (simp add: near_def)
  have q: "skip_ws (s @ [newline]) i' = ?q'" by (rule skip_ws_near[OF assms(1)])
  show ?thesis
  proof (cases "ch s ?q = NUL")
    case True
    have "skip_ws s ?q = ?q" using True by (intro skip_ws_id) (simp add: whitespace_def)
    moreover have "skip_ws (s @ [newline]) ?q' = ?q'" using True by (intro skip_ws_id) (simp add: ch_shift whitespace_def)
    ultimately show ?thesis using assms(2) q True by (auto simp: gettoken_def Let_def ch_shift)
  next
    case False
    then have lt: "?q < length s" by (rule ch_less)
    then have q': "?q' = ?q" by (simp add: shift_def)
    have c: "ch (s @ [newline]) ?q = ch s ?q" "ch (s @ [newline]) (Suc ?q) = CHR ''>'' \<longleftrightarrow> ch s (Suc ?q) = CHR ''>''"
      using lt by (auto simp: ch_def nth_append)
    have we: "word_end (s @ [newline]) ?q = word_end s ?q" using lt by (simp add: word_end_nl)
    have e: "e \<le> length s" "j = skip_ws s e"
      using assms(2) False lt ch_less[of s "Suc ?q"] word_end_le[of ?q s] by (auto simp: gettoken_def Let_def split: if_splits)
    have "gettoken (s @ [newline]) i' = (tok, q, e, skip_ws (s @ [newline]) e)"
      using assms(2) False unfolding gettoken_def Let_def q q' c we by (auto split: if_splits)
    then show ?thesis using skip_ws_nl[OF e(1)] e(2) by simp
  qed
qed

lemma gettoken_le_length: "gettoken s i = (tok, q, e, j) \<Longrightarrow> i \<le> length s \<Longrightarrow> j \<le> length s"
  using gettoken_le by blast

lemma parseredirs_nl:
  assumes "near s i i'"
  shows "parseredirs (s @ [newline]) c i' = shifted s (parseredirs s c i)"
  using assms
proof (induction s c i arbitrary: i' rule: parseredirs.induct)
  case (1 s c i)
  obtain b j where p: "peek s i ''<>'' = (b, j)" by fastforce
  obtain tok q0 e0 k where g: "gettoken s j = (tok, q0, e0, k)" by (metis prod_cases4)
  obtain t q e l where g2: "gettoken s k = (t, q, e, l)" by (metis prod_cases4)
  have i: "i \<le> length s" using 1(2) by (simp add: near_def)
  have j: "j \<le> length s" using peek_le[OF p i] by simp
  have k: "k \<le> length s" using gettoken_le[OF g j] by simp
  have l: "l \<le> length s" using gettoken_le[OF g2 k] by simp
  have p': "peek (s @ [newline]) i' ''<>'' = (b, shift s j)" using peek_nl[OF 1(2), of "''<>''"] p by simp
  obtain q0' e0' where g': "gettoken (s @ [newline]) (shift s j) = (tok, q0', e0', shift s k)" using gettoken_nl[OF near_shift(1)[OF j] g] by blast
  obtain q' e' where g2': "gettoken (s @ [newline]) (shift s k) = (t, q', e', shift s l)" "t \<noteq> NUL \<longrightarrow> q' = q \<and> e' = e"
    using gettoken_nl[OF near_shift(1)[OF k] g2] by blast
  show ?case
  proof (cases "b \<and> t = CHR ''a''")
    case True
    have "parseredirs (s @ [newline]) (redir tok c (q, e)) (shift s l) = shifted s (parseredirs s (redir tok c (q, e)) l)"
      using 1(1)[OF p[symmetric] _ g[symmetric] refl refl g2[symmetric] refl refl _ near_shift(1)[OF l]] True by simp
    then show ?thesis using True p p' g g' g2 g2' by (subst (1 2) parseredirs.simps) simp
  next
    case False
    then show ?thesis using p p' g g' g2 g2' by (subst (1 2) parseredirs.simps) (auto simp: panic_def)
  qed
qed

lemma parseredirs_le: "parseredirs s c i = Parsed c' j \<Longrightarrow> i \<le> length s \<Longrightarrow> j \<le> length s"
proof (induction s c i rule: parseredirs.induct)
  case (1 s c i)
  obtain b j where p: "peek s i ''<>'' = (b, j)" by fastforce
  obtain tok q0 e0 k where g: "gettoken s j = (tok, q0, e0, k)" by (metis prod_cases4)
  obtain t q e l where g2: "gettoken s k = (t, q, e, l)" by (metis prod_cases4)
  have j: "j \<le> length s" using peek_le[OF p 1(3)] by simp
  have k: "k \<le> length s" using gettoken_le[OF g j] by simp
  have l: "l \<le> length s" using gettoken_le[OF g2 k] by simp
  show ?case using 1(1)[OF p[symmetric] _ g[symmetric] refl refl g2[symmetric] refl refl _ _ l] 1(2) p g g2 j
    by (subst (asm) (2) parseredirs.simps) (auto simp: panic_def split: if_splits)
qed

definition sim :: "string \<Rightarrow> 'a presult \<Rightarrow> 'a presult \<Rightarrow> bool" where
  "sim s r r' \<longleftrightarrow> r' = shifted s r \<and> (\<forall>c j. r = Parsed c j \<longrightarrow> j \<le> length s)"

lemma sim_simps [simp]: "sim s (Parsed c j) (Parsed c (shift s j)) \<longleftrightarrow> j \<le> length s" "sim s (panic m) (panic m)" "sim s (Failed m) (Failed m)" "sim s Stuck Stuck"
  by (auto simp: sim_def panic_def)

lemma sim_bind:
  assumes "sim s m m'" "\<And>c j. m = Parsed c j \<Longrightarrow> j \<le> length s \<Longrightarrow> sim s (f c j) (f' c (shift s j))"
  shows "sim s (pbind m f) (pbind m' f')"
  using assms by (cases m) (auto simp: sim_def)

lemma sim_peek:
  assumes "near s i i'" "\<And>b j. j \<le> length s \<Longrightarrow> sim s (f b j) (f' b (shift s j))"
  shows "sim s (case peek s i toks of (b, j) \<Rightarrow> f b j) (case peek (s @ [newline]) i' toks of (b, j) \<Rightarrow> f' b j)"
proof -
  obtain b j where p: "peek s i toks = (b, j)" by fastforce
  have "j \<le> length s" using peek_le[OF p] assms(1) by (simp add: near_def)
  then show ?thesis using assms(2) peek_nl[OF assms(1), of toks] p by simp
qed

lemma sim_token:
  assumes "j \<le> length s" "\<And>k. k \<le> length s \<Longrightarrow> sim s (f k) (f' (shift s k))"
  shows "sim s (case gettoken s j of (_, _, _, k) \<Rightarrow> f k) (case gettoken (s @ [newline]) (shift s j) of (_, _, _, k) \<Rightarrow> f' k)"
proof -
  obtain tok q e k where g: "gettoken s j = (tok, q, e, k)" by (metis prod_cases4)
  obtain q' e' where g': "gettoken (s @ [newline]) (shift s j) = (tok, q', e', shift s k)" using gettoken_nl[OF near_shift(1)[OF assms(1)] g] by blast
  show ?thesis using g g' assms(2) gettoken_le[OF g assms(1)] by simp
qed

lemma sim_redirs: "near s i i' \<Longrightarrow> sim s (parseredirs s c i) (parseredirs (s @ [newline]) c i')"
  using parseredirs_nl parseredirs_le by (auto simp: sim_def near_def)

lemma sim_args:
  assumes "near s i i'"
  shows "sim s (parseargs s c n i) (parseargs (s @ [newline]) c n i')"
  using assms
proof (induction s c n i arbitrary: i' rule: parseargs.induct)
  case (1 s c n i)
  obtain b j where p: "peek s i ''|)&;'' = (b, j)" by fastforce
  obtain tok q e k where g: "gettoken s j = (tok, q, e, k)" by (metis prod_cases4)
  have j: "j \<le> length s" using peek_le[OF p] 1(2) by (simp add: near_def)
  have k: "k \<le> length s" using gettoken_le[OF g j] by simp
  have p': "peek (s @ [newline]) i' ''|)&;'' = (b, shift s j)" using peek_nl[OF 1(2), of "''|)&;''"] p by simp
  obtain q' e' where g': "gettoken (s @ [newline]) (shift s j) = (tok, q', e', shift s k)" "tok \<noteq> NUL \<longrightarrow> q' = q \<and> e' = e"
    using gettoken_nl[OF near_shift(1)[OF j] g] by blast
  show ?case
  proof (cases "\<not> b \<and> tok = CHR ''a'' \<and> Suc n < MAXARGS")
    case True
    have "sim s (pbind (parseredirs s (add_arg (q, e) c) k) (\<lambda>ret i. parseargs s ret (Suc n) i))
       (pbind (parseredirs (s @ [newline]) (add_arg (q, e) c) (shift s k)) (\<lambda>ret i. parseargs (s @ [newline]) ret (Suc n) i))"
      by (rule sim_bind[OF sim_redirs[OF near_shift(1)[OF k]]])
        (rule 1(1)[OF p[symmetric] _ g[symmetric] refl refl _ _ _ _ near_shift(1)]; use True in simp)
    then show ?thesis using True p p' g g' by (subst (1 2) parseargs.simps) simp
  next
    case False
    then show ?thesis using p p' g g' j k by (subst (1 2) parseargs.simps) auto
  qed
qed

text \<open>A function that parses lines, before and after the newline is put there.\<close>

definition sim_fun :: "string \<Rightarrow> (nat \<Rightarrow> word_pos cmd presult) \<Rightarrow> (nat \<Rightarrow> word_pos cmd presult) \<Rightarrow> bool" where
  "sim_fun s pl pl' \<longleftrightarrow> (\<forall>i i'. near s i i' \<longrightarrow> sim s (pl i) (pl' i'))"

lemma sim_call: "sim_fun s pl pl' \<Longrightarrow> k \<le> length s \<Longrightarrow> sim s (pl k) (pl' (shift s k))"
  using near_shift(1) unfolding sim_fun_def by blast

lemma sim_if: "(b \<Longrightarrow> sim s x x') \<Longrightarrow> (\<not> b \<Longrightarrow> sim s y y') \<Longrightarrow> sim s (if b then x else y) (if b then x' else y')"
  by simp

lemma sim_parsed: "j \<le> length s \<Longrightarrow> sim s (Parsed c j) (Parsed c (shift s j))"
  by simp

lemmas sim_rules = sim_if sim_parsed sim_simps(2) sim_token sim_bind sim_peek sim_redirs sim_args near_shift(1)

lemma sim_block:
  assumes "sim_fun s pl pl'" "near s i i'"
  shows "sim s (parseblock pl s i) (parseblock pl' (s @ [newline]) i')"
  unfolding parseblock_def by (rule sim_peek[OF assms(2)]) (assumption | rule sim_call[OF assms(1)] sim_rules)+

lemma sim_exec:
  assumes "sim_fun s pl pl'" "near s i i'"
  shows "sim s (parseexec pl s i) (parseexec pl' (s @ [newline]) i')"
  unfolding parseexec_def by (rule sim_peek[OF assms(2)]) (assumption | rule sim_block[OF assms(1)] sim_rules)+

lemma sim_pipe:
  assumes "sim_fun s pl pl'" "near s i i'"
  shows "sim s (parsepipe pl n s i) (parsepipe pl' n (s @ [newline]) i')"
  using assms(2)
proof (induction n arbitrary: i i')
  case (Suc n)
  show ?case unfolding parsepipe.simps
    by (rule sim_bind[OF sim_exec[OF assms(1) Suc.prems]]) (assumption | rule Suc.IH sim_rules)+
qed simp

lemma sim_back:
  assumes "near s i i'" "\<And>c j. j \<le> length s \<Longrightarrow> sim s (f c j) (f' c (shift s j))"
  shows "sim s (case parseback s c i of (c, j) \<Rightarrow> f c j) (case parseback (s @ [newline]) c i' of (c, j) \<Rightarrow> f' c j)"
  using assms
proof (induction s c i arbitrary: i' rule: parseback.induct)
  case (1 s c i)
  obtain b j where p: "peek s i ''&'' = (b, j)" by fastforce
  obtain tok q e k where g: "gettoken s j = (tok, q, e, k)" by (metis prod_cases4)
  have j: "j \<le> length s" using peek_le[OF p] 1(2) by (simp add: near_def)
  have k: "k \<le> length s" using gettoken_le[OF g j] by simp
  have p': "peek (s @ [newline]) i' ''&'' = (b, shift s j)" using peek_nl[OF 1(2), of "''&''"] p by simp
  obtain q' e' where g': "gettoken (s @ [newline]) (shift s j) = (tok, q', e', shift s k)" using gettoken_nl[OF near_shift(1)[OF j] g] by blast
  show ?case
  proof (cases b)
    case True
    have "parseback s c i = parseback s (BACK c) k" "parseback (s @ [newline]) c i' = parseback (s @ [newline]) (BACK c) (shift s k)"
      using True p p' g g' by (subst parseback.simps; simp)+
    then show ?thesis using 1(1)[OF p[symmetric] True g[symmetric] refl refl near_shift(1)[OF k] 1(3)] by simp
  next
    case False
    have "parseback s c i = (c, j)" "parseback (s @ [newline]) c i' = (c, shift s j)"
      using False p p' by (subst parseback.simps; simp)+
    then show ?thesis using 1(3)[OF j] by simp
  qed
qed

lemma sim_line: "near s i i' \<Longrightarrow> sim s (parseline n s i) (parseline n (s @ [newline]) i')"
proof (induction n arbitrary: i i')
  case (Suc n)
  have pl: "sim_fun s (parseline n s) (parseline n (s @ [newline]))" using Suc.IH by (simp add: sim_fun_def)
  show ?case unfolding parseline.simps
    by (rule sim_bind[OF sim_pipe[OF pl Suc.prems]]) (assumption | rule Suc.IH sim_back sim_rules)+
qed simp

lemma parsecmd_newline:
  assumes "parseline (Suc (Suc (length s))) s 0 = Parsed c (length s)"
  shows "parsecmd (s @ [newline]) = Parsed (c, nulterminate c (s @ [newline, NUL])) (Suc (length s))"
proof -
  have "parseline (Suc (Suc (length s))) (s @ [newline]) 0 = Parsed c (shift s (length s))"
    using sim_line[OF near_shift(2), of 0 s "Suc (Suc (length s))"] assms by (auto simp: sim_def)
  moreover have "skip_ws (s @ [newline]) (Suc (length s)) = Suc (length s)" by (subst skip_ws.simps) simp
  ultimately show ?thesis by (simp add: parsecmd_def shift_def peek_def)
qed

lemma token_newline:
  assumes "is_token s w"
  shows "is_token (s @ [newline]) w" "word_at (s @ [newline]) w = word_at s w"
proof -
  obtain q e where w: "w = (q, e)" by fastforce
  then have e: "q < e" "e \<le> length s" "\<forall>k\<in>{q..<e}. word_char (ch s k)" "\<not> word_char (ch s e)" using assms by auto
  have "\<not> word_char newline" by (simp add: word_char_def whitespace_def)
  then show "is_token (s @ [newline]) w" using e w by (auto simp: ch_nl)
  show "word_at (s @ [newline]) w = word_at s w" using e w by (simp add: word_at_def)
qed

lemma parse_line_show:
  assumes "tree_ok c"
  shows "\<exists>c' buf. parsecmd (show_cmd c @ [newline]) = Parsed (c', buf) (Suc (length (show_cmd c))) \<and> map_cmd (\<lambda>w. str_at buf (fst w)) c' = c"
proof -
  let ?s = "show_cmd c"
  have e: "line_stops (ch ?s (0 + length ?s))" by (simp add: ch_def line_stops_def)
  obtain c' where c': "parseline (Suc (Suc (length ?s))) ?s 0 = Parsed c' (length ?s)" "map_cmd (word_at ?s) c' = c"
    using line_parsedD[OF conjunct2[OF show_parsed[OF assms]] occurs_whole e, of "Suc (Suc (length ?s))"] by auto
  have "yields ?s 0 (cmd_ok ?s) (parseline (Suc (Suc (length ?s))) ?s 0)"
    by (rule parseline_yields[OF show_no_nul[OF assms]]) simp_all
  then have ok: "cmd_ok ?s c'" unfolding c'(1) by simp
  then have ok': "cmd_ok (?s @ [newline]) c'" using token_newline(1) unfolding cmd_ok_def by blast
  let ?buf = "nulterminate c' (?s @ [newline, NUL])"
  have "map_cmd (\<lambda>w. str_at ?buf (fst w)) c' = map_cmd (word_at ?s) c'"
  proof (rule cmd.map_cong0)
    fix w assume w: "w \<in> set_cmd c'"
    then show "str_at ?buf (fst w) = word_at ?s w"
      using nulterminate_word[OF ok' w] token_newline(2) ok unfolding cmd_ok_def by simp
  qed
  then show ?thesis using parsecmd_newline[OF c'(1)] c'(2) by simp
qed

section \<open>What running a command starts\<close>

text \<open>
  What the calls of a process do. A descriptor is what it is open on; pipes are numbered in the order in which they are made. \<open>opens\<close> and \<open>execs\<close>
  say which files can be opened and which programs exist, \<open>pid\<close> is what \<^verbatim>\<open>fork\<close> returns in the parent. A new descriptor is the lowest
  one that is free, as in \<^verbatim>\<open>fdalloc\<close> of the kernel. The result is the list of programs that are started, each with its arguments and
  descriptors, those of a child before those of the parent.
\<close>

datatype desc = Inherited nat | OnFile string int | PipeRead nat | PipeWrite nat

type_synonym fdtable = "int \<Rightarrow> desc option"
type_synonym launch = "string \<times> string list \<times> fdtable"

record os =
  opens :: "string \<Rightarrow> int \<Rightarrow> bool"
  execs :: "string \<Rightarrow> string list \<Rightarrow> bool"
  child_pid :: int

definition lowest :: "fdtable \<Rightarrow> int option" where
  "lowest t = find (\<lambda>fd. t fd = None) (map int [0..<16])"

primrec run :: "os \<Rightarrow> prog \<Rightarrow> fdtable \<Rightarrow> nat \<Rightarrow> launch list \<times> nat" where
  "run os (Exit c) = (\<lambda>t n. ([], n))"
| "run os (Exec path argv k) = (\<lambda>t n. if execs os path argv then ([(path, argv, t)], n) else run os k t n)"
| "run os (Fork k) = (\<lambda>t n. case run os (k 0) t n of (a, n) \<Rightarrow> case run os (k (child_pid os)) t n of (b, n) \<Rightarrow> (a @ b, n))"
| "run os (Wait k) = run os k"
| "run os (Close fd k) = (\<lambda>t. run os k (t(fd := None)))"
| "run os (Dup fd k) = (\<lambda>t. case (t fd, lowest t) of (Some d, Some fd') \<Rightarrow> run os k (t(fd' := Some d)) | _ \<Rightarrow> run os k t)"
| "run os (Open path mode k) = (\<lambda>t. case (opens os path mode, lowest t) of
      (True, Some fd) \<Rightarrow> run os (k fd) (t(fd := Some (OnFile path mode)))
    | _ \<Rightarrow> run os (k (-1)) t)"
| "run os (Pipe k) = (\<lambda>t n. case lowest t of
      None \<Rightarrow> run os (k None) t n
    | Some p0 \<Rightarrow> (case lowest (t(p0 := Some (PipeRead n))) of
          None \<Rightarrow> run os (k None) t n
        | Some p1 \<Rightarrow> run os (k (Some (p0, p1))) (t(p0 := Some (PipeRead n), p1 := Some (PipeWrite n))) (Suc n)))"
| "run os (Chdir path k) = run os (k 0)"
| "run os (Write fd s k) = run os k"

text \<open>What the text of a command asks for.\<close>

definition start :: "os \<Rightarrow> string list \<Rightarrow> fdtable \<Rightarrow> launch list" where
  "start os argv t =
     (if argv = [] then []
      else if execs os (hd argv) argv then [(hd argv, argv, t)]
      else if take 1 (hd argv) \<noteq> ''/'' \<and> length (hd argv) < 63 \<and> execs os (CHR ''/'' # hd argv) argv then [(CHR ''/'' # hd argv, argv, t)]
      else [])"

primrec plumb :: "os \<Rightarrow> string cmd \<Rightarrow> fdtable \<Rightarrow> nat \<Rightarrow> launch list \<times> nat" where
  "plumb os (EXEC argv) t n = (start os argv t, n)"
| "plumb os (REDIR c file mode fd) t n = (if opens os file mode then plumb os c (t(fd := Some (OnFile file mode))) n else ([], n))"
| "plumb os (PIPE l r) t n =
     (case plumb os l (t(1 := Some (PipeWrite n))) (Suc n) of (a, m) \<Rightarrow>
        case plumb os r (t(0 := Some (PipeRead n))) m of (b, m) \<Rightarrow> (a @ b, m))"
| "plumb os (LIST l r) t n = (case plumb os l t n of (a, m) \<Rightarrow> case plumb os r t m of (b, m) \<Rightarrow> (a @ b, m))"
| "plumb os (BACK c) t n = plumb os c t n"

text \<open>The three descriptors are open, and two others are free.\<close>

definition spare :: "fdtable \<Rightarrow> bool" where
  "spare t \<longleftrightarrow> t 0 \<noteq> None \<and> t 1 \<noteq> None \<and> t 2 \<noteq> None \<and> (\<exists>a b. 3 \<le> a \<and> a < b \<and> b < 16 \<and> t a = None \<and> t b = None)"

lemma lowest_least:
  assumes "0 \<le> fd" "fd < 16" "t fd = None" "\<forall>k. 0 \<le> k \<and> k < fd \<longrightarrow> t k \<noteq> None"
  shows "lowest t = Some fd"
proof -
  have "map int [0..<16] = map int [0..<nat fd] @ fd # map int [Suc (nat fd)..<16]"
  proof -
    have "[0..<16] = [0..<nat fd] @ nat fd # [Suc (nat fd)..<16]"
      using assms(1,2) upt_conv_Cons[of "nat fd" 16] upt_add_eq_append[of 0 "nat fd" "16 - nat fd"] by simp
    then show ?thesis using assms(1) by simp
  qed
  moreover have "find (\<lambda>fd. t fd = None) (map int [0..<nat fd]) = None"
    using assms(1,4) by (auto simp: find_None_iff)
  moreover have "find P (xs @ y # ys) = Some y" if "find P xs = None" "P y" for P and xs :: "int list" and y ys
    using that by (induction xs) (auto split: if_splits)
  ultimately show ?thesis using assms(3) unfolding lowest_def by simp
qed

lemma lowest_some:
  assumes "0 \<le> a" "a < 16" "t a = None"
  shows "\<exists>fd. lowest t = Some fd \<and> fd \<le> a \<and> 0 \<le> fd \<and> t fd = None \<and> (\<forall>k. 0 \<le> k \<and> k < fd \<longrightarrow> t k \<noteq> None)"
proof -
  define m where "m = (LEAST k. t (int k) = None)"
  have m: "t (int m) = None" "m \<le> nat a"
    unfolding m_def using assms LeastI[of "\<lambda>k. t (int k) = None" "nat a"] Least_le[of "\<lambda>k. t (int k) = None" "nat a"] by auto
  have less: "\<forall>k. 0 \<le> k \<and> k < int m \<longrightarrow> t k \<noteq> None"
    using not_less_Least[of _ "\<lambda>k. t (int k) = None"] unfolding m_def by (metis nat_less_iff nat_0_le)
  have "lowest t = Some (int m)" by (rule lowest_least) (use m less assms in auto)
  then show ?thesis using m less assms by (intro exI[of _ "int m"]) auto
qed

lemma spare_update:
  assumes "spare t" "fd = 0 \<or> fd = 1"
  shows "spare (t(fd := Some d))"
proof -
  obtain a b where ab: "3 \<le> a" "a < b" "b < 16" "t a = None" "t b = None" using assms(1) by (auto simp: spare_def)
  then have "(t(fd := Some d)) a = None" "(t(fd := Some d)) b = None" using assms(2) by auto
  then have "\<exists>a b. 3 \<le> a \<and> a < b \<and> b < 16 \<and> (t(fd := Some d)) a = None \<and> (t(fd := Some d)) b = None" using ab(1-3) by blast
  then show ?thesis using assms(1) by (simp add: spare_def)
qed

text \<open>The lowest descriptor after one of the first two has been closed.\<close>

lemma lowest_closed:
  assumes "t 0 \<noteq> None" "fd = 0 \<or> fd = 1"
  shows "lowest (t(fd := None)) = Some fd"
proof (rule lowest_least)
  show "\<forall>k. 0 \<le> k \<and> k < fd \<longrightarrow> (t(fd := None)) k \<noteq> None"
  proof (intro allI impI)
    fix k assume "0 \<le> k \<and> k < fd"
    then have "k = 0" "fd = 1" using assms(2) by linarith+
    then show "(t(fd := None)) k \<noteq> None" using assms(1) by simp
  qed
qed (use assms in auto)

lemma lowest_pipe:
  assumes "spare t"
  shows "\<exists>p0 p1. lowest t = Some p0 \<and> lowest (t(p0 := Some d)) = Some p1 \<and> 3 \<le> p0 \<and> 3 \<le> p1 \<and> p0 \<noteq> p1 \<and> t p0 = None \<and> t p1 = None"
proof -
  obtain a b where ab: "3 \<le> a" "a < b" "b < 16" "t a = None" "t b = None" using assms by (auto simp: spare_def)
  obtain p0 where p0: "lowest t = Some p0" "p0 \<le> a" "0 \<le> p0" "t p0 = None" using lowest_some[of a t] ab by auto
  obtain p1 where p1: "lowest (t(p0 := Some d)) = Some p1" "0 \<le> p1" "(t(p0 := Some d)) p1 = None"
    using lowest_some[of b "t(p0 := Some d)"] ab p0(2) by auto
  have ge: "3 \<le> p" if "0 \<le> p" "t p = None" for p
  proof (rule ccontr)
    assume "\<not> 3 \<le> p"
    then have "p = 0 \<or> p = 1 \<or> p = 2" using that(1) by linarith
    then show False using that(2) assms by (auto simp: spare_def)
  qed
  have "p1 \<noteq> p0" "t p1 = None" using p1(3) by (auto split: if_splits)
  then show ?thesis using p0 p1 ge by blast
qed

lemma run_fork1 [simp]: "0 < child_pid os \<Longrightarrow>
    run os (fork1 k) = (\<lambda>t n. case run os (k 0) t n of (a, n) \<Rightarrow> case run os (k (child_pid os)) t n of (b, n) \<Rightarrow> (a @ b, n))"
  by (simp add: fork1_def)

lemma runcmd_plumb:
  assumes "0 < child_pid os"
  shows "tree_ok c \<Longrightarrow> spare t \<Longrightarrow> run os (runcmd c) t n = plumb os c t n"
proof (induction c arbitrary: t n)
  case (EXEC argv)
  then show ?case by (auto simp: runexec_def start_def Let_def)
next
  case (REDIR c f mode fd)
  have fd: "fd = 0 \<or> fd = 1" using REDIR.prems(1) by auto
  have "lowest (t(fd := None)) = Some fd" by (rule lowest_closed) (use REDIR.prems(2) fd in \<open>auto simp: spare_def\<close>)
  moreover have "run os (runcmd c) (t(fd := Some (OnFile f mode))) n = plumb os c (t(fd := Some (OnFile f mode))) n"
    using REDIR spare_update[OF REDIR.prems(2) fd] by simp
  ultimately show ?case using fd by auto
next
  case (PIPE l r)
  obtain p0 p1 where p: "lowest t = Some p0" "lowest (t(p0 := Some (PipeRead n))) = Some p1" "3 \<le> p0" "3 \<le> p1" "p0 \<noteq> p1" "t p0 = None" "t p1 = None"
    using lowest_pipe[OF PIPE.prems(2)] by blast
  let ?t = "t(p0 := Some (PipeRead n), p1 := Some (PipeWrite n))"
  have 0: "?t 0 \<noteq> None" using PIPE.prems(2) p(3,4) by (auto simp: spare_def)
  have low: "lowest (?t(1 := None)) = Some 1" "lowest (?t(0 := None)) = Some 0" using lowest_closed[of ?t] 0 by auto
  have tabs: "?t(1 := None, 1 := Some (PipeWrite n), p0 := None, p1 := None) = t(1 := Some (PipeWrite n))"
    "?t(0 := None, 0 := Some (PipeRead n), p0 := None, p1 := None) = t(0 := Some (PipeRead n))"
    using p(3-7) by (auto simp: fun_eq_iff)
  have l: "run os (Close 1 (Dup p1 (Close p0 (Close p1 (runcmd l))))) ?t m = plumb os l (t(1 := Some (PipeWrite n))) m" for m
  proof -
    have "run os (runcmd l) (t(1 := Some (PipeWrite n))) m = plumb os l (t(1 := Some (PipeWrite n))) m"
      by (rule PIPE.IH(1)) (use PIPE.prems(1) in simp, rule spare_update[OF PIPE.prems(2)], simp)
    then show ?thesis using low(1) tabs(1) p(3-5) by simp
  qed
  have r: "run os (Close 0 (Dup p0 (Close p0 (Close p1 (runcmd r))))) ?t m = plumb os r (t(0 := Some (PipeRead n))) m" for m
  proof -
    have "run os (runcmd r) (t(0 := Some (PipeRead n))) m = plumb os r (t(0 := Some (PipeRead n))) m"
      by (rule PIPE.IH(2)) (use PIPE.prems(1) in simp, rule spare_update[OF PIPE.prems(2)], simp)
    then show ?thesis using low(2) tabs(2) p(3-5) by simp
  qed
  have e: "run os (Close p0 (Close p1 (Wait (Wait (Exit 0))))) ?t m = ([], m)" for m by simp
  show ?case using p(1,2) l r e assms by (simp del: run.simps(5,6) split: prod.splits)
next
  case (LIST l r)
  then show ?case using assms by (simp split: prod.splits)
next
  case (BACK c)
  then show ?case using assms by (simp split: prod.splits)
qed

text \<open>A session: what the lines start, one after the other, with the same descriptors.\<close>

primrec plumbs :: "os \<Rightarrow> string cmd list \<Rightarrow> fdtable \<Rightarrow> nat \<Rightarrow> launch list" where
  "plumbs os [] t n = []"
| "plumbs os (c # cs) t n = (case plumb os c t n of (a, m) \<Rightarrow> a @ plumbs os cs t m)"

text \<open>A line the shell hands to a child: not blank and not the built-in \<^verbatim>\<open>cd\<close>.\<close>

definition forked :: "string cmd \<Rightarrow> bool" where
  "forked c \<longleftrightarrow> show_cmd c \<noteq> [] \<and> take 3 (show_cmd c) \<noteq> ''cd ''"

lemma do_line_show:
  assumes "0 < child_pid os" "tree_ok c" "forked c" "spare t"
  shows "run os (do_line (show_cmd c @ [newline]) next) t n = (case plumb os c t n of (a, m) \<Rightarrow> case run os next t m of (b, k) \<Rightarrow> (a @ b, k))"
proof -
  let ?s = "show_cmd c @ [newline]"
  have hd: "hd (show_cmd c) \<notin> set whitespace" using show_start[OF assms(2)] assms(3) by (auto simp: forked_def)
  then have d: "dropWhile (\<lambda>c. c = CHR '' '' \<or> c = CHR 0x09) ?s = ?s" "take 1 ?s \<noteq> [newline]"
    using assms(3) by (cases "show_cmd c"; auto simp: whitespace_def forked_def)+
  have cd: "take 3 ?s \<noteq> ''cd ''"
  proof
    assume a: "take 3 ?s = ''cd ''"
    have "length (show_cmd c) \<ge> 3"
    proof (rule ccontr)
      assume l: "\<not> 3 \<le> length (show_cmd c)"
      then have "?s ! length (show_cmd c) = ''cd '' ! length (show_cmd c)" using a
        by (metis length_append_singleton less_Suc_eq not_le nth_take)
      then have "''cd '' ! length (show_cmd c) = newline" by simp
      moreover have "length (show_cmd c) = 0 \<or> length (show_cmd c) = 1 \<or> length (show_cmd c) = 2" using l by linarith
      ultimately show False by auto
    qed
    then show False using a assms(3) by (simp add: forked_def)
  qed
  obtain c' buf where p: "parsecmd ?s = Parsed (c', buf) (Suc (length (show_cmd c)))" "map_cmd (\<lambda>w. str_at buf (fst w)) c' = c"
    using parse_line_show[OF assms(2)] by blast
  have "run_line ?s = runcmd c" using p by (simp add: run_line_def)
  then show ?thesis using d cd assms(1) runcmd_plumb[OF assms(1,2,4)] by (simp add: do_line_def Let_def)
qed

lemma sh_loop_show:
  assumes "0 < child_pid os" "\<forall>c\<in>set cs. tree_ok c \<and> forked c" "spare t"
  shows "fst (run os (sh_loop (map (\<lambda>c. show_cmd c @ [newline]) cs)) t n) = plumbs os cs t n"
  using assms(2)
proof (induction cs arbitrary: n)
  case (Cons c cs)
  obtain a m where p: "plumb os c t n = (a, m)" by fastforce
  have "run os (do_line (show_cmd c @ [newline]) (sh_loop (map (\<lambda>c. show_cmd c @ [newline]) cs))) t n =
      (case run os (sh_loop (map (\<lambda>c. show_cmd c @ [newline]) cs)) t m of (b, k) \<Rightarrow> (a @ b, k))"
    using do_line_show[OF assms(1) _ _ assms(3), of c] Cons.prems p by simp
  then show ?case using Cons.IH[of m] Cons.prems p by (auto split: prod.splits)
qed simp

text \<open>The descriptors after the loop that opens the console.\<close>

definition with_console :: "fdtable \<Rightarrow> fdtable" where
  "with_console t = (\<lambda>fd. if 0 \<le> fd \<and> fd < 3 \<and> t fd = None then Some (OnFile ''console'' o_rdwr) else t fd)"

lemma open_console_step:
  assumes "opens os ''console'' o_rdwr" "lowest t = Some fd" "0 \<le> fd" "t fd = None" "\<forall>k. 0 \<le> k \<and> k < fd \<longrightarrow> t k \<noteq> None"
  shows "fd < 3 \<Longrightarrow> run os (open_console (Suc m) next) t = run os (open_console m next) (t(fd := Some (OnFile ''console'' o_rdwr)))
      \<and> with_console (t(fd := Some (OnFile ''console'' o_rdwr))) = with_console t"
    "3 \<le> fd \<Longrightarrow> run os (open_console (Suc m) next) t = run os next (with_console t)"
proof -
  show "run os (open_console (Suc m) next) t = run os (open_console m next) (t(fd := Some (OnFile ''console'' o_rdwr)))
      \<and> with_console (t(fd := Some (OnFile ''console'' o_rdwr))) = with_console t" if "fd < 3"
    using assms that by (auto simp: with_console_def fun_eq_iff)
  assume fd: "3 \<le> fd"
  have "t(fd := None) = with_console t"
  proof
    fix k
    have "t k \<noteq> None" if "0 \<le> k" "k < 3" using assms(5) fd that by auto
    then show "(t(fd := None)) k = with_console t k" using fd assms(4) by (auto simp: with_console_def)
  qed
  then show "run os (open_console (Suc m) next) t = run os next (with_console t)" using assms fd by simp
qed

lemma open_console_run:
  assumes "opens os ''console'' o_rdwr" "3 \<le> a" "a < 16" "t a = None" "length (filter (\<lambda>fd. t fd = None) [0, 1, 2]) \<le> m"
  shows "run os (open_console (Suc m) next) t = run os next (with_console t)"
  using assms(4,5)
proof (induction m arbitrary: t)
  case 0
  obtain fd where fd: "lowest t = Some fd" "fd \<le> a" "0 \<le> fd" "t fd = None" "\<forall>k. 0 \<le> k \<and> k < fd \<longrightarrow> t k \<noteq> None"
    using lowest_some[of a t] assms(2,3) 0(1) by auto
  have "t 0 \<noteq> None" "t 1 \<noteq> None" "t 2 \<noteq> None" using 0(2) by (auto split: if_splits)
  then have "fd \<noteq> 0" "fd \<noteq> 1" "fd \<noteq> 2" using fd(4) by auto
  then have "3 \<le> fd" using fd(3) by linarith
  then show ?case using open_console_step(2)[OF assms(1) fd(1,3,4,5)] by blast
next
  case (Suc m)
  obtain fd where fd: "lowest t = Some fd" "fd \<le> a" "0 \<le> fd" "t fd = None" "\<forall>k. 0 \<le> k \<and> k < fd \<longrightarrow> t k \<noteq> None"
    using lowest_some[of a t] assms(2,3) Suc.prems(1) by auto
  show ?case
  proof (cases "fd < 3")
    case True
    let ?t = "t(fd := Some (OnFile ''console'' o_rdwr))"
    have "fd = 0 \<or> fd = 1 \<or> fd = 2" using True fd(3) by linarith
    then have "length (filter (\<lambda>fd. ?t fd = None) [0, 1, 2]) \<le> m" using Suc.prems(2) fd(4) by (auto split: if_splits)
    moreover have "?t a = None" using True assms(2) Suc.prems(1) by simp
    ultimately have "run os (open_console (Suc m) next) ?t = run os next (with_console ?t)" by (intro Suc.IH)
    then show ?thesis using open_console_step(1)[OF assms(1) fd(1,3,4,5) True, of "Suc m" "next"] by argo
  next
    case False
    then have "3 \<le> fd" by simp
    then show ?thesis by (rule open_console_step(2)[OF assms(1) fd(1,3,4,5)])
  qed
qed

text \<open>No program is started with an end of a pipe beside its standard input and output.\<close>

definition no_leak :: "fdtable \<Rightarrow> launch list \<Rightarrow> bool" where
  "no_leak t ls \<longleftrightarrow> (\<forall>l\<in>set ls. \<forall>fd. fd \<noteq> 0 \<and> fd \<noteq> 1 \<longrightarrow> snd (snd l) fd = t fd)"

lemma no_leak_append [simp]: "no_leak t (a @ b) \<longleftrightarrow> no_leak t a \<and> no_leak t b"
  by (auto simp: no_leak_def)

lemma plumb_no_leak: "tree_ok c \<Longrightarrow> \<forall>fd. fd \<noteq> 0 \<and> fd \<noteq> 1 \<longrightarrow> t fd = t0 fd \<Longrightarrow> no_leak t0 (fst (plumb os c t n))"
proof (induction c arbitrary: t n)
  case (EXEC ws)
  then show ?case by (auto simp: start_def no_leak_def)
next
  case (REDIR c f mode fd)
  have "no_leak t0 (fst (plumb os c (t(fd := Some (OnFile f mode))) n))" by (rule REDIR.IH) (use REDIR.prems in auto)
  then show ?case by (simp add: no_leak_def)
next
  case (PIPE l r)
  have "no_leak t0 (fst (plumb os l (t(1 := Some (PipeWrite n))) m))" "no_leak t0 (fst (plumb os r (t(0 := Some (PipeRead n))) m))" for m
    using PIPE.prems by (auto intro!: PIPE.IH)
  then show ?case by (auto split: prod.splits) (metis fst_conv)+
next
  case (LIST l r)
  then show ?case by (auto split: prod.splits) (metis fst_conv)+
qed simp

lemma plumbs_no_leak: "\<forall>c\<in>set cs. tree_ok c \<Longrightarrow> no_leak t (plumbs os cs t n)"
proof (induction cs arbitrary: n)
  case (Cons c cs)
  then show ?case using plumb_no_leak[of c t t os n] by (auto split: prod.splits)
qed (simp add: no_leak_def)


text \<open>\<^verbatim>\<open>ls |wc >f\<close> at a shell that is started with no descriptor open, on a system whose programs are in the root directory.\<close>

definition demo_os :: os where
  "demo_os = \<lparr>opens = (\<lambda>f m. True), execs = (\<lambda>p av. p = ''/ls'' \<or> p = ''/wc''), child_pid = 4\<rparr>"


end
