(* ===== verification/Ulockprops.thy ===== *)
theory Ulockprops
  imports Userlock Frame Procprops Transition Vmprops
begin

text \<open>
  The mutexes of \<^verbatim>\<open>kernel/syslock.c\<close> exclude: in every interleaving of the calls of all processes, one process at most is between an
  acquire and the release that ends it. What \<^verbatim>\<open>lock_destroy\<close> does to a lock that is held.
\<close>

section \<open>What the calls do to the table\<close>

lemma stays_locks:
  fixes s :: "'z kulock_scheme"
  assumes "stays rest (rest s) m"
  shows "stays locks (locks s) m"
  by (rule stays_rest[OF assms]) (simp add: rest_def)

lemma argint_state: "argint n s = Ok r t \<Longrightarrow> t = s"
  by (auto simp: argint_def argraw_def myproc_def tf_reg_def split: option.splits if_splits)

lemma argint_runs: "argint n s \<noteq> Block t"
  by (auto simp: argint_def argraw_def myproc_def tf_reg_def split: option.splits if_splits)

lemma upd_lock_locks [simp]: "locks (upd_lock i f s) = (locks s)(i := f (locks s i))" "procs (upd_lock i f s) = procs s" "cur (upd_lock i f s) = cur s" "held (upd_lock i f s) = held s"
  by (simp_all add: upd_lock_def)

lemma sleep_locks: "sleep ch l s = Block t \<Longrightarrow> locks t = locks s" for s :: "'z kulock_scheme"
  using staysD(2)[OF _ stays_locks[OF rest_sleep[OF refl]]] by blast

lemma sleep_never_Ok [simp]: "sleep ch l s \<noteq> Ok r t"
  by (auto simp: sleep_def sched_def scheduler_return_def myproc_def acquire_def release_def Let_def split: option.splits if_splits)

lemma wakeup_locks: "wakeup ch s = Ok r t \<Longrightarrow> locks t = locks s" for s :: "'z kulock_scheme"
  using staysD(1)[OF _ stays_locks[OF rest_wakeup[OF refl]]] by blast

text \<open>The process that runs, by its number.\<close>

definition runs :: "'z kulock_scheme \<Rightarrow> int \<Rightarrow> bool" where
  "runs s n \<longleftrightarrow> (\<exists>p. cur s = Some p \<and> pid (procs s p) = n)"

lemma loop_taken:
  assumes "lock_acquire_loop i s = Ok r t"
  shows "r = 0 \<and> locked (locks s i) = 0 \<and> (\<exists>n. runs s n \<and> locks t = (locks s)(i := (locks s i)\<lparr>locked := 1, owner := n\<rparr>))"
  using assms
  by (auto simp: lock_acquire_loop_def myproc_def release_def Let_def runs_def split: if_splits option.splits)

lemma loop_waits:
  assumes "lock_acquire_loop i s = Block t"
  shows "locks t = locks s"
  using assms sleep_locks
  by (auto simp: lock_acquire_loop_def myproc_def release_def Let_def split: if_splits option.splits)

lemma acquire_result:
  assumes "sys_lock_acquire s = Ok r t"
  shows "r = -1 \<and> locks t = locks s \<or>
    r = 0 \<and> (\<exists>i n. argint 0 s = Ok (int i) s \<and> runs s n \<and> used (locks s i) \<noteq> 0 \<and> locked (locks s i) = 0
       \<and> locks t = (locks s)(i := (locks s i)\<lparr>locked := 1, owner := n\<rparr>))"
proof (cases "argint 0 s")
  case (Ok id s')
  have s: "s' = s" using argint_state[OF Ok] .
  show ?thesis
  proof (cases "id < 0 \<or> id \<ge> int NLOCK \<or> L_userlock (nat id) \<in> held s")
    case True
    then show ?thesis using assms Ok s by (auto simp: sys_lock_acquire_def acquire_def Let_def split: if_splits)
  next
    case False
    let ?s = "s\<lparr>held := insert (L_userlock (nat id)) (held s)\<rparr>"
    have loop: "used (locks s (nat id)) = 0 \<and> r = -1 \<and> locks t = locks s \<or> used (locks s (nat id)) \<noteq> 0 \<and> lock_acquire_loop (nat id) ?s = Ok r t"
      using assms Ok s False by (auto simp: sys_lock_acquire_def Let_def split: if_splits)
    have id: "int (nat id) = id" using False by simp
    from loop show ?thesis
    proof
      assume l: "used (locks s (nat id)) \<noteq> 0 \<and> lock_acquire_loop (nat id) ?s = Ok r t"
      obtain n where n: "r = 0" "locked (locks s (nat id)) = 0" "runs s n" "locks t = (locks s)(nat id := (locks s (nat id))\<lparr>locked := 1, owner := n\<rparr>)"
        using loop_taken[OF conjunct2[OF l]] by (auto simp: runs_def)
      have "\<exists>i n. argint 0 s = Ok (int i) s \<and> runs s n \<and> used (locks s i) \<noteq> 0 \<and> locked (locks s i) = 0
         \<and> locks t = (locks s)(i := (locks s i)\<lparr>locked := 1, owner := n\<rparr>)"
        by (intro exI[of _ "nat id"] exI[of _ n]) (use n l Ok s id in simp)
      then show ?thesis using n(1) by simp
    qed simp
  qed
qed (use assms in \<open>auto simp: sys_lock_acquire_def\<close>)

lemma acquire_blocks:
  assumes "sys_lock_acquire s = Block t"
  shows "locks t = locks s \<and> (\<exists>i. argint 0 s = Ok (int i) s \<and> used (locks s i) \<noteq> 0)"
proof (cases "argint 0 s")
  case (Ok id s')
  have s: "s' = s" using argint_state[OF Ok] .
  then have "\<not> (id < 0 \<or> id \<ge> int NLOCK \<or> L_userlock (nat id) \<in> held s)"
    using assms Ok by (auto simp: sys_lock_acquire_def acquire_def Let_def split: if_splits)
  then show ?thesis using assms Ok s loop_waits[of "nat id" "s\<lparr>held := insert (L_userlock (nat id)) (held s)\<rparr>" t]
    by (auto simp: sys_lock_acquire_def Let_def split: if_splits intro!: exI[of _ "nat id"])
qed (use assms argint_runs in \<open>auto simp: sys_lock_acquire_def\<close>)

lemma release_result:
  assumes "sys_lock_release s = Ok r t"
  shows "r = -1 \<and> locks t = locks s \<or>
    r = 0 \<and> (\<exists>i. argint 0 s = Ok (int i) s \<and> runs s (owner (locks s i)) \<and> used (locks s i) \<noteq> 0 \<and> locked (locks s i) \<noteq> 0
       \<and> locks t = (locks s)(i := (locks s i)\<lparr>locked := 0, owner := 0\<rparr>))"
proof (cases "argint 0 s")
  case (Ok id s')
  have s: "s' = s" using argint_state[OF Ok] .
  show ?thesis
  proof (cases "id < 0 \<or> id \<ge> int NLOCK \<or> L_userlock (nat id) \<in> held s")
    case True
    then show ?thesis using assms Ok s by (auto simp: sys_lock_release_def acquire_def Let_def split: if_splits)
  next
    case False
    let ?s = "s\<lparr>held := insert (L_userlock (nat id)) (held s)\<rparr>"
    let ?u = "upd_lock (nat id) (\<lambda>l. l\<lparr>locked := 0, owner := 0\<rparr>) ?s"
    have "r = -1 \<and> locks t = locks s \<or> r = 0 \<and> used (locks s (nat id)) \<noteq> 0 \<and> locked (locks s (nat id)) \<noteq> 0 \<and> runs s (owner (locks s (nat id)))
       \<and> (\<exists>v. wakeup (Ch_userlock (nat id)) ?u = Ok () v \<and> locks t = locks v)"
      using assms Ok s False
      by (auto simp: sys_lock_release_def release_def Let_def myproc_def runs_def bind_eq_Ok split: if_splits option.splits)
    then show ?thesis
    proof
      assume l: "r = 0 \<and> used (locks s (nat id)) \<noteq> 0 \<and> locked (locks s (nat id)) \<noteq> 0 \<and> runs s (owner (locks s (nat id)))
       \<and> (\<exists>v. wakeup (Ch_userlock (nat id)) ?u = Ok () v \<and> locks t = locks v)"
      then have "locks t = (locks s)(nat id := (locks s (nat id))\<lparr>locked := 0, owner := 0\<rparr>)"
        using wakeup_locks[of "Ch_userlock (nat id)" ?u] by auto
      moreover have "int (nat id) = id" using False by simp
      ultimately have "\<exists>i. argint 0 s = Ok (int i) s \<and> runs s (owner (locks s i)) \<and> used (locks s i) \<noteq> 0 \<and> locked (locks s i) \<noteq> 0
         \<and> locks t = (locks s)(i := (locks s i)\<lparr>locked := 0, owner := 0\<rparr>)"
        by (intro exI[of _ "nat id"]) (use l Ok s in simp)
      then show ?thesis using l by simp
    qed simp
  qed
qed (use assms in \<open>auto simp: sys_lock_release_def\<close>)

lemma create_result:
  assumes "sys_lock_create s = Ok r t"
  shows "locks t = locks s \<or> (\<exists>i. used (locks s i) = 0 \<and> locks t = (locks s)(i := (locks s i)\<lparr>used := 1, locked := 0, owner := 0\<rparr>))"
proof -
  let ?P = "\<lambda>(r :: u64 option) t. case r of None \<Rightarrow> locks t = locks s
     | Some _ \<Rightarrow> \<exists>i. used (locks s i) = 0 \<and> locks t = (locks s)(i := (locks s i)\<lparr>used := 1, locked := 0, owner := 0\<rparr>)"
  let ?body = "\<lambda>i s. bind (acquire (L_userlock i) s) (\<lambda>_ s.
       if used (locks s i) = 0 then
         let s = upd_lock i (\<lambda>l. l\<lparr>used := 1, locked := 0, owner := 0\<rparr>) s in
         bind (release (L_userlock i) s) (\<lambda>_ s. Ok (Some (of_nat i :: u64)) s)
       else bind (release (L_userlock i) s) (\<lambda>_ s. Ok None s))"
  have body: "?P r' v" if "locks u = locks s" "?body i u = Ok r' v" for i u r' v
    using that by (auto simp: acquire_def release_def Let_def split: if_splits intro!: exI[of _ i])
  have all: "scan is ?body u = Ok r' v \<Longrightarrow> locks u = locks s \<Longrightarrow> ?P r' v" for "is" u r' v
  proof (induction "is" arbitrary: u)
    case (Cons i "is")
    then obtain r1 v1 where b: "?body i u = Ok r1 v1" by (cases "?body i u") auto
    then show ?case using Cons body[OF Cons.prems(2) b] by (cases r1) auto
  qed simp
  obtain r' where "scan [0..<NLOCK] ?body s = Ok r' t"
    using assms unfolding sys_lock_create_def by (cases "scan [0..<NLOCK] ?body s") auto
  then have "?P r' t" by (rule all) simp
  then show ?thesis by (cases r') auto
qed

section \<open>Interleavings\<close>

text \<open>Who is between an acquire and its release, and who sleeps in an acquire.\<close>

record ghost =
  holders :: "nat \<Rightarrow> int set"
  waiters :: "nat \<Rightarrow> int set"

text \<open>
  A step is a call of some process, a process that goes on at the loop in which it has slept, or anything the kernel does elsewhere, which does
  not touch the table. \<^verbatim>\<open>lock_destroy\<close> is not among the calls.
\<close>

inductive ulock_step :: "'z kulock_scheme \<times> ghost \<Rightarrow> 'z kulock_scheme \<times> ghost \<Rightarrow> bool" where
  acquired: "\<lbrakk>sys_lock_acquire s = Ok 0 t; argint 0 s = Ok (int i) s; runs s n\<rbrakk> \<Longrightarrow>
    ulock_step (s, g) (t, g\<lparr>holders := (holders g)(i := insert n (holders g i))\<rparr>)"
| waits: "\<lbrakk>sys_lock_acquire s = Block t; argint 0 s = Ok (int i) s; runs s n\<rbrakk> \<Longrightarrow>
    ulock_step (s, g) (t, g\<lparr>waiters := (waiters g)(i := insert n (waiters g i))\<rparr>)"
| resumed: "\<lbrakk>n \<in> waiters g i; runs s n; lock_acquire_loop i s = Ok r t\<rbrakk> \<Longrightarrow>
    ulock_step (s, g) (t, g\<lparr>waiters := (waiters g)(i := waiters g i - {n}), holders := (holders g)(i := insert n (holders g i))\<rparr>)"
| waits_on: "\<lbrakk>n \<in> waiters g i; runs s n; lock_acquire_loop i s = Block t\<rbrakk> \<Longrightarrow> ulock_step (s, g) (t, g)"
| released: "\<lbrakk>sys_lock_release s = Ok 0 t; argint 0 s = Ok (int i) s; runs s n\<rbrakk> \<Longrightarrow>
    ulock_step (s, g) (t, g\<lparr>holders := (holders g)(i := holders g i - {n})\<rparr>)"
| refused: "sys_lock_acquire s = Ok (-1) t \<or> sys_lock_release s = Ok (-1) t \<Longrightarrow> ulock_step (s, g) (t, g)"
| created: "sys_lock_create s = Ok r t \<Longrightarrow> ulock_step (s, g) (t, g)"
| elsewhere: "locks t = locks s \<Longrightarrow> ulock_step (s, g) (t, g)"

definition lock_start :: "'z kulock_scheme \<times> ghost \<Rightarrow> bool" where
  "lock_start sg \<longleftrightarrow> (\<exists>s0 :: 'z kulock_scheme. locks (fst sg) = locks (lockinit s0)) \<and> (\<forall>i. holders (snd sg) i = {} \<and> waiters (snd sg) i = {})"

definition lock_inv :: "'z kulock_scheme \<times> ghost \<Rightarrow> bool" where
  "lock_inv sg \<longleftrightarrow> (\<forall>i. (holders (snd sg) i \<noteq> {} \<longrightarrow>
       holders (snd sg) i = {owner (locks (fst sg) i)} \<and> locked (locks (fst sg) i) \<noteq> 0 \<and> used (locks (fst sg) i) \<noteq> 0)
     \<and> (waiters (snd sg) i \<noteq> {} \<longrightarrow> used (locks (fst sg) i) \<noteq> 0))"

lemma runs_same: "runs s n \<Longrightarrow> runs s m \<Longrightarrow> n = m"
  by (auto simp: runs_def)

interpretation ulk: step_invariant lock_start ulock_step lock_inv
proof
  fix x :: "'z kulock_scheme \<times> ghost"
  assume "lock_start x"
  then show "lock_inv x" by (auto simp: lock_start_def lock_inv_def)
next
  fix x y :: "'z kulock_scheme \<times> ghost"
  assume "ulock_step x y" "lock_inv x"
  then show "lock_inv y"
  proof (induction rule: ulock_step.induct)
    case (acquired s t i n g)
    obtain m where m: "runs s m" "used (locks s i) \<noteq> 0" "locked (locks s i) = 0" "locks t = (locks s)(i := (locks s i)\<lparr>locked := 1, owner := m\<rparr>)"
      using acquire_result[OF acquired(1)] acquired(2) by auto
    then show ?case using acquired(4) runs_same[OF m(1) acquired(3)] unfolding lock_inv_def by auto
  next
    case (waits s t i n g)
    then show ?case using acquire_blocks[OF waits(1)] unfolding lock_inv_def by auto
  next
    case (resumed n g i s r t)
    obtain m where m: "runs s m" "locked (locks s i) = 0" "locks t = (locks s)(i := (locks s i)\<lparr>locked := 1, owner := m\<rparr>)"
      using loop_taken[OF resumed(3)] by auto
    then show ?case using resumed(1,4) runs_same[OF m(1) resumed(2)] unfolding lock_inv_def by auto
  next
    case (waits_on n g i s t)
    then show ?case using loop_waits[OF waits_on(3)] unfolding lock_inv_def by simp
  next
    case (released s t i n g)
    have m: "runs s (owner (locks s i))" "used (locks s i) \<noteq> 0" "locks t = (locks s)(i := (locks s i)\<lparr>locked := 0, owner := 0\<rparr>)"
      using release_result[OF released(1)] released(2) by auto
    then show ?case using released(4) runs_same[OF m(1) released(3)] unfolding lock_inv_def by auto
  next
    case (refused s t g)
    then have "locks t = locks s" using acquire_result[of s "-1" t] release_result[of s "-1" t] by auto
    then show ?case using refused(2) unfolding lock_inv_def by simp
  next
    case (created s r t g)
    from create_result[OF created(1)] show ?case
    proof
      assume "\<exists>i. used (locks s i) = 0 \<and> locks t = (locks s)(i := (locks s i)\<lparr>used := 1, locked := 0, owner := 0\<rparr>)"
      then obtain j where j: "used (locks s j) = 0" "locks t = (locks s)(j := (locks s j)\<lparr>used := 1, locked := 0, owner := 0\<rparr>)" by blast
      have "holders g j = {}" "waiters g j = {}" using created(2) j(1) unfolding lock_inv_def by auto
      then show ?case using created(2) j(2) unfolding lock_inv_def by simp
    qed (use created(2) in \<open>simp add: lock_inv_def\<close>)
  next
    case (elsewhere t s g)
    then show ?case unfolding lock_inv_def by simp
  qed
qed


text \<open>Process 1 has created lock 0 and acquires it.\<close>

definition demo_ulock :: kulock where
  "demo_ulock = kproc.extend (small_proc\<lparr>procs := (\<lambda>_. plain_proc)(0 := plain_proc\<lparr>state := RUNNING, pid := 1, trapframe := 0x80009000\<rparr>)\<rparr>)
     (kulock.fields (\<lambda>_. \<lparr>used = 0, locked = 0, owner = 0\<rparr>))"

definition demo_ghost :: ghost where
  "demo_ghost = \<lparr>holders = (\<lambda>_. {}), waiters = (\<lambda>_. {})\<rparr>"

lemma demo_ulock_fields:
  "cur demo_ulock = Some 0" "held demo_ulock = {}" "locks demo_ulock = (\<lambda>_. \<lparr>used = 0, locked = 0, owner = 0\<rparr>)"
  "trapframe (procs demo_ulock 0) = 0x80009000" "pid (procs demo_ulock 0) = 1" "tframes demo_ulock = (\<lambda>_ _. 0)"
  by (simp_all add: demo_ulock_def kproc.defs kulock.defs small_proc_def)


section \<open>Destroying a lock\<close>

text \<open>
  \<^verbatim>\<open>lock_destroy\<close> looks at neither the owner nor the sleepers: any process that runs may destroy any lock in use, also one that another process holds. The
  call returns 0, the slot is free again, to be handed out by the next \<^verbatim>\<open>lock_create\<close> while the holder still believes to have it, and no process is
  woken: those that sleep in an acquire of it stay asleep.
\<close>

theorem lock_destroy_unchecked:
  assumes "argint 0 s = Ok (int i) s" "i < NLOCK" "L_userlock i \<notin> held s" "used (locks s i) \<noteq> 0"
  shows "\<exists>t. sys_lock_destroy s = Ok 0 t \<and> locks t = (locks s)(i := (locks s i)\<lparr>used := 0, locked := 0, owner := 0\<rparr>)
    \<and> procs t = procs s \<and> held t = held s"
  using assms by (simp add: sys_lock_destroy_def Let_def)

text \<open>Lock 0 is held by process 9; process 1 destroys it.\<close>

theorem lock_destroy_unchecked_witness:
  "\<exists>t. sys_lock_destroy (demo_ulock\<lparr>locks := (\<lambda>_. \<lparr>used = 1, locked = 1, owner = 9\<rparr>)\<rparr>) = Ok 0 t \<and> used (locks t 0) = 0"
proof -
  let ?s = "demo_ulock\<lparr>locks := (\<lambda>_. \<lparr>used = 1, locked = 1, owner = 9\<rparr>)\<rparr>"
  have "argint 0 ?s = Ok (int 0) ?s" by (simp add: argint_def argraw_def myproc_def tf_reg_def demo_ulock_fields)
  then show ?thesis using lock_destroy_unchecked[of ?s 0] by (auto simp: demo_ulock_fields)
qed

end
