(* ===== verification/Shmprops.thy ===== *)
theory Shmprops
  imports Shm Frame Vmprops
begin

text \<open>
  \<^verbatim>\<open>shmattach\<close> of \<^verbatim>\<open>kernel/sysshm.c\<close> against the view of a page table as a map.
\<close>

section \<open>Mapping the pages of a segment\<close>

abbreviation shm_perm :: u64 where "shm_perm \<equiv> PTE_R OR PTE_W OR PTE_U"

definition seg_map :: "(u64 \<Rightarrow> u64 option) \<Rightarrow> u64 \<Rightarrow> (nat \<Rightarrow> u64) \<Rightarrow> nat \<Rightarrow> (u64 \<Rightarrow> u64 option)" where
  "seg_map f va pgs n = (\<lambda>x. if pn va \<le> pn x \<and> pn x < pn va + n
     then Some (PA2PTE (pgs (pn x - pn va)) OR shm_perm OR PTE_V) else f x)"

lemma seg_map_0 [simp]: "seg_map f va pgs 0 = f"
  by (rule ext) (auto simp: seg_map_def)

lemma seg_map_Suc:
  assumes "pn a = pn va + k"
  shows "(\<lambda>x. if pn x = pn a then Some (PA2PTE (pgs k) OR shm_perm OR 1) else seg_map f va pgs k x) = seg_map f va pgs (Suc k)"
  using assms by (auto simp: seg_map_def fun_eq_iff)

lemma segtable_base:
  fixes s t :: "'z kshm_scheme"
  assumes "base t = base s"
  shows "segtable t = segtable s \<and> attachtable t = attachtable s"
proof -
  have "segtable (base t) = segtable (base s)" "attachtable (base t) = attachtable (base s)" using assms by simp_all
  then show ?thesis by (simp add: base_def)
qed

lemma aligned_offset:
  assumes "page_aligned va" "unat va + 4096 * k < 2 ^ 38"
  shows "unat (va + of_nat k * 4096) = unat va + 4096 * k" "page_aligned (va + of_nat k * 4096)" "pn (va + of_nat k * 4096) = pn va + k"
proof -
  have "unat (of_nat k * 4096 :: u64) = 4096 * k" using assms(2) by (simp add: unat_word_ariths unat_of_nat)
  then show u: "unat (va + of_nat k * 4096) = unat va + 4096 * k" using assms(2) by (simp add: unat_word_ariths)
  show "page_aligned (va + of_nat k * 4096)" using assms(1) u by (simp add: page_aligned_def)
  show "pn (va + of_nat k * 4096) = pn va + k" using u by (simp add: pn_def)
qed

lemma shm_map_pages_result:
  fixes s0 s :: "'z kshm_scheme"
  assumes G: "grown s0 pt N F s M" "umap (mem s) pt = seg_map (umap (mem s0) pt) va pgs k" "pages (segtable s i) = pgs" "base s = b"
    and va: "page_aligned va" "unat va + 4096 * (k + n) \<le> 2 ^ 38"
    and um: "\<forall>x. pn va \<le> pn x \<and> pn x < pn va + (k + n) \<longrightarrow> umap (mem s0) pt x = None"
  shows "\<exists>s' M'. grown s0 pt N F s' M' \<and> base s' = b \<and>
    (shm_map_pages i pt va k n s = Ok True s' \<and> umap (mem s') pt = seg_map (umap (mem s0) pt) va pgs (k + n)
    \<or> shm_map_pages i pt va k n s = Ok False s' \<and> umap (mem s') pt = umap (mem s0) pt)"
  using G va(2) um
proof (induction n arbitrary: k s M)
  case 0
  then show ?case by auto
next
  case (Suc n)
  let ?a = "va + of_nat k * 4096"
  have a: "unat ?a = unat va + 4096 * k" "page_aligned ?a" "pn ?a = pn va + k" using aligned_offset[OF va(1), of k] Suc.prems(5) by auto
  have lt: "?a < MAXVA" using a(1) Suc.prems(5) by (simp add: word_less_nat_alt)
  have ok: "pt_ok 2 s pt (N \<union> M) (F - M)" using Suc.prems(1) by (simp add: grown_def)
  have none: "umap (mem s) pt ?a = None" using Suc.prems(2,6) a(3) by (simp add: seg_map_def)
  from ok a(2) lt none show ?case
  proof (cases rule: mappages_one[where pa = "pgs k" and perm = shm_perm])
    case (1 s1 M1)
    have G1: "grown s0 pt N F s1 (M \<union> M1)" using grown_trans[OF Suc.prems(1) 1(2)] .
    have b1: "base s1 = base s" using staysD(1)[OF 1(1) mappages_base[OF refl]] .
    have m1: "umap (mem s1) pt = seg_map (umap (mem s0) pt) va pgs (Suc k)" unfolding 1(3) Suc.prems(2) by (rule seg_map_Suc[OF a(3)])
    have "shm_map_pages i pt va k (Suc n) s = shm_map_pages i pt va (Suc k) n s1" using 1(1) Suc.prems(3) by simp
    moreover have "\<exists>s' M'. grown s0 pt N F s' M' \<and> base s' = b \<and>
      (shm_map_pages i pt va (Suc k) n s1 = Ok True s' \<and> umap (mem s') pt = seg_map (umap (mem s0) pt) va pgs (Suc k + n)
      \<or> shm_map_pages i pt va (Suc k) n s1 = Ok False s' \<and> umap (mem s') pt = umap (mem s0) pt)"
      using Suc.IH[OF G1 m1] Suc.prems(3-6) b1 segtable_base[OF b1] by simp
    ultimately show ?thesis by simp
  next
    case (2 s1)
    have G1: "grown s0 pt N F s1 (M \<union> (F - M))" using grown_trans[OF Suc.prems(1) 2(2)] .
    have b1: "base s1 = base s" using staysD(1)[OF 2(1) mappages_base[OF refl]] .
    have ok1: "pt_ok 2 s1 pt (N \<union> (M \<union> (F - M))) (F - (M \<union> (F - M)))" using G1 by (simp add: grown_def)
    have k: "unat (of_nat k :: u64) = k" using Suc.prems(5) by (simp add: unat_of_nat)
    obtain s2 where s2: "uvmunmap pt va (of_nat k) False s1 = Ok () s2" "released s1 pt (N \<union> (M \<union> (F - M))) (F - (M \<union> (F - M))) s2 {}"
        "umap (mem s2) pt = unmap_range (umap (mem s1) pt) (pn va) k"
      using uvmunmap_range[OF ok1 va(1), of "of_nat k" False] Suc.prems(5) k by auto
    have "grown s1 pt (N \<union> (M \<union> (F - M))) (F - (M \<union> (F - M))) s2 {}" using s2(2) by (simp add: released_def grown_def)
    then have G2: "grown s0 pt N F s2 (M \<union> (F - M) \<union> {})" by (rule grown_trans[OF G1])
    have b2: "base s2 = base s1" using staysD(1)[OF s2(1) uvmunmap_base[OF refl]] .
    have "umap (mem s2) pt = umap (mem s0) pt"
      unfolding s2(3) 2(3) Suc.prems(2) using Suc.prems(6) by (auto simp: unmap_range_def seg_map_def fun_eq_iff)
    moreover have "shm_map_pages i pt va k (Suc n) s = Ok False s2" using 2(1) s2(1) Suc.prems(3) by simp
    ultimately show ?thesis using G2 b1 b2 Suc.prems(4) by auto
  qed
qed

section \<open>Attaching\<close>

definition attach_va :: "'z kshm_scheme \<Rightarrow> nat \<Rightarrow> u64" where
  "attach_va s p = PGROUNDUP (sz (procs s p)) + PGSIZE"


text \<open>The small process, whose heap ends at \<^verbatim>\<open>0x3000\<close>, attaches a segment of two pages.\<close>

definition demo_shm :: kshm where
  "demo_shm = kulock.extend (kproc.extend (small_proc\<lparr>procs := (\<lambda>p. (procs small_proc p)\<lparr>trapframe := 0x80009000\<rparr>)\<rparr>)
       (kulock.fields (\<lambda>_. \<lparr>used = 0, locked = 0, owner = 0\<rparr>)))
     (kshm.fields (\<lambda>_. \<lparr>seg_used = 1, key = 7, seg_npages = 2, refcnt = 0, pages = (\<lambda>k. 0x80010000 + of_nat k * 0x1000)\<rparr>)
       (\<lambda>_ _. \<lparr>shmid = -1, att_va = 0, att_npages = 0\<rparr>))"

lemma demo_shm_fields:
  "cur demo_shm = Some 0" "held demo_shm = {}" "mem demo_shm = mem small_proc" "freelist demo_shm = freelist small_proc" "kend demo_shm = kend small_proc"
  "pid (procs demo_shm 0) = 1" "sz (procs demo_shm 0) = 0x3000" "pagetable (procs demo_shm 0) = 0x80002000" "trapframe (procs demo_shm 0) = 0x80009000"
  "tframes demo_shm = (\<lambda>_ _. 0)"
  "segtable demo_shm = (\<lambda>_. \<lparr>seg_used = 1, key = 7, seg_npages = 2, refcnt = 0, pages = (\<lambda>k. 0x80010000 + of_nat k * 0x1000)\<rparr>)"
  by (simp_all add: demo_shm_def kproc.defs kulock.defs kshm.defs small_proc_def)


end
