(* ===== verification/Uprogs.thy ===== *)
theory Uprogs
  imports Ugrep Ulib Uprintf
begin

text \<open>
  The small user programs: \<^verbatim>\<open>cat.c\<close>, \<^verbatim>\<open>wc.c\<close>, \<^verbatim>\<open>echo.c\<close>, \<^verbatim>\<open>ls.c\<close>, \<^verbatim>\<open>rm.c\<close>, \<^verbatim>\<open>mkdir.c\<close>, \<^verbatim>\<open>ln.c\<close>, \<^verbatim>\<open>kill.c\<close>, \<^verbatim>\<open>pwd.c\<close>. A program is a function
  of its arguments without the name it was called by and of the world its system calls act on; it answers the exit status and the world. The
  system calls are the fields of a record. A loop that reads to the end of its input may run forever, which is \<open>None\<close>.
\<close>

section \<open>System calls\<close>

record ustat_t =
  st_ino :: u32
  st_type :: int
  st_size :: u64

record 'w sys =
  sopen :: "string \<Rightarrow> int \<Rightarrow> 'w \<Rightarrow> int \<times> 'w"
  sread :: "int \<Rightarrow> nat \<Rightarrow> 'w \<Rightarrow> int \<times> string \<times> 'w"
  swrite :: "int \<Rightarrow> string \<Rightarrow> 'w \<Rightarrow> int \<times> 'w"
  sclose :: "int \<Rightarrow> 'w \<Rightarrow> 'w"
  sfstat :: "int \<Rightarrow> 'w \<Rightarrow> int \<times> ustat_t \<times> 'w"
  sunlink :: "string \<Rightarrow> 'w \<Rightarrow> int \<times> 'w"
  smkdir :: "string \<Rightarrow> 'w \<Rightarrow> int \<times> 'w"
  slink :: "string \<Rightarrow> string \<Rightarrow> 'w \<Rightarrow> int \<times> 'w"
  skill :: "int \<Rightarrow> 'w \<Rightarrow> int \<times> 'w"
  sgetcwd :: "nat \<Rightarrow> 'w \<Rightarrow> int \<times> string \<times> 'w"

abbreviation (input) eol :: string where "eol \<equiv> [CHR 0x0A]"

text \<open>\<^verbatim>\<open>fprintf\<close> writes its text byte by byte.\<close>

definition uputs :: "'w sys \<Rightarrow> int \<Rightarrow> string \<Rightarrow> 'w \<Rightarrow> 'w" where
  "uputs sys fd s w = fold (\<lambda>c w. snd (swrite sys fd [c] w)) s w"

definition show_int :: "u32 \<Rightarrow> string" where
  "show_int n = uprintint (scast n) 10 True"

section \<open>cat\<close>

datatype copy_result = Copied | WriteError | ReadError

text \<open>The loop that copies what it reads, in pieces of at most \<open>k\<close> bytes; what \<^verbatim>\<open>read\<close> leaves in the buffer is what is written.\<close>

partial_function (option) copy_loop ::
  "(nat \<Rightarrow> 'w \<Rightarrow> int \<times> 'b list \<times> 'w) \<Rightarrow> ('b list \<Rightarrow> 'w \<Rightarrow> int \<times> 'w) \<Rightarrow> nat \<Rightarrow> 'w \<Rightarrow> (copy_result \<times> 'w) option" where
  "copy_loop rd wr k w =
     (case rd k w of (n, bs, w) \<Rightarrow>
        if n > 0 then
          (case wr bs w of (r, w) \<Rightarrow> if r \<noteq> n then Some (WriteError, w) else copy_loop rd wr k w)
        else Some (if n < 0 then ReadError else Copied, w))"

text \<open>\<open>Inl\<close> is a call of \<^verbatim>\<open>exit\<close>.\<close>

definition cat :: "'w sys \<Rightarrow> int \<Rightarrow> 'w \<Rightarrow> ((int + unit) \<times> 'w) option" where
  "cat sys fd w =
     (case copy_loop (sread sys fd) (swrite sys 1) 512 w of
        None \<Rightarrow> None
      | Some (WriteError, w) \<Rightarrow> Some (Inl 1, uputs sys 2 (''cat: write error'' @ eol) w)
      | Some (ReadError, w) \<Rightarrow> Some (Inl 1, uputs sys 2 (''cat: read error'' @ eol) w)
      | Some (Copied, w) \<Rightarrow> Some (Inr (), w))"

fun cat_files :: "'w sys \<Rightarrow> string list \<Rightarrow> 'w \<Rightarrow> (int \<times> 'w) option" where
  "cat_files sys [] w = Some (0, w)"
| "cat_files sys (f # fs) w =
     (case sopen sys f 0 w of (fd, w) \<Rightarrow>
        if fd < 0 then Some (1, uputs sys 2 (''cat: cannot open '' @ f @ eol) w)
        else case cat sys fd w of
            None \<Rightarrow> None
          | Some (Inl st, w) \<Rightarrow> Some (st, w)
          | Some (Inr _, w) \<Rightarrow> cat_files sys fs (sclose sys fd w))"

definition cat_main :: "'w sys \<Rightarrow> string list \<Rightarrow> 'w \<Rightarrow> (int \<times> 'w) option" where
  "cat_main sys args w =
     (if args = [] then
        (case cat sys 0 w of None \<Rightarrow> None | Some (Inl st, w) \<Rightarrow> Some (st, w) | Some (Inr _, w) \<Rightarrow> Some (0, w))
      else cat_files sys args w)"

section \<open>wc\<close>

definition wc_blank :: "char \<Rightarrow> bool" where
  "wc_blank c \<longleftrightarrow> c \<in> {CHR '' '', CHR 0x0D, CHR 0x09, CHR 0x0A, CHR 0x0B}"

text \<open>The counters of lines, words and characters, and \<^verbatim>\<open>inword\<close>.\<close>

type_synonym counts = "u32 \<times> u32 \<times> u32 \<times> bool"

definition wc_char :: "char \<Rightarrow> counts \<Rightarrow> counts" where
  "wc_char b st =
     (case st of (l, w, c, inword) \<Rightarrow>
        let c = c + 1; l = (if b = CHR 0x0A then l + 1 else l) in
        if wc_blank b then (l, w, c, False)
        else if \<not> inword then (l, w + 1, c, True)
        else (l, w, c, inword))"

partial_function (option) wc_loop :: "(nat \<Rightarrow> 'w \<Rightarrow> int \<times> string \<times> 'w) \<Rightarrow> counts \<Rightarrow> 'w \<Rightarrow> (int \<times> counts \<times> 'w) option" where
  "wc_loop rd st w =
     (case rd 512 w of (n, bs, w) \<Rightarrow>
        if n > 0 then wc_loop rd (fold wc_char bs st) w else Some (n, st, w))"

definition wc :: "'w sys \<Rightarrow> int \<Rightarrow> string \<Rightarrow> 'w \<Rightarrow> ((int + unit) \<times> 'w) option" where
  "wc sys fd name w =
     (case wc_loop (sread sys fd) (0, 0, 0, False) w of
        None \<Rightarrow> None
      | Some (n, (l, wd, c, _), w) \<Rightarrow>
          if n < 0 then Some (Inl 1, uputs sys 1 (''wc: read error'' @ eol) w)
          else Some (Inr (), uputs sys 1 (show_int l @ '' '' @ show_int wd @ '' '' @ show_int c @ '' '' @ name @ eol) w))"

fun wc_files :: "'w sys \<Rightarrow> string list \<Rightarrow> 'w \<Rightarrow> (int \<times> 'w) option" where
  "wc_files sys [] w = Some (0, w)"
| "wc_files sys (f # fs) w =
     (case sopen sys f 0 w of (fd, w) \<Rightarrow>
        if fd < 0 then Some (1, uputs sys 1 (''wc: cannot open '' @ f @ eol) w)
        else case wc sys fd f w of
            None \<Rightarrow> None
          | Some (Inl st, w) \<Rightarrow> Some (st, w)
          | Some (Inr _, w) \<Rightarrow> wc_files sys fs (sclose sys fd w))"

definition wc_main :: "'w sys \<Rightarrow> string list \<Rightarrow> 'w \<Rightarrow> (int \<times> 'w) option" where
  "wc_main sys args w =
     (if args = [] then
        (case wc sys 0 '''' w of None \<Rightarrow> None | Some (Inl st, w) \<Rightarrow> Some (st, w) | Some (Inr _, w) \<Rightarrow> Some (0, w))
      else wc_files sys args w)"

section \<open>echo, rm, mkdir, ln, kill, pwd\<close>

fun echo_args :: "'w sys \<Rightarrow> string list \<Rightarrow> 'w \<Rightarrow> 'w" where
  "echo_args sys [] w = w"
| "echo_args sys (a # as) w =
     (let w = snd (swrite sys 1 a w) in
      echo_args sys as (snd (swrite sys 1 (if as \<noteq> [] then '' '' else eol) w)))"

definition echo_main :: "'w sys \<Rightarrow> string list \<Rightarrow> 'w \<Rightarrow> int \<times> 'w" where
  "echo_main sys args w = (0, echo_args sys args w)"

fun rm_files :: "'w sys \<Rightarrow> string list \<Rightarrow> 'w \<Rightarrow> 'w" where
  "rm_files sys [] w = w"
| "rm_files sys (f # fs) w =
     (case sunlink sys f w of (r, w) \<Rightarrow>
        if r < 0 then uputs sys 2 (''rm: '' @ f @ '' failed to delete'' @ eol) w else rm_files sys fs w)"

definition rm_main :: "'w sys \<Rightarrow> string list \<Rightarrow> 'w \<Rightarrow> int \<times> 'w" where
  "rm_main sys args w =
     (if args = [] then (1, uputs sys 2 (''Usage: rm files...'' @ eol) w) else (0, rm_files sys args w))"

fun mkdir_files :: "'w sys \<Rightarrow> string list \<Rightarrow> 'w \<Rightarrow> 'w" where
  "mkdir_files sys [] w = w"
| "mkdir_files sys (f # fs) w =
     (case smkdir sys f w of (r, w) \<Rightarrow>
        if r < 0 then uputs sys 2 (''mkdir: '' @ f @ '' failed to create'' @ eol) w else mkdir_files sys fs w)"

definition mkdir_main :: "'w sys \<Rightarrow> string list \<Rightarrow> 'w \<Rightarrow> int \<times> 'w" where
  "mkdir_main sys args w =
     (if args = [] then (1, uputs sys 2 (''Usage: mkdir files...'' @ eol) w) else (0, mkdir_files sys args w))"

definition ln_main :: "'w sys \<Rightarrow> string list \<Rightarrow> 'w \<Rightarrow> int \<times> 'w" where
  "ln_main sys args w =
     (case args of
        [old, new] \<Rightarrow>
          (case slink sys old new w of (r, w) \<Rightarrow>
             (0, if r < 0 then uputs sys 2 (''link '' @ old @ '' '' @ new @ '': failed'' @ eol) w else w))
      | _ \<Rightarrow> (1, uputs sys 2 (''Usage: ln old new'' @ eol) w))"

text \<open>\<open>None\<close> when a number overflows in \<^verbatim>\<open>atoi\<close>.\<close>

fun kill_pids :: "'w sys \<Rightarrow> string list \<Rightarrow> 'w \<Rightarrow> 'w option" where
  "kill_pids sys [] w = Some w"
| "kill_pids sys (a # as) w =
     (case uatoi (map of_char a) of None \<Rightarrow> None | Some n \<Rightarrow> kill_pids sys as (snd (skill sys n w)))"

definition kill_main :: "'w sys \<Rightarrow> string list \<Rightarrow> 'w \<Rightarrow> (int \<times> 'w) option" where
  "kill_main sys args w =
     (if args = [] then Some (1, uputs sys 2 (''usage: kill pid...'' @ eol) w)
      else map_option (Pair 0) (kill_pids sys args w))"

definition pwd_main :: "'w sys \<Rightarrow> 'w \<Rightarrow> int \<times> 'w" where
  "pwd_main sys w =
     (case sgetcwd sys 128 w of (r, path, w) \<Rightarrow>
        if r < 0 then (1, uputs sys 2 (''pwd: getcwd failed'' @ eol) w)
        else (0, uputs sys 1 (path @ eol) w))"

section \<open>ls\<close>

text \<open>The part after the last slash, padded with blanks to \<^verbatim>\<open>DIRSIZ\<close> characters.\<close>

definition fmtname :: "string \<Rightarrow> string" where
  "fmtname path =
     (let p = rev (takeWhile (\<lambda>c. c \<noteq> CHR ''/'') (rev path)) in
      if length p \<ge> 14 then p else p @ replicate (14 - length p) (CHR '' ''))"

definition ls_line :: "string \<Rightarrow> ustat_t \<Rightarrow> string" where
  "ls_line path st =
     fmtname path @ '' '' @ show_int (of_int (st_type st)) @ '' '' @ show_int (st_ino st) @ '' '' @ show_int (ucast (st_size st)) @ eol"

definition stat_path :: "'w sys \<Rightarrow> string \<Rightarrow> 'w \<Rightarrow> int \<times> ustat_t option \<times> 'w" where
  "stat_path sys = ustat (\<lambda>n. sopen sys n 0) (sfstat sys) (\<lambda>fd w. (0, sclose sys fd w))"

text \<open>
  One directory entry: its inode number, the two bytes first, and its name of at most 14 bytes, up to a NUL. A stat that fails leaves \<^verbatim>\<open>st\<close> unread.
\<close>

definition ls_entry :: "'w sys \<Rightarrow> string \<Rightarrow> string \<Rightarrow> 'w \<Rightarrow> 'w" where
  "ls_entry sys path de w =
     (if of_char (de ! 0) = (0 :: nat) \<and> of_char (de ! 1) = (0 :: nat) then w
      else
        let buf = path @ ''/'' @ takeWhile (\<lambda>c. c \<noteq> CHR 0x00) (take 14 (drop 2 de)) in
        case stat_path sys buf w of (r, st, w) \<Rightarrow>
          case st of
            Some st \<Rightarrow> if r < 0 then uputs sys 1 (''ls: cannot stat '' @ buf @ eol) w else uputs sys 1 (ls_line buf st) w
          | None \<Rightarrow> uputs sys 1 (''ls: cannot stat '' @ buf @ eol) w)"

partial_function (option) ls_entries :: "'w sys \<Rightarrow> int \<Rightarrow> string \<Rightarrow> 'w \<Rightarrow> 'w option" where
  "ls_entries sys fd path w =
     (case sread sys fd 16 w of (n, de, w) \<Rightarrow>
        if n = 16 then ls_entries sys fd path (ls_entry sys path de w) else Some w)"

definition ls :: "'w sys \<Rightarrow> string \<Rightarrow> 'w \<Rightarrow> 'w option" where
  "ls sys path w =
     (case sopen sys path 0 w of (fd, w) \<Rightarrow>
        if fd < 0 then Some (uputs sys 2 (''ls: cannot open '' @ path @ eol) w)
        else case sfstat sys fd w of (r, st, w) \<Rightarrow>
          if r < 0 then Some (sclose sys fd (uputs sys 2 (''ls: cannot stat '' @ path @ eol) w))
          else map_option (sclose sys fd)
            (if st_type st = 3 \<or> st_type st = 2 then Some (uputs sys 1 (ls_line path st) w)
             else if st_type st = 1 then
               (if length path + 1 + 14 + 1 > 512 then Some (uputs sys 1 (''ls: path too long'' @ eol) w)
                else ls_entries sys fd path w)
             else Some w))"

fun ls_paths :: "'w sys \<Rightarrow> string list \<Rightarrow> 'w \<Rightarrow> 'w option" where
  "ls_paths sys [] w = Some w"
| "ls_paths sys (p # ps) w = (case ls sys p w of None \<Rightarrow> None | Some w \<Rightarrow> ls_paths sys ps w)"

definition ls_main :: "'w sys \<Rightarrow> string list \<Rightarrow> 'w \<Rightarrow> (int \<times> 'w) option" where
  "ls_main sys args w = map_option (Pair 0) (if args = [] then ls sys ''.'' w else ls_paths sys args w)"

section \<open>A world of files\<close>

text \<open>
  What the programs rely on of the system calls: \<open>stored\<close> gives the files, \<open>left fd w\<close> what is still to be read from a descriptor, \<open>out\<close> what has
  been written to descriptor 1. Opening succeeds on a stored file and starts at its first byte; a read gives some of what is left, none
  only at the end; a write to descriptor 1 is not cut short.
\<close>

definition file_world :: "'w sys \<Rightarrow> (string \<rightharpoonup> string) \<Rightarrow> (int \<Rightarrow> 'w \<Rightarrow> string) \<Rightarrow> ('w \<Rightarrow> string) \<Rightarrow> bool" where
  "file_world sys stored left out \<longleftrightarrow>
     (\<forall>f s w. stored f = Some s \<longrightarrow> (case sopen sys f 0 w of (fd, w') \<Rightarrow> 0 \<le> fd \<and> left fd w' = s \<and> out w' = out w)) \<and>
     (\<forall>fd. delivers (sread sys fd) (left fd)) \<and>
     (\<forall>fd n w. out (snd (snd (sread sys fd n w))) = out w) \<and>
     (\<forall>s w. case swrite sys 1 s w of (r, w') \<Rightarrow> r = int (length s) \<and> out w' = out w @ s \<and> (\<forall>fd. left fd w' = left fd w)) \<and>
     (\<forall>fd w. out (sclose sys fd w) = out w)"

lemma file_worldD:
  assumes "file_world sys stored left out"
  shows "stored f = Some s \<Longrightarrow> sopen sys f 0 w = (fd, w') \<Longrightarrow> 0 \<le> fd \<and> left fd w' = s \<and> out w' = out w"
    and "delivers (sread sys fd) (left fd)"
    and "sread sys fd n w = (k, bs, w') \<Longrightarrow> out w' = out w"
    and "swrite sys 1 s w = (r, w') \<Longrightarrow> r = int (length s) \<and> out w' = out w @ s \<and> left fd w' = left fd w"
    and "out (sclose sys fd w) = out w"
proof -
  note fw = assms[unfolded file_world_def]
  show "stored f = Some s \<Longrightarrow> sopen sys f 0 w = (fd, w') \<Longrightarrow> 0 \<le> fd \<and> left fd w' = s \<and> out w' = out w"
    using fw[THEN conjunct1, rule_format, of f s w] by simp
  show "delivers (sread sys fd) (left fd)" using fw by blast
  show "sread sys fd n w = (k, bs, w') \<Longrightarrow> out w' = out w"
    using fw[THEN conjunct2, THEN conjunct2, THEN conjunct1, rule_format, of fd n w] by simp
  show "swrite sys 1 s w = (r, w') \<Longrightarrow> r = int (length s) \<and> out w' = out w @ s \<and> left fd w' = left fd w"
    using fw[THEN conjunct2, THEN conjunct2, THEN conjunct2, THEN conjunct1, THEN spec, of s, THEN spec, of w] by simp
  show "out (sclose sys fd w) = out w" using fw by blast
qed

lemma deliversD:
  assumes "delivers rd content" "rd n w = (k, bs, w')"
  shows "k = int (length bs)" "content w = bs @ content w'" "0 < n \<Longrightarrow> content w \<noteq> [] \<Longrightarrow> bs \<noteq> []"
  using assms unfolding delivers_def by (auto dest!: spec[of _ n] spec[of _ w])

lemma uputs_out:
  assumes "file_world sys stored left out"
  shows "out (uputs sys 1 s w) = out w @ s"
proof (induction s arbitrary: w)
  case (Cons c s)
  then show ?case using file_worldD(4)[OF assms, of "[c]" w] by (cases "swrite sys 1 [c] w") (auto simp: uputs_def)
qed (simp add: uputs_def)

text \<open>The copying loop, whatever it reads from and writes to.\<close>

lemma copy_loop_copies:
  assumes "delivers rd content" "0 < n"
    and "\<And>m w k bs w'. rd m w = (k, bs, w') \<Longrightarrow> out w' = out w"
    and "\<And>s w r w'. wr s w = (r, w') \<Longrightarrow> r = int (length s) \<and> out w' = out w @ s \<and> content w' = content w"
  shows "\<exists>w'. copy_loop rd wr n w = Some (Copied, w') \<and> out w' = out w @ content w \<and> content w' = []"
proof (induction "length (content w)" arbitrary: w rule: less_induct)
  case less
  obtain k bs w1 where rd: "rd n w = (k, bs, w1)" by (rule prod_cases3[of "rd n w"])
  note d = deliversD[of rd content, OF assms(1) rd] and o = assms(3)[OF rd]
  show ?case
  proof (cases "bs = []")
    case True
    have c: "content w = []" using d(3)[OF assms(2)] True by blast
    moreover have "copy_loop rd wr n w = Some (Copied, w1)" using d(1) True by (subst copy_loop.simps) (simp add: rd)
    moreover have "content w1 = []" using d(2) unfolding c by simp
    ultimately show ?thesis using o by simp
  next
    case False
    obtain r w2 where wr: "wr bs w1 = (r, w2)" by (cases "wr bs w1") auto
    note a = assms(4)[OF wr]
    have "length (content w2) < length (content w)" using d(2) a False by simp
    from less.hyps[OF this] obtain w3 where
      w3: "copy_loop rd wr n w2 = Some (Copied, w3)" "out w3 = out w2 @ content w2" "content w3 = []" by blast
    have "copy_loop rd wr n w = Some (Copied, w3)" using d(1) a False by (subst copy_loop.simps) (simp add: rd wr w3)
    then show ?thesis using w3 a o d(2) by simp
  qed
qed

lemma cat_copies:
  assumes "file_world sys stored left out"
  shows "\<exists>w'. cat sys fd w = Some (Inr (), w') \<and> out w' = out w @ left fd w"
proof -
  have "\<exists>w'. copy_loop (sread sys fd) (swrite sys 1) 512 w = Some (Copied, w') \<and> out w' = out w @ left fd w \<and> left fd w' = []"
    using file_worldD(2,3,4)[OF assms] by (intro copy_loop_copies) auto
  then show ?thesis by (auto simp: cat_def)
qed

lemma cat_files_copies:
  assumes "file_world sys stored left out" "\<forall>f\<in>set fs. f \<in> dom stored"
  shows "\<exists>w'. cat_files sys fs w = Some (0, w') \<and> out w' = out w @ concat (map (\<lambda>f. the (stored f)) fs)"
  using assms(2)
proof (induction fs arbitrary: w)
  case (Cons f fs)
  then obtain s where s: "stored f = Some s" by auto
  obtain fd w1 where o: "sopen sys f 0 w = (fd, w1)" by (cases "sopen sys f 0 w") auto
  note op = file_worldD(1)[OF assms(1) s o]
  obtain w2 where c: "cat sys fd w1 = Some (Inr (), w2)" "out w2 = out w1 @ left fd w1" using cat_copies[OF assms(1)] by blast
  show ?case using Cons.IH[of "sclose sys fd w2"] Cons.prems o op c s file_worldD(5)[OF assms(1)] by auto
qed simp

text \<open>
  C36. \<^verbatim>\<open>cat\<close> terminates and copies: on files that exist it exits with status 0, having written to its output the contents of the files one after
  the other, however the reads cut them into pieces; with no argument, what its standard input held.
\<close>

theorem cat_concatenates:
  assumes "file_world sys stored left out" "\<forall>f\<in>set args. f \<in> dom stored"
  shows "\<exists>w'. cat_main sys args w = Some (0, w') \<and>
           out w' = out w @ (if args = [] then left 0 w else concat (map (\<lambda>f. the (stored f)) args))"
  using cat_files_copies[OF assms, of w] cat_copies[OF assms(1), of 0 w] by (auto simp: cat_main_def)

text \<open>Two files, read at most three bytes at a time.\<close>

definition demo_stored :: "string \<rightharpoonup> string" where
  "demo_stored = [''a'' \<mapsto> ''one two'' @ eol, ''b'' \<mapsto> '' three'']"

definition demo_sys :: "((int \<Rightarrow> string) \<times> string) sys" where
  "demo_sys = \<lparr>
     sopen = (\<lambda>f m (l, o'). case demo_stored f of Some s \<Rightarrow> (3, l(3 := s), o') | None \<Rightarrow> (-1, l, o')),
     sread = (\<lambda>fd n (l, o'). let k = min n 3 in (int (length (take k (l fd))), take k (l fd), l(fd := drop k (l fd)), o')),
     swrite = (\<lambda>fd s (l, o'). (int (length s), l, if fd = 1 then o' @ s else o')),
     sclose = (\<lambda>fd w. w),
     sfstat = (\<lambda>fd w. (-1, \<lparr>st_ino = 0, st_type = 0, st_size = 0\<rparr>, w)),
     sunlink = (\<lambda>f w. (-1, w)), smkdir = (\<lambda>f w. (-1, w)), slink = (\<lambda>f g w. (-1, w)), skill = (\<lambda>n w. (-1, w)),
     sgetcwd = (\<lambda>n w. (-1, [], w))\<rparr>"

lemma demo_world: "file_world demo_sys demo_stored (\<lambda>fd w. fst w fd) snd"
  by (auto simp: file_world_def demo_sys_def delivers_def Let_def split: prod.splits)

theorem cat_concatenates_witness:
  "\<exists>w'. cat_main demo_sys [''a'', ''b'', ''a''] (\<lambda>_. [], []) = Some (0, w')
    \<and> snd w' = ''one two'' @ eol @ '' threeone two'' @ eol"
proof -
  have "\<forall>f\<in>set [''a'', ''b'', ''a'']. f \<in> dom demo_stored" by (simp add: demo_stored_def dom_def)
  from cat_concatenates[OF demo_world this, of "(\<lambda>_. [], [])"] show ?thesis by (simp add: demo_stored_def)
qed

section \<open>What wc counts\<close>

definition lines_in :: "string \<Rightarrow> nat" where
  "lines_in s = length (filter (\<lambda>c. c = CHR 0x0A) s)"

text \<open>A word begins at a character that is not blank and that follows a blank or nothing.\<close>

definition begins_word :: "string \<Rightarrow> nat \<Rightarrow> bool" where
  "begins_word s i \<longleftrightarrow> \<not> wc_blank (s ! i) \<and> (i = 0 \<or> wc_blank (s ! (i - 1)))"

definition words_in :: "string \<Rightarrow> nat" where
  "words_in s = length (filter (begins_word s) [0..<length s])"

lemma words_in_snoc: "words_in (s @ [b]) = words_in s + (if \<not> wc_blank b \<and> (s = [] \<or> wc_blank (last s)) then 1 else 0)"
proof -
  have "filter (begins_word (s @ [b])) [0..<length s] = filter (begins_word s) [0..<length s]"
    by (rule filter_cong) (auto simp: begins_word_def nth_append)
  moreover have "begins_word (s @ [b]) (length s) \<longleftrightarrow> \<not> wc_blank b \<and> (s = [] \<or> wc_blank (last s))"
    by (cases s rule: rev_cases) (auto simp: begins_word_def nth_append)
  ultimately show ?thesis by (simp add: words_in_def)
qed

lemma wc_counts_text:
  "fold wc_char s (0, 0, 0, False) =
     (of_nat (lines_in s), of_nat (words_in s), of_nat (length s), s \<noteq> [] \<and> \<not> wc_blank (last s))"
proof (induction s rule: rev_induct)
  case Nil
  then show ?case by (simp add: lines_in_def words_in_def)
next
  case (snoc b s)
  then show ?case by (auto simp: wc_char_def lines_in_def words_in_snoc Let_def)
qed

lemma wc_loop_counts:
  assumes "delivers rd content" "\<And>m w k bs w'. rd m w = (k, bs, w') \<Longrightarrow> out w' = out w"
  shows "\<exists>w'. wc_loop rd st w = Some (0, fold wc_char (content w) st, w') \<and> out w' = out w"
proof (induction "length (content w)" arbitrary: w st rule: less_induct)
  case less
  obtain k bs w1 where rd: "rd 512 w = (k, bs, w1)" by (rule prod_cases3[of "rd 512 w"])
  note d = deliversD[of rd content, OF assms(1) rd] and o = assms(2)[OF rd]
  show ?case
  proof (cases "bs = []")
    case True
    have c: "content w = []" using d(3) True by fastforce
    have "wc_loop rd st w = Some (0, st, w1)" using d(1) True by (subst wc_loop.simps) (simp add: rd)
    then show ?thesis using o c by simp
  next
    case False
    then have "length (content w1) < length (content w)" using d(2) by simp
    from less.hyps[OF this, of "fold wc_char bs st"] obtain w2 where
      w2: "wc_loop rd (fold wc_char bs st) w1 = Some (0, fold wc_char (content w1) (fold wc_char bs st), w2)" "out w2 = out w1" by blast
    have "wc_loop rd st w = Some (0, fold wc_char (content w1) (fold wc_char bs st), w2)"
      using d(1) False by (subst wc_loop.simps) (simp add: rd w2)
    then show ?thesis using w2 o d(2) by simp
  qed
qed

definition wc_report :: "string \<Rightarrow> string \<Rightarrow> string" where
  "wc_report name s =
     show_int (of_nat (lines_in s)) @ '' '' @ show_int (of_nat (words_in s)) @ '' '' @ show_int (of_nat (length s)) @ '' '' @ name @ eol"

lemma wc_reports:
  assumes "file_world sys stored left out"
  shows "\<exists>w'. wc sys fd name w = Some (Inr (), w') \<and> out w' = out w @ wc_report name (left fd w)"
proof -
  have "\<exists>w'. wc_loop (sread sys fd) (0, 0, 0, False) w = Some (0, fold wc_char (left fd w) (0, 0, 0, False), w') \<and> out w' = out w"
    using file_worldD(2,3)[OF assms] by (intro wc_loop_counts) auto
  then show ?thesis using uputs_out[OF assms] by (auto simp: wc_def wc_counts_text wc_report_def)
qed

lemma wc_files_report:
  assumes "file_world sys stored left out" "\<forall>f\<in>set fs. f \<in> dom stored"
  shows "\<exists>w'. wc_files sys fs w = Some (0, w') \<and> out w' = out w @ concat (map (\<lambda>f. wc_report f (the (stored f))) fs)"
  using assms(2)
proof (induction fs arbitrary: w)
  case (Cons f fs)
  then obtain s where s: "stored f = Some s" by auto
  obtain fd w1 where o: "sopen sys f 0 w = (fd, w1)" by (cases "sopen sys f 0 w") auto
  note op = file_worldD(1)[OF assms(1) s o]
  obtain w2 where c: "wc sys fd f w1 = Some (Inr (), w2)" "out w2 = out w1 @ wc_report f (left fd w1)"
    using wc_reports[OF assms(1)] by blast
  show ?case using Cons.IH[of "sclose sys fd w2"] Cons.prems o op c s file_worldD(5)[OF assms(1)] by auto
qed simp

text \<open>
  C37. \<^verbatim>\<open>wc\<close> counts right, however the reads cut the input: for every file it reports the number of newlines, the number of positions where a word
  begins and the number of bytes, each in the 32 bits of an \<^verbatim>\<open>int\<close>, and the name, and it exits with status 0.
\<close>

theorem wc_counts:
  assumes "file_world sys stored left out" "\<forall>f\<in>set args. f \<in> dom stored"
  shows "\<exists>w'. wc_main sys args w = Some (0, w') \<and>
           out w' = out w @ (if args = [] then wc_report [] (left 0 w) else concat (map (\<lambda>f. wc_report f (the (stored f))) args))"
  using wc_files_report[OF assms, of w] wc_reports[OF assms(1), of 0 "[]" w] by (auto simp: wc_main_def)

theorem wc_counts_witness:
  "\<exists>w'. wc_main demo_sys [''a'', ''b''] (\<lambda>_. [], []) = Some (0, w') \<and> snd w' = ''1 2 8 a'' @ eol @ ''0 1 6 b'' @ eol"
proof -
  have "\<forall>f\<in>set [''a'', ''b'']. f \<in> dom demo_stored" by (simp add: demo_stored_def dom_def)
  moreover have "wc_report ''a'' (''one two'' @ eol) = ''1 2 8 a'' @ eol" "wc_report ''b'' '' three'' = ''0 1 6 b'' @ eol" by code_simp+
  ultimately show ?thesis using wc_counts[OF demo_world, of "[''a'', ''b'']" "(\<lambda>_. [], [])"] by (simp add: demo_stored_def)
qed

end
