(* ===== verification/Commands.thy ===== *)
theory Commands
  imports Uprogs Ush "HOL-Library.Sublist"
begin

text \<open>
  The utilities of \<^verbatim>\<open>Project_2/custom_commands\<close>: \<^verbatim>\<open>custom_cat\<close>, \<^verbatim>\<open>custom_cp\<close>, \<^verbatim>\<open>custom_mv\<close>, \<^verbatim>\<open>custom_rm\<close> and \<^verbatim>\<open>custom_ls\<close> over the system and library
  calls they make, \<^verbatim>\<open>custom_grep\<close> and \<^verbatim>\<open>custom_wc\<close> as functions of the files they read. A program gets \<^verbatim>\<open>argv\<close> with its name first.
\<close>

section \<open>Calls\<close>

datatype oflag = RDONLY | WRONLY | CREAT | TRUNC

datatype ftype = REG | DIR | CHR_DEV | BLK_DEV | OTHER

record lstat_t =
  ls_type :: ftype
  ls_ixusr :: bool
  ls_ino :: u64
  ls_size :: u64

text \<open>
  Output to \<^verbatim>\<open>stdout\<close> and \<^verbatim>\<open>stderr\<close>, \<^verbatim>\<open>perror\<close>, and \<^verbatim>\<open>strerror(errno)\<close> are calls as the others. The third argument of \<^verbatim>\<open>open\<close> is 0 where the program leaves it
  out; \<^verbatim>\<open>O_BINARY\<close> is 0.
\<close>

record 'w unix =
  xopen :: "string \<Rightarrow> oflag list \<Rightarrow> nat \<Rightarrow> 'w \<Rightarrow> int \<times> 'w"
  xread :: "int \<Rightarrow> nat \<Rightarrow> 'w \<Rightarrow> int \<times> string \<times> 'w"
  xwrite :: "int \<Rightarrow> string \<Rightarrow> 'w \<Rightarrow> int \<times> 'w"
  xclose :: "int \<Rightarrow> 'w \<Rightarrow> 'w"
  xrename :: "string \<Rightarrow> string \<Rightarrow> 'w \<Rightarrow> int \<times> 'w"
  xunlink :: "string \<Rightarrow> 'w \<Rightarrow> int \<times> 'w"
  xrmdir :: "string \<Rightarrow> 'w \<Rightarrow> int \<times> 'w"
  xlstat :: "string \<Rightarrow> 'w \<Rightarrow> int \<times> lstat_t \<times> 'w"
  xopendir :: "string \<Rightarrow> 'w \<Rightarrow> nat option \<times> 'w"
  xreaddir :: "nat \<Rightarrow> 'w \<Rightarrow> string option \<times> 'w"
  xclosedir :: "nat \<Rightarrow> 'w \<Rightarrow> 'w"
  xout :: "string \<Rightarrow> 'w \<Rightarrow> 'w"
  xerr :: "string \<Rightarrow> 'w \<Rightarrow> 'w"
  xperror :: "string \<Rightarrow> 'w \<Rightarrow> 'w"
  xstrerror :: "'w \<Rightarrow> string"

section \<open>custom_cat, custom_cp, custom_mv\<close>

definition BUFFER_SIZE :: nat where "BUFFER_SIZE = 4096"

definition custom_cat :: "'w unix \<Rightarrow> string list \<Rightarrow> 'w \<Rightarrow> (int \<times> 'w) option" where
  "custom_cat u argv w =
     (if length argv < 2 then Some (1, xout u (''Usage: '' @ argv ! 0 @ '' <filename>'' @ eol) w)
      else case xopen u (argv ! 1) [RDONLY] 0 w of (fd, w) \<Rightarrow>
        if fd = -1 then Some (1, xperror u ''Error opening file'' w)
        else case copy_loop (xread u fd) (xwrite u 1) BUFFER_SIZE w of
            None \<Rightarrow> None
          | Some (WriteError, w) \<Rightarrow> Some (1, xclose u fd (xperror u ''Error writing to stdout'' w))
          | Some (ReadError, w) \<Rightarrow> Some (0, xclose u fd (xperror u ''Error reading file'' w))
          | Some (Copied, w) \<Rightarrow> Some (0, xclose u fd w))"

text \<open>The part that \<^verbatim>\<open>custom_cp\<close> and \<^verbatim>\<open>custom_mv\<close> have in common, with the messages of each: \<open>True\<close> when both files are closed after the loop, also after a read error.\<close>

definition copy_file :: "'w unix \<Rightarrow> string \<Rightarrow> string \<Rightarrow> string \<Rightarrow> string \<Rightarrow> string \<Rightarrow> string \<Rightarrow> 'w \<Rightarrow> (bool \<times> 'w) option" where
  "copy_file u no_source no_dest no_write no_read source dest w =
     (case xopen u source [RDONLY] 0 w of (source_fd, w) \<Rightarrow>
        if source_fd < 0 then Some (False, xperror u no_source w)
        else case xopen u dest [WRONLY, CREAT, TRUNC] 420 w of (dest_fd, w) \<Rightarrow>
          if dest_fd < 0 then Some (False, xclose u source_fd (xperror u no_dest w))
          else case copy_loop (xread u source_fd) (xwrite u dest_fd) BUFFER_SIZE w of
              None \<Rightarrow> None
            | Some (WriteError, w) \<Rightarrow> Some (False, xclose u dest_fd (xclose u source_fd (xperror u no_write w)))
            | Some (ReadError, w) \<Rightarrow> Some (True, xclose u dest_fd (xclose u source_fd (xperror u no_read w)))
            | Some (Copied, w) \<Rightarrow> Some (True, xclose u dest_fd (xclose u source_fd w)))"

definition custom_cp :: "'w unix \<Rightarrow> string list \<Rightarrow> 'w \<Rightarrow> (int \<times> 'w) option" where
  "custom_cp u argv w =
     (if length argv \<noteq> 3 then Some (1, xerr u (''Usage: '' @ argv ! 0 @ '' <source_file> <destination_file>'' @ eol) w)
      else case copy_file u ''custom_cp: Oops, error opening the source file'' ''custom_cp: Couldn't open the destination file''
          ''custom_cp: Encountered an error while writing out the copy'' ''custom_cp: Something went wrong reading the source file''
          (argv ! 1) (argv ! 2) w of
          None \<Rightarrow> None
        | Some (ok, w) \<Rightarrow> Some (if ok then 0 else 1, w))"

definition copy_and_delete :: "'w unix \<Rightarrow> string \<Rightarrow> string \<Rightarrow> 'w \<Rightarrow> (int \<times> 'w) option" where
  "copy_and_delete u source dest w =
     (case copy_file u ''custom_mv: Error opening source file'' ''custom_mv: Couldn't open the destination file''
          ''custom_mv: Encountered an error while copying'' ''custom_mv: Something went wrong reading the source file'' source dest w of
        None \<Rightarrow> None
      | Some (ok, w) \<Rightarrow>
          if \<not> ok then Some (1, w)
          else case xunlink u source w of (r, w) \<Rightarrow>
            if r \<noteq> 0 then Some (1, xperror u ''custom_mv: Copied successfully, but couldn't delete original file'' w) else Some (0, w))"

definition custom_mv :: "'w unix \<Rightarrow> string list \<Rightarrow> 'w \<Rightarrow> (int \<times> 'w) option" where
  "custom_mv u argv w =
     (if length argv \<noteq> 3 then Some (1, xerr u (''Usage: '' @ argv ! 0 @ '' <source_file> <destination_path>'' @ eol) w)
      else case xrename u (argv ! 1) (argv ! 2) w of (r, w) \<Rightarrow>
        if r = 0 then Some (0, w)
        else copy_and_delete u (argv ! 1) (argv ! 2)
          (xerr u (''custom_mv: Notice - Standard rename failed, falling back to copy+delete...'' @ eol) w))"

section \<open>custom_rm\<close>

text \<open>The loop over the entries of a directory, with \<^verbatim>\<open>custom_rm\<close> itself as an argument.\<close>

partial_function (option) rm_entries ::
  "'w unix \<Rightarrow> (string \<Rightarrow> 'w \<times> u32 \<times> u32 \<Rightarrow> ('w \<times> u32 \<times> u32) option) \<Rightarrow> nat \<Rightarrow> string \<Rightarrow> 'w \<times> u32 \<times> u32 \<Rightarrow> ('w \<times> u32 \<times> u32) option" where
  "rm_entries u rm dp path st =
     (case st of (w, nf, nd) \<Rightarrow>
        case xreaddir u dp w of (de, w) \<Rightarrow>
          case de of
            None \<Rightarrow> Some (w, nf, nd)
          | Some name \<Rightarrow>
              if name = ''.'' \<or> name = ''..'' then rm_entries u rm dp path (w, nf, nd)
              else
                let buf = path @ ''/'' @ name in
                if length buf \<ge> 1024 then rm_entries u rm dp path (xerr u (''custom_rm: path too long'' @ eol) w, nf, nd)
                else case rm buf (w, nf, nd) of
                    None \<Rightarrow> None
                  | Some st \<Rightarrow> rm_entries u rm dp path st)"

lemma rm_entries_agree:
  "rm_entries u rm dp path st = Some y \<Longrightarrow>
   (\<forall>name st. length (path @ ''/'' @ name) < 1024 \<longrightarrow> rm (path @ ''/'' @ name) st = rm' (path @ ''/'' @ name) st) \<longrightarrow>
   rm_entries u rm' dp path st = Some y"
proof (induction rule: rm_entries.raw_induct[rotated, consumes 1])
  case (1 go u rm dp path st y)
  show ?case
  proof
    assume ag: "\<forall>name st. length (path @ ''/'' @ name) < 1024 \<longrightarrow> rm (path @ ''/'' @ name) st = rm' (path @ ''/'' @ name) st"
    have IH: "rm_entries u rm' dp path st = Some y" if "go u rm dp path st = Some y" for st using 1(1)[OF that] ag by blast
    obtain w nf nd where st: "st = (w, nf, nd)" by (cases st)
    obtain de w1 where rd: "xreaddir u dp w = (de, w1)" by (cases "xreaddir u dp w")
    show "rm_entries u rm' dp path st = Some y"
    proof (cases de)
      case None
      then show ?thesis using 1(2) unfolding st by (subst rm_entries.simps) (simp add: rd)
    next
      case (Some name)
      consider "name = ''.'' \<or> name = ''..''" | "name \<noteq> ''.''" "name \<noteq> ''..''" "length (path @ ''/'' @ name) \<ge> 1024"
        | "name \<noteq> ''.''" "name \<noteq> ''..''" "length (path @ ''/'' @ name) < 1024" by linarith
      then show ?thesis
      proof cases
        case 3
        then show ?thesis using 1(2) Some ag IH unfolding st
          by (subst rm_entries.simps) (auto simp: rd Let_def split: option.splits)
      qed (use 1(2) Some IH in \<open>subst rm_entries.simps, auto simp: rd st Let_def\<close>)+
    qed
  qed
qed

lemma rm_entries_cong [fundef_cong]:
  assumes "u = u'" "dp = dp'" "path = path'" "st = st'"
    "\<And>name st. length (path' @ ''/'' @ name) < 1024 \<Longrightarrow> rm (path' @ ''/'' @ name) st = rm' (path' @ ''/'' @ name) st"
  shows "rm_entries u rm dp path st = rm_entries u' rm' dp' path' st'"
proof -
  have "rm_entries u' rm dp' path' st' = Some y \<longleftrightarrow> rm_entries u' rm' dp' path' st' = Some y" for y
    using rm_entries_agree[of u' rm dp' path' st' y rm'] rm_entries_agree[of u' rm' dp' path' st' y rm] assms(5) by auto
  then show ?thesis using assms(1-4) by (metis option.exhaust)
qed

record rm_flags =
  flag_r :: bool
  flag_v :: bool
  rm_flag_s :: bool

text \<open>The state has the counters \<^verbatim>\<open>total_files_deleted\<close> and \<^verbatim>\<open>total_dirs_deleted\<close>. The recursion ends because a path that is followed is longer than the one before and shorter than the buffer.\<close>

function custom_rm :: "'w unix \<Rightarrow> rm_flags \<Rightarrow> string \<Rightarrow> 'w \<times> u32 \<times> u32 \<Rightarrow> ('w \<times> u32 \<times> u32) option" where
  "custom_rm u fl path (w, nf, nd) =
     (case xlstat u path w of (r, st, w) \<Rightarrow>
        if r < 0 then Some (xerr u (''custom_rm: cannot stat '' @ [CHR 0x27] @ path @ [CHR 0x27] @ '': '' @ xstrerror u w @ eol) w, nf, nd)
        else if ls_type st = DIR then
          (if \<not> flag_r fl then Some (xerr u (''custom_rm: cannot remove '' @ [CHR 0x27] @ path @ [CHR 0x27] @ '': Is a directory (use -r)'' @ eol) w, nf, nd)
           else case xopendir u path w of (dp, w) \<Rightarrow>
             case dp of
               None \<Rightarrow> Some (xerr u (''custom_rm: cannot open directory '' @ [CHR 0x27] @ path @ [CHR 0x27] @ '': '' @ xstrerror u w @ eol) w, nf, nd)
             | Some dp \<Rightarrow>
                 (case rm_entries u (\<lambda>buf. custom_rm u fl buf) dp path (w, nf, nd) of
                    None \<Rightarrow> None
                  | Some (w, nf, nd) \<Rightarrow>
                      (case xrmdir u path (xclosedir u dp w) of (r, w) \<Rightarrow>
                         if r = 0 then
                           Some (if flag_v fl then xout u (''removed directory: '' @ [CHR 0x27] @ path @ [CHR 0x27] @ eol) w else w, nf, nd + 1)
                         else Some (xerr u (''custom_rm: cannot remove directory '' @ [CHR 0x27] @ path @ [CHR 0x27] @ '': '' @ xstrerror u w @ eol) w, nf, nd))))
        else case xunlink u path w of (r, w) \<Rightarrow>
          if r = 0 then Some (if flag_v fl then xout u (''removed file: '' @ [CHR 0x27] @ path @ [CHR 0x27] @ eol) w else w, nf + 1, nd)
          else Some (xerr u (''custom_rm: cannot remove '' @ [CHR 0x27] @ path @ [CHR 0x27] @ '': '' @ xstrerror u w @ eol) w, nf, nd))"
  by pat_completeness auto
termination by (relation "measure (\<lambda>(u, fl, path, st). 1024 - length path)") auto

fun rm_opt :: "string \<Rightarrow> rm_flags \<Rightarrow> char + rm_flags" where
  "rm_opt [] fl = Inr fl"
| "rm_opt (c # cs) fl =
     (if c = CHR ''r'' \<or> c = CHR ''R'' then rm_opt cs (fl\<lparr>flag_r := True\<rparr>)
      else if c = CHR ''v'' then rm_opt cs (fl\<lparr>flag_v := True\<rparr>)
      else if c = CHR ''s'' then rm_opt cs (fl\<lparr>rm_flag_s := True\<rparr>)
      else Inl c)"

text \<open>The leading arguments that begin with a minus, with the scanner of the letters as an argument: \<open>Inl\<close> is the first letter it refuses, \<open>Inr\<close> has the arguments that are left.\<close>

fun options :: "(string \<Rightarrow> 'f \<Rightarrow> char + 'f) \<Rightarrow> 'f \<Rightarrow> string list \<Rightarrow> char + 'f \<times> string list" where
  "options opt fl [] = Inr (fl, [])"
| "options opt fl (a # as) =
     (if take 1 a = ''-'' then (case opt (drop 1 a) fl of Inl c \<Rightarrow> Inl c | Inr fl \<Rightarrow> options opt fl as) else Inr (fl, a # as))"

fun rm_paths :: "'w unix \<Rightarrow> rm_flags \<Rightarrow> string list \<Rightarrow> 'w \<times> u32 \<times> u32 \<Rightarrow> ('w \<times> u32 \<times> u32) option" where
  "rm_paths u fl [] st = Some st"
| "rm_paths u fl (p # ps) st =
     (if p = ''/'' \<or> p = ''.'' \<or> p = ''..'' then
        rm_paths u fl ps (apfst (xerr u (''custom_rm: refusing to remove '' @ [CHR 0x27] @ ''.'' @ [CHR 0x27] @ '' or '' @ [CHR 0x27] @ ''/'' @ [CHR 0x27] @ '' or '' @ [CHR 0x27] @ ''..'' @ [CHR 0x27] @ eol)) st)
      else case custom_rm u fl p st of None \<Rightarrow> None | Some st \<Rightarrow> rm_paths u fl ps st)"

definition rm_summary :: "u32 \<Rightarrow> u32 \<Rightarrow> string" where
  "rm_summary nf nd =
     (let bar = replicate 40 (CHR ''='') @ eol in
      eol @ bar @ ''            DELETION SUMMARY            '' @ eol @ bar @
      ''  Directories Removed : '' @ show_int nd @ eol @ ''  Files Removed       : '' @ show_int nf @ eol @ bar)"

definition custom_rm_main :: "'w unix \<Rightarrow> string list \<Rightarrow> 'w \<Rightarrow> (int \<times> 'w) option" where
  "custom_rm_main u argv w =
     (case options rm_opt \<lparr>flag_r = False, flag_v = False, rm_flag_s = False\<rparr> (drop 1 argv) of
        Inl c \<Rightarrow> Some (1, xerr u (''custom_rm: unknown flag -'' @ [c] @ eol) w)
      | Inr (fl, paths) \<Rightarrow>
          if paths = [] then
            Some (1, xerr u (''Usage: custom_rm [-rvs] <file1> <file2> ...'' @ eol) (xerr u (''custom_rm: missing operand'' @ eol) w))
          else case rm_paths u fl paths (w, 0, 0) of
              None \<Rightarrow> None
            | Some (w, nf, nd) \<Rightarrow> Some (0, if rm_flag_s fl then xout u (rm_summary nf nd) w else w))"

section \<open>custom_ls\<close>

record ls_flags =
  flag_l :: bool
  ls_flag_s :: bool

text \<open>The world with \<^verbatim>\<open>total_dirs\<close>, \<^verbatim>\<open>total_files\<close>, \<^verbatim>\<open>total_bytes\<close>.\<close>

type_synonym 'w ls_state = "'w \<times> u32 \<times> u32 \<times> u32"

definition esc :: "string \<Rightarrow> string" where
  "esc s = CHR 0x1B # s"

definition ls_name :: "string \<Rightarrow> string" where
  "ls_name path = rev (takeWhile (\<lambda>c. c \<noteq> CHR ''/'') (rev path))"

definition print_file :: "ls_flags \<Rightarrow> lstat_t \<Rightarrow> string \<Rightarrow> string" where
  "print_file fl st name =
     (let reset = esc ''[0m'';
          dev = (ls_type st = CHR_DEV \<or> ls_type st = BLK_DEV);
          color = (if ls_type st = DIR then esc ''[1;36m''
                   else if dev then esc ''[1;33m''
                   else if ls_type st = REG \<and> ls_ixusr st then esc ''[1;32m''
                   else reset)
      in if flag_l fl then
           color @ name @ reset @ replicate (20 - length name) (CHR '' '') @
           '' '' @ (if ls_type st = DIR then ''DIR '' else if dev then ''DEV '' else ''FILE'') @ '' '' @
           uprintint (ls_ino st) 10 False @ '' '' @ uprintint (ls_size st) 10 True @ eol
         else color @ name @ reset @ ''  '')"

definition count_entry :: "lstat_t \<Rightarrow> 'w ls_state \<Rightarrow> 'w ls_state" where
  "count_entry st s =
     (case s of (w, nd, nf, nb) \<Rightarrow>
        if ls_type st = REG then (w, nd, nf + 1, nb + ucast (ls_size st))
        else if ls_type st = CHR_DEV \<or> ls_type st = BLK_DEV then (w, nd, nf + 1, nb)
        else if ls_type st = DIR then (w, nd + 1, nf, nb)
        else s)"

partial_function (option) custom_ls_entries :: "'w unix \<Rightarrow> ls_flags \<Rightarrow> nat \<Rightarrow> string \<Rightarrow> 'w ls_state \<Rightarrow> 'w ls_state option" where
  "custom_ls_entries u fl dp path s =
     (case s of (w, t) \<Rightarrow>
        case xreaddir u dp w of (de, w) \<Rightarrow>
          case de of
            None \<Rightarrow> Some (w, t)
          | Some name \<Rightarrow>
              if take 1 name = ''.'' then custom_ls_entries u fl dp path (w, t)
              else
                let buf = path @ ''/'' @ name in
                if length buf \<ge> 1024 then custom_ls_entries u fl dp path (xerr u (''custom_ls: path too long'' @ eol) w, t)
                else case xlstat u buf w of (r, st, w) \<Rightarrow>
                  if r < 0 then custom_ls_entries u fl dp path (xerr u (''custom_ls: cannot stat '' @ buf @ eol) w, t)
                  else custom_ls_entries u fl dp path (apfst (xout u (print_file fl st name)) (count_entry st (w, t))))"

definition custom_ls :: "'w unix \<Rightarrow> ls_flags \<Rightarrow> string \<Rightarrow> 'w ls_state \<Rightarrow> 'w ls_state option" where
  "custom_ls u fl path s =
     (let line_end = apfst (\<lambda>w. if \<not> flag_l fl then xout u eol w else w) in
      case s of (w, t) \<Rightarrow>
        case xlstat u path w of (r, st, w) \<Rightarrow>
          if r < 0 then Some (xerr u (''custom_ls: cannot stat '' @ path @ eol) w, t)
          else if ls_type st = REG \<or> ls_type st = CHR_DEV \<or> ls_type st = BLK_DEV then
            Some (line_end (apfst (xout u (print_file fl st (ls_name path))) (count_entry st (w, t))))
          else if ls_type st = DIR then
            (case xopendir u path w of (dp, w) \<Rightarrow>
               case dp of
                 None \<Rightarrow> Some (xerr u (''custom_ls: cannot open directory '' @ path @ eol) w, t)
               | Some dp \<Rightarrow>
                   (case custom_ls_entries u fl dp path (w, t) of
                      None \<Rightarrow> None
                    | Some s \<Rightarrow> Some (apfst (xclosedir u dp) (line_end s))))
          else Some (w, t))"

fun ls_opt :: "string \<Rightarrow> ls_flags \<Rightarrow> char + ls_flags" where
  "ls_opt [] fl = Inr fl"
| "ls_opt (c # cs) fl =
     (if c = CHR ''l'' then ls_opt cs (fl\<lparr>flag_l := True\<rparr>)
      else if c = CHR ''s'' then ls_opt cs (fl\<lparr>ls_flag_s := True\<rparr>)
      else Inl c)"

fun custom_ls_paths :: "'w unix \<Rightarrow> ls_flags \<Rightarrow> string list \<Rightarrow> 'w ls_state \<Rightarrow> 'w ls_state option" where
  "custom_ls_paths u fl [] s = Some s"
| "custom_ls_paths u fl (p # ps) s =
     (case custom_ls u fl p s of
        None \<Rightarrow> None
      | Some s \<Rightarrow> custom_ls_paths u fl ps (apfst (\<lambda>w. if \<not> flag_l fl \<and> ps \<noteq> [] then xout u eol w else w) s))"

definition ls_summary :: "u32 \<Rightarrow> u32 \<Rightarrow> u32 \<Rightarrow> string" where
  "ls_summary nd nf nb =
     (let bar = replicate 40 (CHR ''='') @ eol in
      eol @ esc ''[1;35m'' @ bar @ ''           SUMMARY          '' @ eol @ bar @ esc ''[0m'' @
      ''  Total Directories : '' @ show_int nd @ eol @ ''  Total Files       : '' @ show_int nf @ eol @
      ''  Total Bytes       : '' @ show_int nb @ eol @ esc ''[1;35m'' @ bar @ esc ''[0m'')"

definition custom_ls_main :: "'w unix \<Rightarrow> string list \<Rightarrow> 'w \<Rightarrow> (int \<times> 'w) option" where
  "custom_ls_main u argv w =
     (case options ls_opt \<lparr>flag_l = False, ls_flag_s = False\<rparr> (drop 1 argv) of
        Inl c \<Rightarrow> Some (1, xerr u (''custom_ls: unknown flag -'' @ [c] @ eol) w)
      | Inr (fl, paths) \<Rightarrow>
          (case (if paths = [] then custom_ls u fl ''.'' (w, 0, 0, 0) else custom_ls_paths u fl paths (w, 0, 0, 0)) of
             None \<Rightarrow> None
           | Some (w, nd, nf, nb) \<Rightarrow> Some (0, if ls_flag_s fl then xout u (ls_summary nd nf nb) w else w)))"

section \<open>custom_grep\<close>

text \<open>What a C string function sees of a buffer.\<close>

definition c_str :: "string \<Rightarrow> string" where
  "c_str s = takeWhile (\<lambda>c. c \<noteq> CHR 0x00) s"

definition to_lower :: "string \<Rightarrow> string" where
  "to_lower s = map lower s"

function match_len :: "string \<Rightarrow> string \<Rightarrow> nat \<Rightarrow> nat \<Rightarrow> nat" where
  "match_len s pattern i j =
     (if j < length pattern then (if s ! (i + j) \<noteq> pattern ! j then j else match_len s pattern i (j + 1)) else j)"
  by auto
termination by (relation "measure (\<lambda>(s, pattern, i, j). length pattern - j)") auto

function contains_loop :: "string \<Rightarrow> string \<Rightarrow> nat \<Rightarrow> bool" where
  "contains_loop s pattern i =
     (if int i \<le> int (length s) - int (length pattern) then
        (if match_len s pattern i 0 = length pattern then True else contains_loop s pattern (i + 1))
      else False)"
  by auto
termination by (relation "measure (\<lambda>(s, pattern, i). Suc (length s) - i)") auto

definition contains :: "string \<Rightarrow> string \<Rightarrow> bool" where
  "contains s pattern = contains_loop s pattern 0"

declare match_len.simps [simp del] contains_loop.simps [simp del]

text \<open>\<^verbatim>\<open>fgets\<close> on what is left of a stream: at most \<open>n\<close> characters, up to and with the first newline.\<close>

fun fgets :: "nat \<Rightarrow> string \<Rightarrow> string \<times> string" where
  "fgets 0 s = ([], s)"
| "fgets (Suc n) [] = ([], [])"
| "fgets (Suc n) (c # s) = (if c = CHR 0x0A then ([c], s) else case fgets n s of (l, r) \<Rightarrow> (c # l, r))"

lemma fgets_rest: "length (snd (fgets n s)) \<le> length s"
  by (induction n s rule: fgets.induct) (auto split: prod.splits)

lemma fgets_decreases: "s \<noteq> [] \<Longrightarrow> length (snd (fgets (Suc n) s)) < length s"
  using fgets_rest[of n "tl s"] by (cases s) (auto split: prod.splits)

definition MAX_LINE :: nat where "MAX_LINE = 1024"

record grep_flags =
  flag_i :: bool
  flag_n :: bool
  flag_c :: bool

fun grep_opt :: "string \<Rightarrow> grep_flags \<Rightarrow> char + grep_flags" where
  "grep_opt [] fl = Inr fl"
| "grep_opt (c # cs) fl =
     (if c = CHR ''i'' then grep_opt cs (fl\<lparr>flag_i := True\<rparr>)
      else if c = CHR ''n'' then grep_opt cs (fl\<lparr>flag_n := True\<rparr>)
      else if c = CHR ''c'' then grep_opt cs (fl\<lparr>flag_c := True\<rparr>)
      else Inl c)"

definition strip_newline :: "string \<Rightarrow> string" where
  "strip_newline line = (if line \<noteq> [] \<and> last line = CHR 0x0A then butlast line else line)"

text \<open>The loop over the lines: the number of matches and what is printed.\<close>

function custom_grep_loop :: "grep_flags \<Rightarrow> string \<Rightarrow> u32 \<Rightarrow> u32 \<Rightarrow> string \<Rightarrow> u32 \<times> string" where
  "custom_grep_loop fl pat_cmp lineno count s =
     (if s = [] then (count, [])
      else
        let r = snd (fgets (MAX_LINE - 1) s);
            lineno = lineno + 1;
            line = strip_newline (c_str (fst (fgets (MAX_LINE - 1) s)));
            line_cmp = take (MAX_LINE - 1) line;
            line_cmp = (if flag_i fl then to_lower line_cmp else line_cmp)
        in if \<not> contains line_cmp pat_cmp then custom_grep_loop fl pat_cmp lineno count r
           else
             apsnd (\<lambda>out. (if \<not> flag_c fl then (if flag_n fl then show_int lineno @ '':'' else []) @ line @ eol else []) @ out)
               (custom_grep_loop fl pat_cmp lineno (count + 1) r))"
  by auto
termination
  using fgets_decreases[of _ 1022] by (relation "measure (\<lambda>(fl, p, n, k, s). length s)") (auto simp: MAX_LINE_def)

declare custom_grep_loop.simps [simp del]

text \<open>\<open>fopen\<close> gives the contents of a file that can be opened, \<open>stdin\<close> the standard input; the result is the status and what goes to \<^verbatim>\<open>stdout\<close> and \<^verbatim>\<open>stderr\<close>.\<close>

definition custom_grep_run :: "grep_flags \<Rightarrow> string \<Rightarrow> string \<Rightarrow> int \<times> string" where
  "custom_grep_run fl pattern s =
     (let pat_cmp = (if flag_i fl then to_lower pattern else pattern);
          (count, out) = custom_grep_loop fl pat_cmp 0 0 s
      in (if 0 <s count then 0 else 1,
          out @ (if flag_c fl then show_int count @ eol else []) @ (if count = 0 then ''No match found.'' @ eol else [])))"

definition custom_grep :: "(string \<Rightarrow> string option) \<Rightarrow> string \<Rightarrow> string list \<Rightarrow> int \<times> string \<times> string" where
  "custom_grep fopen stdin argv =
     (case options grep_opt \<lparr>flag_i = False, flag_n = False, flag_c = False\<rparr> (drop 1 argv) of
        Inl c \<Rightarrow> (1, [], ''custom_grep: unknown option '' @ [CHR 0x27] @ ''-'' @ [c] @ [CHR 0x27] @ eol)
      | Inr (fl, []) \<Rightarrow>
          (1, [], ''Usage: custom_grep [-n] [-i] [-c] '' @ [CHR 0x22] @ ''PATTERN'' @ [CHR 0x22] @ '' [FILE]'' @ eol @
             ''  Tip: Always quote PATTERN to avoid shell misinterpretation.'' @ eol)
      | Inr (fl, [p]) \<Rightarrow>
          (case custom_grep_run fl (take (MAX_LINE - 1) p) stdin of (st, out) \<Rightarrow>
             (st, out, ''custom_grep: no file specified, reading from stdin (Ctrl+D to end)'' @ eol))
      | Inr (fl, p # f # extra) \<Rightarrow>
          (case fopen f of
             None \<Rightarrow> (1, [], ''Error: custom_grep cannot open '' @ [CHR 0x27] @ f @ [CHR 0x27] @ eol)
           | Some s \<Rightarrow>
               (case custom_grep_run fl (take (MAX_LINE - 1) p) s of (st, out) \<Rightarrow>
                  (st, out,
                   if extra = [] then []
                   else ''custom_grep: warning: extra arguments ignored:'' @
                     concat (map (\<lambda>a. '' '' @ [CHR 0x27] @ a @ [CHR 0x27]) extra) @ eol))))"

section \<open>custom_wc\<close>

text \<open>
  The characters the loop of \<^verbatim>\<open>count_file\<close> sees. It keeps the result of \<^verbatim>\<open>fgetc\<close> in a \<^verbatim>\<open>char\<close>, where the byte 255 is -1, as \<^verbatim>\<open>EOF\<close> is, when
  \<^verbatim>\<open>char\<close> is signed, as on the machines the program is built for; the loop ends there.
\<close>

definition counted :: "string \<Rightarrow> string" where
  "counted s = takeWhile (\<lambda>c. c \<noteq> CHR 0xFF) s"

definition is_space :: "char \<Rightarrow> bool" where
  "is_space c \<longleftrightarrow> c \<in> {CHR '' '', CHR 0x09, CHR 0x0A, CHR 0x0B, CHR 0x0C, CHR 0x0D}"

definition count_char :: "char \<Rightarrow> counts \<Rightarrow> counts" where
  "count_char c st =
     (case st of (lines, words, chars, in_word) \<Rightarrow>
        let chars = chars + 1; lines = (if c = CHR 0x0A then lines + 1 else lines) in
        if is_space c then (lines, words, chars, False)
        else if \<not> in_word then (lines, words + 1, chars, True)
        else (lines, words, chars, in_word))"

definition count_file :: "(string \<Rightarrow> string option) \<Rightarrow> string \<Rightarrow> u32 \<times> u32 \<times> u32 \<Rightarrow> string \<times> u32 \<times> u32 \<times> u32" where
  "count_file fopen filename tot =
     (case fopen filename of
        None \<Rightarrow> (''Error opening file: '' @ filename @ eol, tot)
      | Some s \<Rightarrow>
          (case (fold count_char (counted s) (0, 0, 0, False), tot) of ((lines, words, chars, _), (tl', tw', tc')) \<Rightarrow>
             (''File: '' @ filename @ eol @ ''Lines: '' @ show_int lines @ eol @ ''Words: '' @ show_int words @ eol @
              ''Characters: '' @ show_int chars @ eol @ eol,
              tl' + lines, tw' + words, tc' + chars)))"

fun count_files :: "(string \<Rightarrow> string option) \<Rightarrow> string list \<Rightarrow> u32 \<times> u32 \<times> u32 \<Rightarrow> string \<times> u32 \<times> u32 \<times> u32" where
  "count_files fopen [] tot = ([], tot)"
| "count_files fopen (f # fs) tot =
     (case count_file fopen f tot of (out, tot) \<Rightarrow> apfst (\<lambda>o'. out @ o') (count_files fopen fs tot))"

definition custom_wc :: "(string \<Rightarrow> string option) \<Rightarrow> string list \<Rightarrow> int \<times> string" where
  "custom_wc fopen argv =
     (if length argv < 2 then (1, ''Usage: '' @ argv ! 0 @ '' file1 [file2 ...]'' @ eol)
      else case count_files fopen (drop 1 argv) (0, 0, 0) of (out, tl', tw', tc') \<Rightarrow>
        (0, out @
           (if length argv \<ge> 3 then
              ''TOTAL'' @ eol @ ''Lines: '' @ show_int tl' @ eol @ ''Words: '' @ show_int tw' @ eol @ ''Characters: '' @ show_int tc' @ eol
            else [])))"

section \<open>The shell\<close>

text \<open>The words between blanks, as \<^verbatim>\<open>strtok\<close> finds them.\<close>

fun strtok :: "string \<Rightarrow> string \<Rightarrow> string list" where
  "strtok tok [] = (if tok = [] then [] else [tok])"
| "strtok tok (c # s) =
     (if c = CHR '' '' then (if tok = [] then strtok [] s else tok # strtok [] s) else strtok (tok @ [c]) s)"

text \<open>
  The loop on the lines \<^verbatim>\<open>fgets\<close> returns. A child whose \<^verbatim>\<open>execvp\<close> fails goes on with the loop. \<open>undef\<close> stands for what follows when the words and the
  NULL overflow \<^verbatim>\<open>args\<close> or \<^verbatim>\<open>execvp\<close> gets NULL for a name, \<open>eof\<close> for what follows at the end of the input, where \<^verbatim>\<open>fgets\<close> leaves the buffer as it is.
\<close>

fun g5_shell :: "prog \<Rightarrow> prog \<Rightarrow> string list \<Rightarrow> prog" where
  "g5_shell undef eof [] = Write 1 ''G5_Shell> '' eof"
| "g5_shell undef eof (buffer # rest) =
     Write 1 ''G5_Shell> ''
       (let buffer = takeWhile (\<lambda>c. c \<noteq> CHR 0x0A) (c_str buffer); next = g5_shell undef eof rest in
        if buffer = [] then next
        else if buffer = ''exit'' then Exit 0
        else
          let args = strtok [] buffer in
          if length args \<ge> 25 then undef
          else Fork (\<lambda>a.
            if a = 0 then
              (if args = [] then undef else Exec (hd args) args (Write 1 (''Command Not Found!!'' @ eol) next))
            else Wait next))"

section \<open>Searching\<close>

lemma match_len_full: "j \<le> length pat \<Longrightarrow> match_len s pat i j = length pat \<longleftrightarrow> (\<forall>k. j \<le> k \<and> k < length pat \<longrightarrow> s ! (i + k) = pat ! k)"
proof (induction s pat i j rule: match_len.induct)
  case (1 s pat i j)
  show ?case
  proof (cases "j < length pat \<and> s ! (i + j) = pat ! j")
    case True
    have "match_len s pat i j = match_len s pat i (j + 1)" using True by (subst match_len.simps) simp
    also have "\<dots> = length pat \<longleftrightarrow> (\<forall>k. j + 1 \<le> k \<and> k < length pat \<longrightarrow> s ! (i + k) = pat ! k)" using 1 True by simp
    also have "\<dots> \<longleftrightarrow> (\<forall>k. j \<le> k \<and> k < length pat \<longrightarrow> s ! (i + k) = pat ! k)"
      using True by (metis Suc_eq_plus1 Suc_leD le_antisym not_less_eq_eq)
    finally show ?thesis .
  next
    case False
    then show ?thesis using 1(2) by (subst match_len.simps) auto
  qed
qed

lemma match_len_at: "i + length pat \<le> length s \<Longrightarrow> match_len s pat i 0 = length pat \<longleftrightarrow> take (length pat) (drop i s) = pat"
  by (auto simp: match_len_full list_eq_iff_nth_eq)

lemma contains_loop_iff: "contains_loop s pat i \<longleftrightarrow> (\<exists>k\<ge>i. k + length pat \<le> length s \<and> take (length pat) (drop k s) = pat)"
proof (induction s pat i rule: contains_loop.induct)
  case (1 s pat i)
  show ?case
  proof (cases "i + length pat \<le> length s")
    case True
    then have "int i \<le> int (length s) - int (length pat)" by simp
    moreover have "(\<exists>k\<ge>i. P k) \<longleftrightarrow> P i \<or> (\<exists>k\<ge>i + 1. P k)" for P by (metis Suc_eq_plus1 Suc_leD le_eq_less_or_eq less_eq_Suc_le order_refl)
    ultimately show ?thesis using 1 True match_len_at[OF True] by (subst contains_loop.simps) auto
  next
    case False
    then show ?thesis by (subst contains_loop.simps) auto
  qed
qed

lemma contains_sublist: "contains s pat \<longleftrightarrow> sublist pat s"
proof
  assume "contains s pat"
  then obtain k where "take (length pat) (drop k s) = pat" by (auto simp: contains_def contains_loop_iff)
  then have "s = take k s @ pat @ drop (length pat) (drop k s)" by (metis append_take_drop_id)
  then show "sublist pat s" by (auto simp: sublist_def)
next
  assume "sublist pat s"
  then obtain a b where "s = a @ pat @ b" by (auto simp: sublist_def)
  then show "contains s pat" unfolding contains_def contains_loop_iff by (intro exI[of _ "length a"]) simp
qed

text \<open>A line of a text file that fits the buffer, and what a search is to print.\<close>

definition text_line :: "string \<Rightarrow> bool" where
  "text_line l \<longleftrightarrow> CHR 0x00 \<notin> set l \<and> CHR 0x0A \<notin> set l \<and> length l < 1023"

definition is_hit :: "grep_flags \<Rightarrow> string \<Rightarrow> string \<Rightarrow> bool" where
  "is_hit fl pat l \<longleftrightarrow> (if flag_i fl then sublist (to_lower pat) (to_lower l) else sublist pat l)"

definition hits :: "grep_flags \<Rightarrow> string \<Rightarrow> nat \<Rightarrow> string list \<Rightarrow> (nat \<times> string) list" where
  "hits fl pat n ks =
     filter (\<lambda>(k, l). is_hit fl pat l) (enumerate n ks)"

definition show_hit :: "grep_flags \<Rightarrow> nat \<times> string \<Rightarrow> string" where
  "show_hit fl h = (if flag_c fl then [] else (if flag_n fl then show_int (of_nat (fst h)) @ '':'' else []) @ snd h @ eol)"

abbreviation text_of :: "string list \<Rightarrow> string" where
  "text_of ks \<equiv> concat (map (\<lambda>l. l @ eol) ks)"

lemma fgets_line: "CHR 0x0A \<notin> set l \<Longrightarrow> length l < n \<Longrightarrow> fgets n (l @ CHR 0x0A # s) = (l @ eol, s)"
proof (induction l arbitrary: n)
  case Nil
  then show ?case by (cases n) auto
next
  case (Cons c l)
  then show ?case by (cases n) auto
qed

lemma line_read:
  assumes "text_line l"
  shows "fgets (MAX_LINE - 1) (l @ CHR 0x0A # s) = (l @ eol, s)" "strip_newline (c_str (l @ eol)) = l" "take (MAX_LINE - 1) l = l"
proof -
  have "c_str (l @ eol) = l @ eol" using assms by (auto simp: c_str_def text_line_def takeWhile_append2 takeWhile_eq_all_conv intro: takeWhile_append2)
  then show "strip_newline (c_str (l @ eol)) = l" by (simp add: strip_newline_def)
qed (use assms in \<open>auto simp: text_line_def MAX_LINE_def fgets_line\<close>)

lemma custom_grep_loop_line:
  assumes "text_line l"
  shows "custom_grep_loop fl (if flag_i fl then to_lower pat else pat) (of_nat n) k (l @ CHR 0x0A # s) =
    (if is_hit fl pat l then
       apsnd ((@) (show_hit fl (Suc n, l))) (custom_grep_loop fl (if flag_i fl then to_lower pat else pat) (of_nat (Suc n)) (k + 1) s)
     else custom_grep_loop fl (if flag_i fl then to_lower pat else pat) (of_nat (Suc n)) k s)"
proof -
  have num: "(of_nat n + 1 :: u32) = of_nat (Suc n)" by simp
  have ne: "(l @ CHR 0x0A # s = []) = False" by simp
  show ?thesis
    unfolding custom_grep_loop.simps[of fl _ "of_nat n" k "l @ CHR 0x0A # s"] ne if_False line_read[OF assms] fst_conv snd_conv Let_def num contains_sublist
    by (cases "flag_i fl"; cases "flag_c fl") (simp_all add: is_hit_def show_hit_def del: of_nat_Suc)
qed

lemma hits_Nil [simp]: "hits fl pat n [] = []"
  by (simp add: hits_def)

lemma hits_Cons [simp]: "hits fl pat n (l # ks) = (if is_hit fl pat l then (n, l) # hits fl pat (Suc n) ks else hits fl pat (Suc n) ks)"
  by (simp add: hits_def)

lemma custom_grep_loop_hits:
  assumes "\<forall>l\<in>set ks. text_line l"
  shows "custom_grep_loop fl (if flag_i fl then to_lower pat else pat) (of_nat n) k (text_of ks) =
    (k + of_nat (length (hits fl pat (Suc n) ks)), concat (map (show_hit fl) (hits fl pat (Suc n) ks)))"
  using assms
proof (induction ks arbitrary: n k)
  case Nil
  then show ?case by (subst custom_grep_loop.simps) simp
next
  case (Cons l ks)
  then have IH: "custom_grep_loop fl (if flag_i fl then to_lower pat else pat) (of_nat (Suc n)) k (text_of ks) =
    (k + of_nat (length (hits fl pat (Suc (Suc n)) ks)), concat (map (show_hit fl) (hits fl pat (Suc (Suc n)) ks)))" for k
    by (metis list.set_intros(2))
  have "text_of (l # ks) = l @ CHR 0x0A # text_of ks" by simp
  moreover have "text_line l" using Cons.prems by simp
  ultimately show ?case using custom_grep_loop_line[of l fl pat n k "text_of ks"] unfolding IH by simp
qed



section \<open>Moving\<close>

text \<open>
  What is relied on of the calls: \<open>files\<close> are the files, \<open>opened\<close> the name a descriptor was opened by for writing, \<open>left\<close> what is still to be read from a descriptor. A read fails
  or gives some of what is left, none only at the end; a write that is not cut short appends.
\<close>

definition reads :: "(nat \<Rightarrow> 'w \<Rightarrow> int \<times> 'b list \<times> 'w) \<Rightarrow> ('w \<Rightarrow> 'b list) \<Rightarrow> bool" where
  "reads rd content \<longleftrightarrow> (\<forall>n w k bs w'. rd n w = (k, bs, w') \<longrightarrow> 0 \<le> k \<longrightarrow>
     k = int (length bs) \<and> content w = bs @ content w' \<and> (0 < n \<longrightarrow> content w \<noteq> [] \<longrightarrow> bs \<noteq> []))"

lemma readsD:
  assumes "reads rd content" "rd n w = (k, bs, w')" "0 \<le> k"
  shows "k = int (length bs)" "content w = bs @ content w'" "0 < n \<Longrightarrow> content w \<noteq> [] \<Longrightarrow> bs \<noteq> []"
  using assms unfolding reads_def by blast+

lemma copy_loop_outcome:
  assumes "reads rd content" "0 < n" "I w"
    and rd: "\<And>m w k bs w'. rd m w = (k, bs, w') \<Longrightarrow> I w \<Longrightarrow> I w' \<and> out w' = out w"
    and wr: "\<And>s w r w'. wr s w = (r, w') \<Longrightarrow> I w \<Longrightarrow> I w' \<and> r = int (length s) \<and> out w' = out w @ s \<and> content w' = content w"
  shows "\<exists>c w' p. copy_loop rd wr n w = Some (c, w') \<and> I w' \<and> out w' = out w @ p \<and>
    (c = Copied \<and> p = content w \<or> c = ReadError \<and> prefix p (content w) \<and> (\<exists>m w. fst (rd m w) < 0))"
  using assms(3)
proof (induction "length (content w)" arbitrary: w rule: less_induct)
  case less
  obtain k bs w1 where r: "rd n w = (k, bs, w1)" by (rule prod_cases3[of "rd n w"])
  note i = rd[OF r less.prems]
  show ?case
  proof (cases "k < 0")
    case True
    then have "copy_loop rd wr n w = Some (ReadError, w1)" by (subst copy_loop.simps) (simp add: r)
    moreover have "\<exists>m w. fst (rd m w) < 0" using True r by (intro exI[of _ n] exI[of _ w]) simp
    ultimately show ?thesis using i by (intro exI[of _ ReadError] exI[of _ w1] exI[of _ "[]"]) simp
  next
    case False
    then have k: "0 \<le> k" by simp
    note d = readsD[of rd content, OF assms(1) r k]
    show ?thesis
    proof (cases "bs = []")
      case True
      then have "content w = []" using d(3)[OF assms(2)] by blast
      moreover have "copy_loop rd wr n w = Some (Copied, w1)" using d(1) True by (subst copy_loop.simps) (simp add: r)
      ultimately show ?thesis using i by (intro exI[of _ Copied] exI[of _ w1] exI[of _ "[]"]) simp
    next
      case False
      obtain m w2 where w: "wr bs w1 = (m, w2)" by (cases "wr bs w1") auto
      note a = wr[OF w conjunct1[OF i]]
      have "length (content w2) < length (content w)" using d(2) a False by simp
      from less.hyps[OF this conjunct1[OF a]] obtain c w3 p where
        c: "copy_loop rd wr n w2 = Some (c, w3)" "I w3" "out w3 = out w2 @ p"
           "c = Copied \<and> p = content w2 \<or> c = ReadError \<and> prefix p (content w2) \<and> (\<exists>m w. fst (rd m w) < 0)" by blast
      have "copy_loop rd wr n w = Some (c, w3)" using d(1) a False by (subst copy_loop.simps) (simp add: r w c(1))
      moreover have "out w3 = out w @ bs @ p" using c(3) a i by simp
      moreover have cw: "content w = bs @ content w2" using d(2) a by simp
      have "c = Copied \<and> bs @ p = content w \<or> c = ReadError \<and> prefix (bs @ p) (content w) \<and> (\<exists>m w. fst (rd m w) < 0)"
        using c(4) unfolding cw by (elim disjE) simp_all
      ultimately show ?thesis using c(2) by blast
    qed
  qed
qed

definition unix_world :: "'w unix \<Rightarrow> ('w \<Rightarrow> string \<rightharpoonup> string) \<Rightarrow> (int \<Rightarrow> 'w \<Rightarrow> string option) \<Rightarrow> (int \<Rightarrow> 'w \<Rightarrow> string) \<Rightarrow> bool" where
  "unix_world u files opened left \<longleftrightarrow>
     (\<forall>m w. files (xerr u m w) = files w \<and> files (xperror u m w) = files w) \<and>
     (\<forall>fd w. files (xclose u fd w) = files w) \<and>
     (\<forall>f g w r w'. xrename u f g w = (r, w') \<longrightarrow> r \<noteq> 0 \<longrightarrow> files w' = files w) \<and>
     (\<forall>f w fd w'. xopen u f [RDONLY] 0 w = (fd, w') \<longrightarrow> 0 \<le> fd \<longrightarrow>
        files w' = files w \<and> opened fd w' = Some f \<and> files w f = Some (left fd w')) \<and>
     (\<forall>f w fd w' g h. xopen u f [WRONLY, CREAT, TRUNC] 420 w = (fd, w') \<longrightarrow> 0 \<le> fd \<longrightarrow>
        files w' = (files w)(f \<mapsto> []) \<and> opened fd w' = Some f \<and>
        (opened g w = Some h \<longrightarrow> h \<noteq> f \<longrightarrow> opened g w' = Some h \<and> left g w' = left g w)) \<and>
     (\<forall>fd. reads (xread u fd) (left fd)) \<and>
     (\<forall>fd n w k bs w'. xread u fd n w = (k, bs, w') \<longrightarrow> files w' = files w \<and> (\<forall>g. opened g w' = opened g w)) \<and>
     (\<forall>fd s w r w' f t. xwrite u fd s w = (r, w') \<longrightarrow> opened fd w = Some f \<longrightarrow> files w f = Some t \<longrightarrow>
        r = int (length s) \<and> files w' = (files w)(f \<mapsto> t @ s) \<and>
        (\<forall>g. opened g w' = opened g w \<and> (opened g w \<noteq> Some f \<longrightarrow> left g w' = left g w))) \<and>
     (\<forall>f w w'. xunlink u f w = (0, w') \<longrightarrow> files w' = (files w)(f := None))"

lemma unix_worldD:
  assumes "unix_world u files opened left"
  shows "files (xerr u m w) = files w" "files (xperror u m w) = files w" "files (xclose u fd w) = files w"
    and "xrename u f f' w = (r, w') \<Longrightarrow> r \<noteq> 0 \<Longrightarrow> files w' = files w"
    and "xopen u f [RDONLY] 0 w = (fd, w') \<Longrightarrow> 0 \<le> fd \<Longrightarrow> files w' = files w \<and> opened fd w' = Some f \<and> files w f = Some (left fd w')"
    and "xopen u f [WRONLY, CREAT, TRUNC] 420 w = (fd, w') \<Longrightarrow> 0 \<le> fd \<Longrightarrow> files w' = (files w)(f \<mapsto> []) \<and> opened fd w' = Some f"
    and "xopen u f [WRONLY, CREAT, TRUNC] 420 w = (fd, w') \<Longrightarrow> 0 \<le> fd \<Longrightarrow> opened g w = Some h \<Longrightarrow> h \<noteq> f \<Longrightarrow>
      opened g w' = Some h \<and> left g w' = left g w"
    and "reads (xread u fd) (left fd)"
    and "xread u fd n w = (k, bs, w') \<Longrightarrow> files w' = files w \<and> opened g w' = opened g w"
    and "xwrite u fd s w = (r, w') \<Longrightarrow> opened fd w = Some f \<Longrightarrow> files w f = Some t \<Longrightarrow> r = int (length s) \<and> files w' = (files w)(f \<mapsto> t @ s)"
    and "xwrite u fd s w = (r, w') \<Longrightarrow> opened fd w = Some f \<Longrightarrow> files w f = Some t \<Longrightarrow>
      opened g w' = opened g w \<and> (opened g w \<noteq> Some f \<longrightarrow> left g w' = left g w)"
    and "xunlink u f w = (0, w') \<Longrightarrow> files w' = (files w)(f := None)"
proof -
  note r0 = assms[unfolded unix_world_def]
  note r1 = conjunct2[OF r0] note r2 = conjunct2[OF r1] note r3 = conjunct2[OF r2] note r4 = conjunct2[OF r3]
  note r5 = conjunct2[OF r4] note r6 = conjunct2[OF r5] note r7 = conjunct2[OF r6]
  show "files (xerr u m w) = files w" "files (xperror u m w) = files w" using conjunct1[OF r0] by simp_all
  show "files (xclose u fd w) = files w" using conjunct1[OF r1] by simp
  show "xrename u f f' w = (r, w') \<Longrightarrow> r \<noteq> 0 \<Longrightarrow> files w' = files w" by (rule conjunct1[OF r2, rule_format])
  show "xopen u f [RDONLY] 0 w = (fd, w') \<Longrightarrow> 0 \<le> fd \<Longrightarrow> files w' = files w \<and> opened fd w' = Some f \<and> files w f = Some (left fd w')"
    using conjunct1[OF r3, rule_format, of f w fd w'] by simp
  show "xopen u f [WRONLY, CREAT, TRUNC] 420 w = (fd, w') \<Longrightarrow> 0 \<le> fd \<Longrightarrow> files w' = (files w)(f \<mapsto> []) \<and> opened fd w' = Some f"
    using conjunct1[OF r4, THEN spec, of f, THEN spec, of w, THEN spec, of fd, THEN spec, of w'] by simp
  show "xopen u f [WRONLY, CREAT, TRUNC] 420 w = (fd, w') \<Longrightarrow> 0 \<le> fd \<Longrightarrow> opened g w = Some h \<Longrightarrow> h \<noteq> f \<Longrightarrow>
      opened g w' = Some h \<and> left g w' = left g w"
    using conjunct1[OF r4, THEN spec, of f, THEN spec, of w, THEN spec, of fd, THEN spec, of w'] by simp
  show "reads (xread u fd) (left fd)" using conjunct1[OF r5] by simp
  show "xread u fd n w = (k, bs, w') \<Longrightarrow> files w' = files w \<and> opened g w' = opened g w"
    using conjunct1[OF r6, THEN spec, of fd, THEN spec, of n, THEN spec, of w] by simp
  note c7 = conjunct1[OF r7, THEN spec, of fd, THEN spec, of s, THEN spec, of w]
  show "xwrite u fd s w = (r, w') \<Longrightarrow> opened fd w = Some f \<Longrightarrow> files w f = Some t \<Longrightarrow> r = int (length s) \<and> files w' = (files w)(f \<mapsto> t @ s)"
    using c7 by simp
  show "xwrite u fd s w = (r, w') \<Longrightarrow> opened fd w = Some f \<Longrightarrow> files w f = Some t \<Longrightarrow>
      opened g w' = opened g w \<and> (opened g w \<noteq> Some f \<longrightarrow> left g w' = left g w)"
    using c7 by simp
  show "xunlink u f w = (0, w') \<Longrightarrow> files w' = (files w)(f := None)" using conjunct2[OF r7] by simp
qed

text \<open>The copy of a file that can be opened: a prefix of the source, the whole of it unless a read fails.\<close>

lemma copy_file_outcome:
  assumes "unix_world u files opened left" "files w src = Some s" "src \<noteq> dst"
    "\<And>w. src \<in> dom (files w) \<Longrightarrow> 0 \<le> fst (xopen u src [RDONLY] 0 w)" "\<And>w. 0 \<le> fst (xopen u dst [WRONLY, CREAT, TRUNC] 420 w)"
  shows "\<exists>w' p. copy_file u e1 e2 e3 e4 src dst w = Some (True, w') \<and> src \<in> dom (files w') \<and> files w' dst = Some p \<and> prefix p s \<and>
    (p = s \<or> (\<exists>fd n w. fst (xread u fd n w) < 0))"
proof -
  obtain sfd w1 where o1: "xopen u src [RDONLY] 0 w = (sfd, w1)" by (cases "xopen u src [RDONLY] 0 w") auto
  obtain dfd w2 where o2: "xopen u dst [WRONLY, CREAT, TRUNC] 420 w1 = (dfd, w2)" by (cases "xopen u dst [WRONLY, CREAT, TRUNC] 420 w1") auto
  have pos: "0 \<le> sfd" "0 \<le> dfd" using assms(4)[of w] assms(5)[of w1] assms(2) o1 o2 by auto
  note f1 = unix_worldD(5)[OF assms(1) o1 pos(1)] and f2 = unix_worldD(6)[OF assms(1) o2 pos(2)]
  have l: "opened sfd w2 = Some src" "left sfd w2 = s" using unix_worldD(7)[OF assms(1) o2 pos(2), of sfd src] f1 assms(2,3) by auto
  define I where "I w \<longleftrightarrow> opened sfd w = Some src \<and> opened dfd w = Some dst \<and> src \<in> dom (files w) \<and> dst \<in> dom (files w)" for w
  define out where "out w = the (files w dst)" for w
  have "\<exists>c w' p. copy_loop (xread u sfd) (xwrite u dfd) BUFFER_SIZE w2 = Some (c, w') \<and> I w' \<and> out w' = out w2 @ p \<and>
    (c = Copied \<and> p = left sfd w2 \<or> c = ReadError \<and> prefix p (left sfd w2) \<and> (\<exists>m w. fst (xread u sfd m w) < 0))"
  proof (rule copy_loop_outcome[where content = "left sfd" and I = I and out = out])
    show "reads (xread u sfd) (left sfd)" by (rule unix_worldD(8)[OF assms(1)])
    show "0 < BUFFER_SIZE" by (simp add: BUFFER_SIZE_def)
    show "I w2" using l f1 f2 assms(2) by (auto simp: I_def)
    show "I w' \<and> out w' = out w" if "xread u sfd m w = (k, bs, w')" "I w" for m w k bs w'
      using unix_worldD(9)[OF assms(1) that(1)] that(2) by (simp add: I_def out_def)
    show "I w' \<and> r = int (length t) \<and> out w' = out w @ t \<and> left sfd w' = left sfd w" if a: "xwrite u dfd t w = (r, w')" and i: "I w" for t w r w'
    proof -
      obtain x where x: "opened dfd w = Some dst" "files w dst = Some x" "opened sfd w = Some src" using i by (auto simp: I_def)
      show ?thesis
        using unix_worldD(10)[OF assms(1) a x(1,2)] unix_worldD(11)[OF assms(1) a x(1,2)] x i assms(3) by (simp add: I_def out_def)
    qed
  qed
  then obtain c w3 p where c: "copy_loop (xread u sfd) (xwrite u dfd) BUFFER_SIZE w2 = Some (c, w3)" "I w3" "out w3 = out w2 @ p"
    "c = Copied \<and> p = s \<or> c = ReadError \<and> prefix p s \<and> (\<exists>m w. fst (xread u sfd m w) < 0)" unfolding l(2) by blast
  have "src \<in> dom (files w3)" "files w3 dst = Some p" using c(2,3) f2 by (auto simp: I_def out_def)
  moreover have "prefix p s" "p = s \<or> (\<exists>fd n w. fst (xread u fd n w) < 0)" using c(4) by auto
  moreover have "\<exists>w'. copy_file u e1 e2 e3 e4 src dst w = Some (True, w') \<and> files w' = files w3"
    using c(1,4) pos o1 o2 unix_worldD(2,3)[OF assms(1)] by (auto simp: copy_file_def)
  ultimately show ?thesis by auto
qed


text \<open>A source of seven bytes is moved; the first read gives four of them, the next fails.\<close>

record demo_disk =
  dfiles :: "string \<rightharpoonup> string"
  dtab :: "(string \<times> string) list"

abbreviation in_tab :: "int \<Rightarrow> demo_disk \<Rightarrow> bool" where
  "in_tab fd w \<equiv> 0 \<le> fd \<and> nat fd < length (dtab w)"

definition demo_unix :: "demo_disk unix" where
  "demo_unix = \<lparr>
     xopen = (\<lambda>f fl m w.
       if fl = [RDONLY] then
         (case dfiles w f of Some s \<Rightarrow> (int (length (dtab w)), w\<lparr>dtab := dtab w @ [(f, s)]\<rparr>) | None \<Rightarrow> (-1, w))
       else (int (length (dtab w)), w\<lparr>dfiles := (dfiles w)(f \<mapsto> []), dtab := dtab w @ [(f, [])]\<rparr>)),
     xread = (\<lambda>fd n w.
       if in_tab fd w \<and> length (snd (dtab w ! nat fd)) > 4 then
         (4, take 4 (snd (dtab w ! nat fd)), w\<lparr>dtab := (dtab w)[nat fd := apsnd (drop 4) (dtab w ! nat fd)]\<rparr>)
       else (-1, [], w)),
     xwrite = (\<lambda>fd s w.
       if in_tab fd w then
         (int (length s), w\<lparr>dfiles := (dfiles w)(fst (dtab w ! nat fd) \<mapsto> the (dfiles w (fst (dtab w ! nat fd))) @ s)\<rparr>)
       else (-1, w)),
     xclose = (\<lambda>fd w. w), xrename = (\<lambda>f g w. (-1, w)), xunlink = (\<lambda>f w. (0, w\<lparr>dfiles := (dfiles w)(f := None)\<rparr>)),
     xrmdir = (\<lambda>f w. (-1, w)), xlstat = (\<lambda>f w. (-1, \<lparr>ls_type = REG, ls_ixusr = False, ls_ino = 0, ls_size = 0\<rparr>, w)),
     xopendir = (\<lambda>f w. (None, w)), xreaddir = (\<lambda>d w. (None, w)), xclosedir = (\<lambda>d w. w),
     xout = (\<lambda>s w. w), xerr = (\<lambda>s w. w), xperror = (\<lambda>s w. w), xstrerror = (\<lambda>w. [])\<rparr>"

lemma demo_unix_world:
  "unix_world demo_unix dfiles (\<lambda>fd w. if in_tab fd w then Some (fst (dtab w ! nat fd)) else None)
     (\<lambda>fd w. if in_tab fd w then snd (dtab w ! nat fd) else [])"
  unfolding unix_world_def reads_def
  by (intro conjI) (auto simp: demo_unix_def nth_append nth_list_update split: option.splits if_splits)


end
