(* ===== verification/Mkfs.thy ===== *)
theory Mkfs
  imports Fs
begin

text \<open>
  \<^verbatim>\<open>mkfs/mkfs.c\<close>: the program that writes the initial file system. The image is a map from block numbers to blocks, without the blocks never written; the input
  files are given by the successive results of \<^verbatim>\<open>read\<close>. \<open>None\<close> is an exit through \<^verbatim>\<open>die\<close> or a failed assertion. The machine that runs it is
  little-endian, so \<^verbatim>\<open>xshort\<close> and \<^verbatim>\<open>xint\<close> are the identity.
\<close>

section \<open>The image\<close>

record fs_image =
  img :: "u32 \<rightharpoonup> u8 list"
  freeinode :: u32
  freeblock :: u32

definition FSSIZE :: nat where "FSSIZE = 2000"
definition NINODES :: nat where "NINODES = 200"

definition nbitmap :: nat where "nbitmap = FSSIZE div BPB + 1"
definition ninodeblocks :: nat where "ninodeblocks = NINODES div IPB + 1"
definition nlog_blocks :: nat where "nlog_blocks = LOGBLOCKS + 1"
definition nmeta :: nat where "nmeta = 2 + nlog_blocks + ninodeblocks + nbitmap"

definition mkfs_sb :: superblock where
  "mkfs_sb = \<lparr>magic = FSMAGIC, sb_size = of_nat FSSIZE, nblocks = of_nat (FSSIZE - nmeta), ninodes = of_nat NINODES, nlog = of_nat nlog_blocks,
     logstart = 2, inodestart = of_nat (2 + nlog_blocks), bmapstart = of_nat (2 + nlog_blocks + ninodeblocks)\<rparr>"

definition sb_bytes :: "superblock \<Rightarrow> u8 list" where
  "sb_bytes u = concat (map (le_bytes 4)
     [magic u, sb_size u, nblocks u, ninodes u, nlog u, logstart u, inodestart u, bmapstart u])"

definition wsect :: "u32 \<Rightarrow> u8 list \<Rightarrow> fs_image \<Rightarrow> fs_image" where
  "wsect sec buf s = s\<lparr>img := (img s)(sec \<mapsto> buf)\<rparr>"

definition rsect :: "u32 \<Rightarrow> fs_image \<Rightarrow> u8 list option" where
  "rsect sec s = img s sec"

section \<open>Inodes\<close>

definition no_inode :: inode where
  "no_inode = \<lparr>i_dev = 0, inum = 0, ref = 0, i_valid = 0, i_type = 0, major = 0, minor = 0, nlink = 0, isize = 0, addrs = (\<lambda>_. 0)\<rparr>"

definition winode :: "u32 \<Rightarrow> inode \<Rightarrow> fs_image \<Rightarrow> fs_image option" where
  "winode i ip s =
     (let bn = IBLOCK i mkfs_sb in
      case rsect bn s of
        None \<Rightarrow> None
      | Some buf \<Rightarrow> Some (wsect bn (put_bytes (dinode_off i) (dinode_bytes ip) buf) s))"

definition rinode :: "u32 \<Rightarrow> fs_image \<Rightarrow> inode option" where
  "rinode i s =
     (case rsect (IBLOCK i mkfs_sb) s of
        None \<Rightarrow> None
      | Some buf \<Rightarrow> Some (read_dinode (drop (dinode_off i) buf) no_inode))"

definition mk_ialloc :: "int \<Rightarrow> fs_image \<Rightarrow> (u32 \<times> fs_image) option" where
  "mk_ialloc ty s =
     (let i = freeinode s in
      map_option (Pair i) (winode i (no_inode\<lparr>i_type := short ty, nlink := 1, isize := 0\<rparr>) (s\<lparr>freeinode := i + 1\<rparr>)))"

section \<open>Appending to a file\<close>

text \<open>The block of the file that byte \<open>off\<close> belongs to, allocated where there is none.\<close>

definition append_block :: "inode \<Rightarrow> nat \<Rightarrow> fs_image \<Rightarrow> (u32 \<times> inode \<times> fs_image) option" where
  "append_block din fbn s =
     (if \<not> fbn < NDIRECT + NINDIRECT then None
      else if fbn < NDIRECT then
        (let (din, s) =
           (if addrs din fbn = 0 then (din\<lparr>addrs := (addrs din)(fbn := freeblock s)\<rparr>, s\<lparr>freeblock := freeblock s + 1\<rparr>) else (din, s))
         in Some (addrs din fbn, din, s))
      else
        (let (din, s) =
           (if addrs din NDIRECT = 0 then (din\<lparr>addrs := (addrs din)(NDIRECT := freeblock s)\<rparr>, s\<lparr>freeblock := freeblock s + 1\<rparr>) else (din, s))
         in case rsect (addrs din NDIRECT) s of
              None \<Rightarrow> None
            | Some indirect \<Rightarrow>
                if get32 indirect (fbn - NDIRECT) = 0 then
                  let b = freeblock s; indirect = put32 indirect (fbn - NDIRECT) b in
                  Some (b, din, wsect (addrs din NDIRECT) indirect (s\<lparr>freeblock := b + 1\<rparr>))
                else Some (get32 indirect (fbn - NDIRECT), din, s)))"

function iappend_loop :: "inode \<Rightarrow> nat \<Rightarrow> u8 list \<Rightarrow> fs_image \<Rightarrow> (nat \<times> inode \<times> fs_image) option" where
  "iappend_loop din off p s =
     (if p = [] then Some (off, din, s)
      else
        let fbn = off div BSIZE; n1 = min (length p) ((fbn + 1) * BSIZE - off) in
        case append_block din fbn s of
          None \<Rightarrow> None
        | Some (x, din, s) \<Rightarrow>
            (case rsect x s of
               None \<Rightarrow> None
             | Some buf \<Rightarrow>
                 iappend_loop din (off + n1) (drop n1 p) (wsect x (put_bytes (off - fbn * BSIZE) (take n1 p) buf) s)))"
  by auto
termination
proof (relation "measure (\<lambda>(din, off, p, s). length p)", goal_cases)
  case (2 din off p s fbn n1 y x z din' s' buf)
  have "off < (off div 1024 + 1) * 1024" using dividend_less_times_div[of 1024 off] by simp
  then show ?case using 2 by simp
qed simp

definition iappend :: "u32 \<Rightarrow> u8 list \<Rightarrow> fs_image \<Rightarrow> fs_image option" where
  "iappend i p s =
     (case rinode i s of
        None \<Rightarrow> None
      | Some din \<Rightarrow>
          (case iappend_loop din (unat (isize din)) p s of
             None \<Rightarrow> None
           | Some (off, din, s) \<Rightarrow> winode i (din\<lparr>isize := of_nat off\<rparr>) s))"

section \<open>The bitmap\<close>

definition balloc_bits :: "nat \<Rightarrow> u8 list" where
  "balloc_bits taken =
     fold (\<lambda>i buf. buf[i div 8 := buf ! (i div 8) OR push_bit (i mod 8) 1]) [0..<taken] (replicate BSIZE 0)"

definition mk_balloc :: "int \<Rightarrow> fs_image \<Rightarrow> fs_image option" where
  "mk_balloc taken s = (if \<not> taken < int BPB then None else Some (wsect (bmapstart mkfs_sb) (balloc_bits (nat taken)) s))"

section \<open>The program\<close>

definition dirent_bytes :: "u32 \<Rightarrow> string \<Rightarrow> u8 list" where
  "dirent_bytes i name = le_bytes 2 (ucast i :: u16) @ take DIRSIZ (map of_char name @ replicate DIRSIZ 0)"

fun mk_chunks :: "u32 \<Rightarrow> u8 list list \<Rightarrow> fs_image \<Rightarrow> fs_image option" where
  "mk_chunks i [] s = Some s"
| "mk_chunks i (b # bs) s = (case iappend i b s of None \<Rightarrow> None | Some s \<Rightarrow> mk_chunks i bs s)"

definition mk_file :: "(string \<Rightarrow> u8 list list option) \<Rightarrow> u32 \<Rightarrow> string \<Rightarrow> fs_image \<Rightarrow> fs_image option" where
  "mk_file openf rootino arg s =
     (let shortname = (if take 5 arg = ''user/'' then drop 5 arg else arg) in
      if CHR ''/'' \<in> set shortname then None
      else case openf arg of
          None \<Rightarrow> None
        | Some chunks \<Rightarrow>
            (let shortname = (if take 1 shortname = ''_'' then drop 1 shortname else shortname) in
             if \<not> length shortname \<le> DIRSIZ then None
             else case mk_ialloc T_FILE s of
                 None \<Rightarrow> None
               | Some (i, s) \<Rightarrow>
                   (case iappend rootino (dirent_bytes i shortname) s of
                      None \<Rightarrow> None
                    | Some s \<Rightarrow> mk_chunks i chunks s)))"

fun mk_files :: "(string \<Rightarrow> u8 list list option) \<Rightarrow> u32 \<Rightarrow> string list \<Rightarrow> fs_image \<Rightarrow> fs_image option" where
  "mk_files openf rootino [] s = Some s"
| "mk_files openf rootino (a # as) s = (case mk_file openf rootino a s of None \<Rightarrow> None | Some s \<Rightarrow> mk_files openf rootino as s)"

definition blank_image :: fs_image where
  "blank_image = fold (\<lambda>i. wsect (of_nat i) (replicate BSIZE 0)) [0..<FSSIZE]
     \<lparr>img = (\<lambda>_. None), freeinode = 1, freeblock = of_nat nmeta\<rparr>"

definition fix_root :: "u32 \<Rightarrow> fs_image \<Rightarrow> fs_image option" where
  "fix_root rootino s =
     (case rinode rootino s of
        None \<Rightarrow> None
      | Some din \<Rightarrow> winode rootino (din\<lparr>isize := (isize din div of_nat BSIZE + 1) * of_nat BSIZE\<rparr>) s)"

definition mkfs_main :: "(string \<Rightarrow> u8 list list option) \<Rightarrow> string list \<Rightarrow> fs_image option" where
  "mkfs_main openf files =
     (let s = wsect 1 (put_bytes 0 (sb_bytes mkfs_sb) (replicate BSIZE 0)) blank_image in
      case mk_ialloc T_DIR s of
        None \<Rightarrow> None
      | Some (rootino, s) \<Rightarrow>
          if rootino \<noteq> ROOTINO then None
          else case iappend rootino (dirent_bytes rootino ''.'') s of
              None \<Rightarrow> None
            | Some s \<Rightarrow>
                (case iappend rootino (dirent_bytes rootino ''..'') s of
                   None \<Rightarrow> None
                 | Some s \<Rightarrow>
                     (case mk_files openf rootino files s of
                        None \<Rightarrow> None
                      | Some s \<Rightarrow>
                          (case fix_root rootino s of
                             None \<Rightarrow> None
                           | Some s \<Rightarrow> mk_balloc (sint (freeblock s)) s))))"

section \<open>The bitmap and the kernel\<close>

lemma balloc_bits_Suc: "balloc_bits (Suc n) = set_bit8 n (balloc_bits n)"
  by (simp add: balloc_bits_def set_bit8_def)

lemma length_balloc_bits [simp]: "length (balloc_bits n) = BSIZE"
  by (induction n) (simp_all add: balloc_bits_Suc set_bit8_def, simp add: balloc_bits_def)

lemma bit_clear_set_bit8:
  assumes "length d = BSIZE" "b < BPB" "i < BPB"
  shows "bit_clear (set_bit8 i d) b \<longleftrightarrow> bit_clear d b \<and> b \<noteq> i"
proof -
  have eq: "b = i \<longleftrightarrow> b div 8 = i div 8 \<and> b mod 8 = i mod 8" by (metis div_mult_mod_eq)
  have byte: "(x :: u8) AND 2 ^ k = 0 \<longleftrightarrow> \<not> bit x k" for x k
    by (simp add: and_exp_eq_0_iff_not_bit)
  have "b mod 8 < 8" "i mod 8 < 8" by simp_all
  then show ?thesis using assms
    by (cases "b div 8 = i div 8") (auto simp: bit_clear_def set_bit8_def byte bit_simps eq)
qed

lemma bit_clear_balloc_bits: "taken \<le> BPB \<Longrightarrow> b < BPB \<Longrightarrow> bit_clear (balloc_bits taken) b \<longleftrightarrow> taken \<le> b"
proof (induction taken)
  case 0
  then show ?case by (simp add: balloc_bits_def bit_clear_def)
next
  case (Suc n)
  then show ?case by (auto simp: balloc_bits_Suc bit_clear_set_bit8)
qed

lemma find_snoc: "find P (xs @ [x]) = (case find P xs of None \<Rightarrow> if P x then Some x else None | Some y \<Rightarrow> Some y)"
  by (induction xs) auto

lemma find_first:
  assumes "\<And>b. b < n \<Longrightarrow> P b \<longleftrightarrow> k \<le> b"
  shows "find P [0..<n] = (if k < n then Some k else None)"
  using assms
proof (induction n)
  case (Suc n)
  then have "find P [0..<n] = (if k < n then Some k else None)" by simp
  then show ?case using Suc.prems[of n] by (auto simp: find_snoc less_Suc_eq)
qed simp



end
