(* ===== verification/Spec2Isabelle.thy ===== *)
theory Spec2Isabelle
  imports Vmprops Trap Spinlock Pipeprops Ugrep Uprintf Ulib Umalloc Ushrun Ulockprops Shmprops Commands Mkfs
begin

text \<open>
  Verification of the operating system under \<^verbatim>\<open>src/Project_1/xv6-riscv\<close> (a variant of xv6 for RISC-V with threads, user-level locks, shared memory and
  system-call tracing), of its user programs, and of the POSIX utilities and the shell under \<^verbatim>\<open>src/Project_2\<close>.

  \<^bold>\<open>The program and its parts.\<close> User programs enter the kernel through \<^verbatim>\<open>trap.c\<close>, which calls \<^verbatim>\<open>syscall.c\<close>; its table leads to the handlers in \<^verbatim>\<open>sysproc.c\<close>, \<^verbatim>\<open>sysfile.c\<close>, \<^verbatim>\<open>syslock.c\<close> and
  \<^verbatim>\<open>sysshm.c\<close>. These use the process table (\<^verbatim>\<open>proc.c\<close>), address spaces (\<^verbatim>\<open>vm.c\<close> over the page allocator \<^verbatim>\<open>kalloc.c\<close>) and files
  (\<^verbatim>\<open>file.c\<close> over \<^verbatim>\<open>pipe.c\<close>, \<^verbatim>\<open>console.c\<close> and the file system \<^verbatim>\<open>fs.c\<close>, which changes blocks in the buffer cache \<^verbatim>\<open>bio.c\<close> inside transactions of
  \<^verbatim>\<open>log.c\<close>; \<^verbatim>\<open>virtio_disk.c\<close> moves blocks). Spin locks, sleep locks and \<^verbatim>\<open>sleep\<close>/\<^verbatim>\<open>wakeup\<close> order all of them. \<^verbatim>\<open>mkfs.c\<close> writes the first file system. The user programs see the kernel through its system calls only.

  \<^bold>\<open>How code is modelled.\<close> A routine of the kernel is a function from the state to an \<^verbatim>\<open>outcome\<close> (theory \<^verbatim>\<open>Prelude\<close>): \<^verbatim>\<open>Ok\<close> with a result, \<^verbatim>\<open>Block\<close> when the
  process sleeps, \<^verbatim>\<open>Panic\<close>, or \<^verbatim>\<open>Fault\<close> where C leaves the behaviour undefined or the machine would trap. The state is one record that each component extends with its fields,
  in the order \<^verbatim>\<open>Machine\<close> (memory, locks held), \<^verbatim>\<open>Kalloc\<close>, \<^verbatim>\<open>Proctab\<close>, \<^verbatim>\<open>Userlock\<close>, \<^verbatim>\<open>Shm\<close>, \<^verbatim>\<open>Bio\<close>, \<^verbatim>\<open>Log\<close>, \<^verbatim>\<open>Fs\<close>, \<^verbatim>\<open>Console\<close>, \<^verbatim>\<open>Pipe\<close>,
  \<^verbatim>\<open>File\<close>, \<^verbatim>\<open>Virtio\<close>, \<^verbatim>\<open>Trap\<close>; a function of one component works on every extension. Machine integers are words of their width; addresses are 64-bit words into byte-addressed
  memory. A structure the kernel keeps in a table is a record, a pointer to it the index in the table.

  \<^item> \<^verbatim>\<open>Prelude\<close>, \<^verbatim>\<open>Transition\<close>: outcomes, loop combinators, word and list lemmas; step relations, with the locales \<^verbatim>\<open>step_invariant\<close> and \<^verbatim>\<open>simulation\<close>.
  \<^item> \<^verbatim>\<open>Machine\<close> (\<^verbatim>\<open>riscv.h\<close>, \<^verbatim>\<open>memlayout.h\<close>), \<^verbatim>\<open>Cstring\<close> (\<^verbatim>\<open>string.c\<close>), \<^verbatim>\<open>Kalloc\<close> (\<^verbatim>\<open>kalloc.c\<close>, with the locale \<^verbatim>\<open>page_allocator\<close>), \<^verbatim>\<open>Kprintf\<close> (\<^verbatim>\<open>printf.c\<close>).
  \<^item> \<^verbatim>\<open>Spinlock\<close> (\<^verbatim>\<open>spinlock.c\<close>): the memory operations of \<^verbatim>\<open>acquire\<close> and \<^verbatim>\<open>release\<close> interleaved between harts. Mutual exclusion; refinement of the set of locks held, which is
    what all other theories use; the cost of an uncontended pair.
  \<^item> \<^verbatim>\<open>Vm\<close> (\<^verbatim>\<open>vm.c\<close>), with \<^verbatim>\<open>Pagetable\<close>, \<^verbatim>\<open>Uvm\<close>, \<^verbatim>\<open>Uvmcopy\<close>, \<^verbatim>\<open>Uvmfree\<close>, \<^verbatim>\<open>Usercopy\<close>, \<^verbatim>\<open>Vmprops\<close>: page tables are trees in memory, \<^verbatim>\<open>umap\<close> is the map they denote. What each operation
    does to that map, to page contents and to the free pages, on success and on failure.
  \<^item> \<^verbatim>\<open>Proctab\<close>, \<^verbatim>\<open>Proc\<close>, \<^verbatim>\<open>Proclife\<close> (\<^verbatim>\<open>proc.c\<close>, \<^verbatim>\<open>proc.h\<close>), with \<^verbatim>\<open>Frame\<close> and \<^verbatim>\<open>Procprops\<close>: sleeping, waking and killing.
  \<^item> \<^verbatim>\<open>Sysproc\<close> (\<^verbatim>\<open>sysproc.c\<close>, arguments of \<^verbatim>\<open>syscall.c\<close>), \<^verbatim>\<open>Userlock\<close> and \<^verbatim>\<open>Ulockprops\<close> (\<^verbatim>\<open>syslock.c\<close>): mutual exclusion over all interleavings of the calls other than
    \<^verbatim>\<open>lock_destroy\<close>; \<^verbatim>\<open>Shm\<close> and \<^verbatim>\<open>Shmprops\<close> (\<^verbatim>\<open>sysshm.c\<close>): attaching is all or nothing.
  \<^item> \<^verbatim>\<open>Bio\<close> and \<^verbatim>\<open>Bioprops\<close> (\<^verbatim>\<open>sleeplock.c\<close>, \<^verbatim>\<open>bio.c\<close>): the recency list and that reads see the last write. \<^verbatim>\<open>Log\<close> and \<^verbatim>\<open>Logprops\<close> (\<^verbatim>\<open>log.c\<close>): crash
    atomicity of a commit, with crashes during recovery. \<^verbatim>\<open>Fs\<close>, \<^verbatim>\<open>Fsdata\<close> (\<^verbatim>\<open>fs.c\<close>), \<^verbatim>\<open>Mkfs\<close> (\<^verbatim>\<open>mkfs.c\<close>): the bitmap it writes is the one the kernel reads.
  \<^item> \<^verbatim>\<open>Console\<close> (\<^verbatim>\<open>console.c\<close>, \<^verbatim>\<open>uart.c\<close>), \<^verbatim>\<open>Pipe\<close> and \<^verbatim>\<open>Pipeprops\<close> (\<^verbatim>\<open>pipe.c\<close>): pipes are bounded queues, also when the counters wrap. \<^verbatim>\<open>File\<close>, \<^verbatim>\<open>Sysfile\<close>,
    \<^verbatim>\<open>Exec\<close>, \<^verbatim>\<open>Virtio\<close>, \<^verbatim>\<open>Trap\<close>: the sources of the same names, every handler and branch.
  \<^item> \<^verbatim>\<open>Ulib\<close>, \<^verbatim>\<open>Uprintf\<close>, \<^verbatim>\<open>Umalloc\<close> (\<^verbatim>\<open>user/ulib.c\<close>, \<^verbatim>\<open>printf.c\<close>, \<^verbatim>\<open>umalloc.c\<close>): string routines, agreement of the two formatters, the
    allocator's list of free blocks. \<^verbatim>\<open>Ugrep\<close> (\<^verbatim>\<open>grep.c\<close>): the matcher decides the language of the pattern. \<^verbatim>\<open>Uprogs\<close>: \<^verbatim>\<open>cat\<close>, \<^verbatim>\<open>wc\<close>, \<^verbatim>\<open>ls\<close> and the other small programs.
  \<^item> \<^verbatim>\<open>Ush\<close>, \<^verbatim>\<open>Ushparse\<close>, \<^verbatim>\<open>Ushprint\<close>, \<^verbatim>\<open>Ushrun\<close> (\<^verbatim>\<open>sh.c\<close>): the parser ends and inverts printing; the shell starts the programs a line asks for with the right descriptors.
  \<^item> \<^verbatim>\<open>Commands\<close> (\<^verbatim>\<open>Project_2\<close>): \<^verbatim>\<open>custom_grep\<close> prints the lines that contain the pattern; what \<^verbatim>\<open>custom_mv\<close> leaves behind.

  \<^bold>\<open>Loops and bounds.\<close> Loops with a known number of rounds recurse on it: those over a range of pages carry the number of pages in the range, and \<^verbatim>\<open>Fault\<close> when it runs out, which the theorems
  exclude. The shell's parser has one more unit of fuel than the line has characters; every call consumes a character, and \<^verbatim>\<open>Ushparse.parsecmd_safe\<close> shows that it
  never runs out. The shell opens the console at most four times, because descriptors are handed out lowest first. \<^verbatim>\<open>custom_rm\<close> needs no fuel: a path it follows is
  longer than the one before and shorter than 1024 bytes. Loops that may run forever are partial functions with the value \<^verbatim>\<open>None\<close>; the theorems about them show that they return.

  \<^bold>\<open>Parameters.\<close> Addresses of code, answers of devices and, for user programs, the system calls are arguments. What a theorem relies on of them is a named predicate
  (\<^verbatim>\<open>delivers\<close>, \<^verbatim>\<open>file_world\<close>, \<^verbatim>\<open>unix_world\<close>), with an instance in the theorem's witness.

  \<^bold>\<open>Limits.\<close> Outside \<^verbatim>\<open>Spinlock\<close> and the step relation of \<^verbatim>\<open>Ulockprops\<close> a routine runs to its end or to a sleep, in which it resumes at its loop head (the functions named \<^verbatim>\<open>_loop\<close>); other
  harts are not interleaved inside it, which holding the locks justifies. A disk transfer is complete when \<^verbatim>\<open>bread\<close> and \<^verbatim>\<open>bwrite\<close> return. The bytes of trap frames, pipes and user heap
  headers are viewed as structures.

  \<^bold>\<open>Not modelled.\<close> Boot (\<^verbatim>\<open>start.c\<close>, \<^verbatim>\<open>main.c\<close>, \<^verbatim>\<open>plic.c\<close>) and \<^verbatim>\<open>kvminithart\<close>: writes of control registers. The assembly files: register save and restore. The handshakes
  \<^verbatim>\<open>uartinit\<close> and \<^verbatim>\<open>virtio_disk_init\<close> with device registers, and the polling output of \<^verbatim>\<open>uartputc_sync\<close>. \<^verbatim>\<open>init.c\<close>: an endless loop of \<^verbatim>\<open>fork\<close>, \<^verbatim>\<open>exec\<close> and \<^verbatim>\<open>wait\<close>. The test programs of
  \<^verbatim>\<open>user/\<close>: they only exercise the system calls. \<^verbatim>\<open>usys.pl\<close> generates the system-call stubs. The last step of reading a whole file that \<^verbatim>\<open>Mkfs\<close> has written through \<^verbatim>\<open>Fsdata\<close> is not
  proved, nor are functional theorems about \<^verbatim>\<open>fs.c\<close>, \<^verbatim>\<open>exec.c\<close> and \<^verbatim>\<open>trap.c\<close>, which are modelled only.
\<close>

end
